(* ===== verification/CRT_Prelude.thy ===== *)
theory CRT_Prelude
  imports Main "HOL-Library.Word" "HOL-Library.Monad_Syntax"
begin

text \<open>
  Shared vocabulary of the development.

  \<^item> Fixed-width integer types of \<^verbatim>\<open>int_types.h\<close> and
    \<^verbatim>\<open>sanitizer_internal_defs.h\<close> as words.  A word carries no sign:
    a signed reading is \<open>sint\<close>, an unsigned one \<open>uint\<close> or \<open>unat\<close>,
    a C cast between the signed and the unsigned type of one width is the identity.
  \<^item> A run-time \<^verbatim>\<open>CHECK\<close> that fails, an array access outside the array and a
    loop that does not end are the value \<^term>\<open>None\<close> of an \<open>option\<close> result;
    code that may do one of these is written in the \<open>option\<close> monad.
  \<^item> Named collections of rewrite rules that the component theories add to.
\<close>

unbundle bit_operations_syntax

type_synonym u8 = "8 word"
type_synonym u16 = "16 word"
type_synonym u32 = "32 word"
type_synonym u64 = "64 word"
type_synonym u128 = "128 word"

named_theorems check_simps \<open>rules for the CHECK and array primitives\<close>

section \<open>Checks and array accesses\<close>

definition check :: "bool \<Rightarrow> unit option" where
  "check b = (if b then Some () else None)"

definition arr_get :: "'a list \<Rightarrow> nat \<Rightarrow> 'a option" where
  "arr_get xs i = (if i < length xs then Some (xs ! i) else None)"

definition arr_set :: "'a list \<Rightarrow> nat \<Rightarrow> 'a \<Rightarrow> 'a list option" where
  "arr_set xs i v = (if i < length xs then Some (xs[i := v]) else None)"

lemma check_eq_Some [check_simps]: "check b = Some u \<longleftrightarrow> b"
  by (simp add: check_def)

lemma check_bind [simp]: "check b \<bind> f = (if b then f () else None)"
  by (simp add: check_def)

lemma arr_get_in [simp]: "i < length xs \<Longrightarrow> arr_get xs i = Some (xs ! i)"
  by (simp add: arr_get_def)

lemma arr_set_in [simp]: "i < length xs \<Longrightarrow> arr_set xs i v = Some (xs[i := v])"
  by (simp add: arr_set_def)

lemma arr_get_eq_Some [check_simps]:
  "arr_get xs i = Some v \<longleftrightarrow> i < length xs \<and> xs ! i = v"
  by (auto simp: arr_get_def)

lemma arr_set_eq_Some [check_simps]:
  "arr_set xs i v = Some ys \<longleftrightarrow> i < length xs \<and> ys = xs[i := v]"
  by (auto simp: arr_set_def)

lemma arr_get_out [simp]: "length xs \<le> i \<Longrightarrow> arr_get xs i = None"
  by (simp add: arr_get_def)

lemma arr_set_out [simp]: "length xs \<le> i \<Longrightarrow> arr_set xs i v = None"
  by (simp add: arr_set_def)

section \<open>Loops over a list of iterations\<close>

text \<open>The loop \<^verbatim>\<open>for (x : xs) s = f(x, s)\<close> whose body may fail.\<close>

fun foldM :: "('a \<Rightarrow> 's \<Rightarrow> 's option) \<Rightarrow> 'a list \<Rightarrow> 's \<Rightarrow> 's option" where
  "foldM f [] s = Some s"
| "foldM f (x # xs) s = do { s \<leftarrow> f x s; foldM f xs s }"

lemma foldM_append: "foldM f (xs @ ys) s = foldM f xs s \<bind> foldM f ys"
  by (induction xs arbitrary: s) (auto split: option.split bind_split)

text \<open>An invariant over the set of the iterations done so far gives total correctness.\<close>

lemma foldM_invariant:
  assumes "distinct xs" and "I {} s"
    and "\<And>P x s. \<lbrakk> P \<subseteq> set xs; x \<in> set xs; x \<notin> P; I P s \<rbrakk> \<Longrightarrow>
      \<exists>s'. f x s = Some s' \<and> I (insert x P) s'"
  shows "\<exists>s'. foldM f xs s = Some s' \<and> I (set xs) s'"
  using assms
proof (induction xs rule: rev_induct)
  case Nil
  then show ?case by simp
next
  case (snoc x xs)
  have "\<exists>s'. foldM f xs s = Some s' \<and> I (set xs) s'"
    by (rule snoc.IH) (use snoc.prems(1,2) in \<open>auto intro!: snoc.prems(3)\<close>)
  then obtain s1 where s1: "foldM f xs s = Some s1" "I (set xs) s1"
    by blast
  obtain s2 where "f x s1 = Some s2" "I (insert x (set xs)) s2"
    using snoc.prems(3) [of "set xs" x s1] snoc.prems(1) s1(2) by auto
  then show ?case
    using s1(1) by (simp add: foldM_append)
qed

text \<open>The same with the number of iterations done, for a counting loop.\<close>

lemma foldM_upt_invariant:
  assumes "m \<le> n" and "I m s"
    and "\<And>i s. \<lbrakk> m \<le> i; i < n; I i s \<rbrakk> \<Longrightarrow> \<exists>s'. f i s = Some s' \<and> I (Suc i) s'"
  shows "\<exists>s'. foldM f [m..<n] s = Some s' \<and> I n s'"
  using assms
proof (induction n)
  case 0
  then show ?case by simp
next
  case (Suc n)
  show ?case
  proof (cases "m = Suc n")
    case True
    then show ?thesis using Suc.prems(2) by simp
  next
    case False
    then have "\<exists>s'. foldM f [m..<n] s = Some s' \<and> I n s'"
      using Suc.prems by (intro Suc.IH) auto
    then obtain s1 where s1: "foldM f [m..<n] s = Some s1" "I n s1"
      by blast
    obtain s2 where "f n s1 = Some s2" "I (Suc n) s2"
      using Suc.prems(3) [of n s1] s1(2) False Suc.prems(1) by auto
    then show ?thesis
      using s1(1) False Suc.prems(1) by (simp add: foldM_append)
  qed
qed

lemma foldM_rev_upt_invariant:
  assumes "I n s" and "\<And>i s. \<lbrakk> i < n; I (Suc i) s \<rbrakk> \<Longrightarrow> \<exists>s'. f i s = Some s' \<and> I i s'"
  shows "\<exists>s'. foldM f (rev [0..<n]) s = Some s' \<and> I 0 s'"
  using assms
proof (induction n arbitrary: s)
  case 0
  then show ?case by simp
next
  case (Suc n)
  obtain s1 where "f n s = Some s1" "I n s1"
    using Suc.prems(2) [of n s] Suc.prems(1) by auto
  moreover have "\<exists>s'. foldM f (rev [0..<n]) s1 = Some s' \<and> I 0 s'"
    using calculation(2) Suc.prems(2) by (intro Suc.IH) auto
  ultimately show ?case
    by simp
qed

lemma foldM_cong:
  assumes "\<And>x s. x \<in> set xs \<Longrightarrow> f x s = g x s"
  shows "foldM f xs s = foldM g xs s"
  using assms by (induction xs arbitrary: s) (auto intro!: Option.bind_cong)

section \<open>Words\<close>

lemma uint_lt_2p: "uint (x :: 'a::len word) < 2 ^ LENGTH('a)"
  by (rule uint_bounded)

lemma unat_lt_2p: "unat (x :: 'a::len word) < 2 ^ LENGTH('a)"
  by (rule unsigned_less)

lemma word_eq_iff_uint: "x = y \<longleftrightarrow> uint x = uint y"
  by (simp add: word_uint_eq_iff)

text \<open>A word operation that does not wrap is the operation on integers.\<close>

lemma uint_plus_nowrap:
  "uint x + uint y < 2 ^ LENGTH('a) \<Longrightarrow> uint (x + y :: 'a::len word) = uint x + uint y"
  by (simp add: uint_word_ariths)

lemma uint_minus_nowrap:
  "uint y \<le> uint x \<Longrightarrow> uint (x - y :: 'a::len word) = uint x - uint y"
  by (metis uint_sub_lem)

lemma uint_mult_nowrap:
  "uint x * uint y < 2 ^ LENGTH('a) \<Longrightarrow> uint (x * y :: 'a::len word) = uint x * uint y"
  by (simp add: uint_word_ariths)

lemma uint_push_bit_mod:
  "uint (push_bit n x :: 'a::len word) = uint x * 2 ^ n mod 2 ^ LENGTH('a)"
  by (simp add: unsigned_push_bit_eq) (simp add: push_bit_eq_mult take_bit_eq_mod)

lemma uint_drop_bit_div: "uint (drop_bit n x :: 'a::len word) = uint x div 2 ^ n"
  by (simp add: unsigned_drop_bit_eq) (simp add: drop_bit_eq_div take_bit_int_eq_self)

lemma unat_2p: "n < LENGTH('a) \<Longrightarrow> unat (2 ^ n :: 'a::len word) = 2 ^ n"
  using unsigned_of_nat [where 'a = nat and 'b = 'a, of "2 ^ n"]
  by (simp add: take_bit_nat_eq_self)

lemma bit_unat: "bit (unat w) n \<longleftrightarrow> bit w n"
  by (simp add: bit_simps)

lemma int_div_less_pos:
  assumes "0 < b" and "a < c * b"
  shows "a div b < (c :: int)"
proof (rule ccontr)
  assume "\<not> a div b < c"
  then have "c * b \<le> a div b * b"
    using assms(1) by (intro mult_right_mono) simp_all
  also have "\<dots> \<le> a"
    using div_mult_mod_eq [of a b] pos_mod_sign [OF assms(1), of a] by linarith
  finally show False
    using assms(2) by simp
qed

text \<open>The signed and the unsigned reading of a word.\<close>

lemma uint_sint_mod: "uint (x :: 'a::len word) = sint x mod 2 ^ LENGTH('a)"
  by (simp add: uint_sint take_bit_eq_mod)

lemma two_power_Suc_len: "2 * 2 ^ (LENGTH('a::len) - Suc 0) = (2 :: int) ^ LENGTH('a)"
  by (metis Suc_pred len_gt_0 power_Suc)

lemma sint_eq_if:
  "sint (x :: 'a::len word) =
     (if uint x < 2 ^ (LENGTH('a) - 1) then uint x else uint x - 2 ^ LENGTH('a))"
proof (cases "0 \<le> sint x")
  case True
  then have "uint x = sint x"
    using sint_lt [of x] two_power_Suc_len [where 'a = 'a]
    by (simp add: uint_sint_mod)
  then show ?thesis
    using sint_lt [of x] by simp
next
  case False
  have "uint x = (sint x + 2 ^ LENGTH('a)) mod 2 ^ LENGTH('a)"
    by (simp add: uint_sint_mod)
  also have "\<dots> = sint x + 2 ^ LENGTH('a)"
    using False sint_ge [of x] two_power_Suc_len [where 'a = 'a]
    by (intro mod_pos_pos_trivial) auto
  finally show ?thesis
    using sint_ge [of x] two_power_Suc_len [where 'a = 'a] by simp
qed

lemma unat_drop_bit_div: "unat (drop_bit n x :: 'a::len word) = unat x div 2 ^ n"
  by (simp add: unsigned_drop_bit_eq) (simp add: drop_bit_eq_div take_bit_nat_eq_self)

lemma unat_of_nat_small: "n < 2 ^ LENGTH('a) \<Longrightarrow> unat (word_of_nat n :: 'a::len word) = n"
  by (simp add: unat_of_nat)

lemma sint_of_int_small:
  "- (2 ^ (LENGTH('a) - 1)) \<le> e \<Longrightarrow> e < 2 ^ (LENGTH('a) - 1) \<Longrightarrow>
    sint (word_of_int e :: 'a::len word) = e"
  by (simp add: signed_of_int signed_take_bit_int_eq_self)

lemma unat_2_mult: "unat (2 * x :: 'a::len word) = 2 * unat x mod 2 ^ LENGTH('a)"
proof -
  have "2 * x = x + x" by simp
  then show ?thesis
    by (simp only: unat_word_ariths mult_2)
qed

lemma le_div_iff_int:
  assumes "0 < (v :: int)"
  shows "q \<le> x div v \<longleftrightarrow> q * v \<le> x"
proof
  assume "q \<le> x div v"
  then have "q * v \<le> x div v * v"
    using assms by simp
  also have "\<dots> \<le> x"
    using assms pos_mod_sign [of v x] div_mult_mod_eq [of x v] by linarith
  finally show "q * v \<le> x" .
next
  assume "q * v \<le> x"
  then show "q \<le> x div v"
    using zdiv_mono1 [of "q * v" x v] assms by simp
qed

lemma div_less_iff_int: "0 < (v :: int) \<Longrightarrow> x div v < q \<longleftrightarrow> x < q * v"
  using le_div_iff_int [of v q x] by linarith

lemma uint_push_bit_nowrap:
  assumes "uint w * 2 ^ k < 2 ^ LENGTH('a)"
  shows "uint (push_bit k w :: 'a::len word) = uint w * 2 ^ k"
  using assms
  by (simp only: unsigned_push_bit_eq take_bit_eq_mod) (simp add: push_bit_eq_mult)

lemma unat_push_bit_nowrap:
  assumes "unat w * 2 ^ k < 2 ^ LENGTH('a)"
  shows "unat (push_bit k w :: 'a::len word) = unat w * 2 ^ k"
  using assms
  by (simp only: unsigned_push_bit_eq take_bit_eq_mod) (simp add: push_bit_eq_mult)

end
