(* ===== verification/Int_Types.thy ===== *)
theory Int_Types
  imports CRT_Prelude
begin

text \<open>
  The two-part integers of \<^verbatim>\<open>lib/builtins/int_types.h\<close>: the unions
  \<^verbatim>\<open>dwords\<close>/\<^verbatim>\<open>udwords\<close> (64 bits as two 32-bit halves) and
  \<^verbatim>\<open>twords\<close>/\<^verbatim>\<open>utwords\<close> (128 bits as two 64-bit halves).
  They are one polymorphic pair of selectors and a constructor: \<open>'a bit0\<close> has
  twice the length of \<open>'a\<close>, and \<open>64\<close> is \<open>32 bit0\<close>, \<open>128\<close>
  is \<open>64 bit0\<close>.  The byte order only permutes the fields of the unions, never
  which half is the more significant one, so it does not show in the model.

  The lemmas give the integer reading of a pair of halves, on which the proofs of the
  arithmetic routines rest.
\<close>

text \<open>\<^verbatim>\<open>x >> (N - 1)\<close> on a signed word is its sign.\<close>

lemma signed_drop_bit_sign:
  "signed_drop_bit (LENGTH('a) - Suc 0) (w :: 'a::len word) =
     (if bit w (LENGTH('a) - Suc 0) then - 1 else 0)"
  by (intro bit_word_eqI) (auto simp: bit_simps not_le less_Suc_eq_le split: if_splits)

lemma sign_bit_iff: "bit (w :: 'a::len word) (LENGTH('a) - Suc 0) \<longleftrightarrow> sint w < 0"
  by (simp add: bit_last_iff)

definition s_low :: "'a::len bit0 word \<Rightarrow> 'a word" where
  "s_low x = ucast x"

definition s_high :: "'a::len bit0 word \<Rightarrow> 'a word" where
  "s_high x = ucast (drop_bit LENGTH('a) x)"

definition make_tu :: "'a::len word \<Rightarrow> 'a word \<Rightarrow> 'a bit0 word" where
  "make_tu h l = push_bit LENGTH('a) (ucast h) OR ucast l"

named_theorems halves_simps \<open>integer reading of words given by their halves\<close>

lemma uint_s_low: "uint (s_low x :: 'a::len word) = uint x mod 2 ^ LENGTH('a)"
  by (simp add: s_low_def unsigned_ucast_eq take_bit_eq_mod)

lemma uint_s_high: "uint (s_high x :: 'a::len word) = uint x div 2 ^ LENGTH('a)"
proof -
  have "uint x div 2 ^ LENGTH('a) < 2 ^ LENGTH('a)"
    using uint_lt_2p [of x] by (intro int_div_less_pos) (simp_all add: power_add mult_2)
  then show ?thesis
    by (simp add: s_high_def unsigned_ucast_eq take_bit_eq_mod uint_drop_bit_div
        pos_imp_zdiv_nonneg_iff)
qed

lemma uint_ucast_up:
  assumes "LENGTH('a) \<le> LENGTH('b)"
  shows "uint (ucast (w :: 'a::len word) :: 'b::len word) = uint w"
proof -
  have "uint w < 2 ^ LENGTH('b)"
    using uint_lt_2p [of w] power_increasing [OF assms, of "2 :: int"] by linarith
  then show ?thesis
    by (simp add: unsigned_ucast_eq take_bit_int_eq_self)
qed

lemma uint_make_tu [halves_simps]:
  "uint (make_tu h l :: 'a::len bit0 word) = uint h * 2 ^ LENGTH('a) + uint l"
proof -
  let ?N = "LENGTH('a)"
  have hl: "uint h * 2 ^ ?N + uint l < 2 ^ ?N * 2 ^ ?N"
  proof -
    have "uint h * 2 ^ ?N + uint l < (uint h + 1) * 2 ^ ?N"
      using uint_lt_2p [of l] by (simp add: distrib_right)
    also have "\<dots> \<le> 2 ^ ?N * 2 ^ ?N"
      using uint_lt_2p [of h] by (intro mult_right_mono) (simp_all add: zless_imp_add1_zle)
    finally show ?thesis .
  qed
  have "make_tu h l = push_bit ?N (ucast h) + (ucast l :: 'a bit0 word)"
    unfolding make_tu_def
    by (rule disjunctive_add_eq_or [symmetric]) (auto simp: bit_eq_iff bit_simps dest: bit_imp_le_length)
  then show ?thesis
    using hl
    by (simp add: uint_word_ariths uint_push_bit_mod uint_ucast_up power_add mult_2)
qed

lemma s_low_make_tu [simp]: "s_low (make_tu h l) = l"
  by (simp add: word_eq_iff_uint uint_s_low uint_make_tu)

lemma s_high_make_tu [simp]: "s_high (make_tu h l) = h"
  by (simp add: word_eq_iff_uint uint_s_high uint_make_tu)

lemma make_tu_s_high_s_low [simp]: "make_tu (s_high x) (s_low x) = x"
  by (simp add: word_eq_iff_uint uint_s_high uint_s_low uint_make_tu div_mult_mod_eq)

lemma uint_halves:
  "uint (x :: 'a::len bit0 word) = uint (s_high x) * 2 ^ LENGTH('a) + uint (s_low x)"
  by (metis make_tu_s_high_s_low uint_make_tu)

text \<open>The bits of a double word and of its halves.\<close>

named_theorems halves_bits \<open>bits of double words and of their halves\<close>

lemma bit_s_low [halves_bits]: "bit (s_low x :: 'a::len word) n \<longleftrightarrow> n < LENGTH('a) \<and> bit x n"
  by (auto simp: s_low_def bit_simps)

lemma bit_s_high [halves_bits]:
  "bit (s_high x :: 'a::len word) n \<longleftrightarrow> n < LENGTH('a) \<and> bit x (LENGTH('a) + n)"
  by (auto simp: s_high_def bit_simps)

lemma bit_make_tu [halves_bits]:
  "bit (make_tu h l :: 'a::len bit0 word) n \<longleftrightarrow>
     n < 2 * LENGTH('a) \<and> (if n < LENGTH('a) then bit l n else bit h (n - LENGTH('a)))"
  by (auto simp: make_tu_def bit_simps dest: bit_imp_le_length)

text \<open>The cases of a double word: every double word is a pair of halves.\<close>

lemma double_word_cases:
  obtains h l where "x = make_tu h l"
  by (metis make_tu_s_high_s_low)

lemma make_tu_eq_iff [simp]: "make_tu h l = make_tu h' l' \<longleftrightarrow> h = h' \<and> l = l'"
  by (metis s_high_make_tu s_low_make_tu)

lemma make_tu_0_0 [simp]: "make_tu 0 0 = 0"
  by (simp add: word_eq_iff_uint uint_make_tu)

lemma s_low_0 [simp]: "s_low 0 = 0"
  by (metis make_tu_0_0 s_low_make_tu)

lemma s_high_0 [simp]: "s_high 0 = 0"
  by (metis make_tu_0_0 s_high_make_tu)

lemma make_tu_eq_0_iff [simp]: "make_tu h l = 0 \<longleftrightarrow> h = 0 \<and> l = 0"
  using make_tu_eq_iff [of h l 0 0] by simp

lemma sint_make_tu:
  "sint (make_tu h l :: 'a::len bit0 word) = sint h * 2 ^ LENGTH('a) + uint l"
proof -
  let ?N = "LENGTH('a)"
  have pow: "(2 :: int) ^ (2 * ?N - Suc 0) = 2 ^ (?N - Suc 0) * 2 ^ ?N"
    by (simp flip: power_add)
  have "uint h * 2 ^ ?N + uint l < 2 ^ (2 * ?N - Suc 0) \<longleftrightarrow> uint h < 2 ^ (?N - Suc 0)"
  proof
    assume "uint h * 2 ^ ?N + uint l < 2 ^ (2 * ?N - Suc 0)"
    then have "uint h * 2 ^ ?N < 2 ^ (?N - Suc 0) * 2 ^ ?N"
      unfolding pow using uint_ge_0 [of l] by linarith
    then show "uint h < 2 ^ (?N - Suc 0)" by simp
  next
    assume "uint h < 2 ^ (?N - Suc 0)"
    then have "(uint h + 1) * 2 ^ ?N \<le> 2 ^ (?N - Suc 0) * 2 ^ ?N"
      by (intro mult_right_mono) simp_all
    then show "uint h * 2 ^ ?N + uint l < 2 ^ (2 * ?N - Suc 0)"
      using uint_lt_2p [of l] unfolding pow distrib_right mult_1_left by linarith
  qed
  then show ?thesis
    by (simp add: sint_eq_if uint_make_tu left_diff_distrib mult_2 power_add)
qed

text \<open>Shifts of a double word on its halves.\<close>

lemma push_bit_double_hi:
  fixes n :: "'h::len bit0 word"
  assumes "k < LENGTH('h)"
  shows "push_bit (LENGTH('h) + k) n = make_tu (push_bit k (s_low n)) 0"
  by (rule bit_word_eqI) (auto simp: halves_bits bit_simps)

lemma drop_bit_double_hi:
  fixes n :: "'h::len bit0 word"
  shows "drop_bit (LENGTH('h) + k) n = make_tu 0 (drop_bit k (s_high n))"
  by (rule bit_word_eqI) (auto simp: halves_bits bit_simps ac_simps dest: bit_imp_le_length)

lemma push_bit_double_lo:
  fixes n :: "'h::len bit0 word"
  assumes "0 < k" "k < LENGTH('h)"
  shows "push_bit k n = make_tu (push_bit k (s_high n) OR drop_bit (LENGTH('h) - k) (s_low n)) (push_bit k (s_low n))"
  by (rule bit_word_eqI) (use assms in \<open>auto simp: halves_bits bit_simps  ac_simps dest: bit_imp_le_length\<close>)

lemma drop_bit_double_lo:
  fixes n :: "'h::len bit0 word"
  assumes "0 < k" "k < LENGTH('h)"
  shows "drop_bit k n = make_tu (drop_bit k (s_high n)) (push_bit (LENGTH('h) - k) (s_high n) OR drop_bit k (s_low n))"
  by (rule bit_word_eqI) (use assms in \<open>auto simp: halves_bits bit_simps ac_simps dest: bit_imp_le_length\<close>)

lemma make_tu_or: "make_tu a b OR make_tu c d = make_tu (a OR c) (b OR d)"
  by (rule bit_word_eqI) (auto simp: halves_bits bit_simps)

lemma ucast_make_tu: "(ucast c :: 'h::len bit0 word) = make_tu 0 c"
  by (rule bit_word_eqI) (auto simp: halves_bits bit_simps dest: bit_imp_le_length)

lemma double_shift_in:
  fixes r q :: "'h::len bit0 word" and c :: "'h word"
  assumes "1 < LENGTH('h)"
  shows "make_tu (push_bit 1 (s_high r) OR drop_bit (LENGTH('h) - 1) (s_low r)) (push_bit 1 (s_low r) OR c) =
    push_bit 1 r OR ucast c"
  using push_bit_double_lo [of 1 r] assms by (simp only: ucast_make_tu make_tu_or) simp

lemma drop_bit_double_top:
  fixes q :: "'h::len bit0 word"
  shows "drop_bit (LENGTH('h bit0) - 1) q = ucast (drop_bit (LENGTH('h) - 1) (s_high q))"
proof -
  have "LENGTH('h bit0) - 1 = LENGTH('h) + (LENGTH('h) - 1)"
    by simp
  then show ?thesis
    by (simp only: drop_bit_double_hi ucast_make_tu)
qed

text \<open>Sums and differences on the halves.\<close>

lemma make_tu_of_int_nowrap:
  assumes "0 \<le> y" "y < 2 ^ LENGTH('h)"
  shows "make_tu (word_of_int x) (word_of_int y) = (word_of_int (x * 2 ^ LENGTH('h) + y) :: 'h::len bit0 word)"
proof -
  let ?B = "2 ^ LENGTH('h) :: int"
  have "(x * ?B + y) mod (?B * ?B) = x mod ?B * ?B + y"
    using assms by (simp add: zmod_zmult2_eq)
  moreover have "2 ^ LENGTH('h bit0) = ?B * ?B"
    by (simp add: mult_2 power_add)
  ultimately show ?thesis
    using assms by (simp only: word_eq_iff_uint uint_make_tu uint_word_of_int_eq take_bit_eq_mod mod_pos_pos_trivial)
qed

lemma make_tu_uint: "make_tu h l = (word_of_int (uint h * 2 ^ LENGTH('h) + uint l) :: 'h::len bit0 word)"
  using make_tu_of_int_nowrap [OF uint_ge_0 uint_lt_2p, of "uint h" l] by (simp only: word_of_int_uint)

lemma make_tu_diff:
  assumes "b \<le> (l :: 'h::len word)"
  shows "make_tu h l - make_tu a b = make_tu (h - a) (l - b)"
proof -
  have "make_tu (h - a) (l - b) = make_tu (word_of_int (uint h - uint a)) (word_of_int (uint l - uint b))"
    by simp
  also have "\<dots> = word_of_int ((uint h - uint a) * 2 ^ LENGTH('h) + (uint l - uint b))"
    using assms uint_lt_2p [of l] uint_ge_0 [of b] unfolding word_le_def
    by (intro make_tu_of_int_nowrap) linarith+
  also have "\<dots> = make_tu h l - make_tu a b"
    unfolding make_tu_uint of_int_diff [symmetric] by (rule arg_cong [of _ _ word_of_int]) algebra
  finally show ?thesis
    by (rule sym)
qed

lemma make_tu_add:
  assumes "uint l + uint b < 2 ^ LENGTH('h)"
  shows "make_tu h l + make_tu a b = make_tu (h + a) (l + b :: 'h::len word)"
proof -
  have "make_tu (h + a) (l + b) = make_tu (word_of_int (uint h + uint a)) (word_of_int (uint l + uint b))"
    by simp
  also have "\<dots> = word_of_int ((uint h + uint a) * 2 ^ LENGTH('h) + (uint l + uint b))"
    using assms by (intro make_tu_of_int_nowrap) simp_all
  also have "\<dots> = make_tu h l + make_tu a b"
    unfolding make_tu_uint of_int_add [symmetric] by (rule arg_cong [of _ _ word_of_int]) algebra
  finally show ?thesis
    by (rule sym)
qed

lemma make_tu_and: "make_tu a b AND make_tu c d = make_tu (a AND c) (b AND d)"
  by (rule bit_word_eqI) (auto simp: halves_bits bit_simps)

lemma bit_less_exp:
  assumes "uint m < 2 ^ k" "bit (m :: 'a::len word) n"
  shows "n < k"
proof (rule ccontr)
  assume "\<not> n < k"
  then have "(2 :: int) ^ k \<le> 2 ^ n"
    by (intro power_increasing) simp_all
  then have "uint m div 2 ^ n = 0"
    using assms(1) by (intro div_pos_pos_trivial) (simp, linarith)
  moreover have "bit (uint m) n"
    using assms(2) by (simp add: bit_uint_iff bit_imp_le_length)
  ultimately show False
    by (simp add: bit_iff_odd)
qed

end
