(* ===== verification/Int_Shift.thy ===== *)
theory Int_Shift
  imports Int_Types
begin

text \<open>
  The shift routines \<^verbatim>\<open>__ashldi3\<close>, \<^verbatim>\<open>__ashrdi3\<close>,
  \<^verbatim>\<open>__lshrdi3\<close> and their 128-bit counterparts, which shift a double word by
  shifting and recombining its halves.  The 64-bit and the 128-bit source files are the
  same text at two widths; \<open>ashlXi3\<close>, \<open>ashrXi3\<close> and \<open>lshrXi3\<close>
  are that text at any width, and the named routines its instances.  The shift amount
  \<open>b\<close> is the C \<^verbatim>\<open>int\<close> argument, tested and subtracted at its
  width of 32 bits.

  Shown: under the documented precondition \<open>0 \<le> b < bits\<close> every routine is the
  shift of the whole word.
\<close>

definition ashlXi3 :: "'a::len bit0 word \<Rightarrow> u32 \<Rightarrow> 'a bit0 word" where
  "ashlXi3 a b =
    (let bits_in_word = word_of_nat LENGTH('a); low = s_low a; high = s_high a
     in if b AND bits_in_word \<noteq> 0
        then make_tu (push_bit (unat (b - bits_in_word)) low) 0
        else if b = 0 then a
        else make_tu (push_bit (unat b) high OR drop_bit (unat (bits_in_word - b)) low)
                     (push_bit (unat b) low))"

definition ashrXi3 :: "'a::len bit0 word \<Rightarrow> u32 \<Rightarrow> 'a bit0 word" where
  "ashrXi3 a b =
    (let bits_in_word = word_of_nat LENGTH('a); low = s_low a; high = s_high a
     in if b AND bits_in_word \<noteq> 0
        then make_tu (signed_drop_bit (unat (bits_in_word - 1)) high)
                     (signed_drop_bit (unat (b - bits_in_word)) high)
        else if b = 0 then a
        else make_tu (signed_drop_bit (unat b) high)
                     (push_bit (unat (bits_in_word - b)) high OR drop_bit (unat b) low))"

definition lshrXi3 :: "'a::len bit0 word \<Rightarrow> u32 \<Rightarrow> 'a bit0 word" where
  "lshrXi3 a b =
    (let bits_in_word = word_of_nat LENGTH('a); low = s_low a; high = s_high a
     in if b AND bits_in_word \<noteq> 0
        then make_tu 0 (drop_bit (unat (b - bits_in_word)) high)
        else if b = 0 then a
        else make_tu (drop_bit (unat b) high)
                     (push_bit (unat (bits_in_word - b)) high OR drop_bit (unat b) low))"

definition ashldi3 :: "u64 \<Rightarrow> u32 \<Rightarrow> u64" where "ashldi3 = ashlXi3"
definition ashlti3 :: "u128 \<Rightarrow> u32 \<Rightarrow> u128" where "ashlti3 = ashlXi3"
definition ashrdi3 :: "u64 \<Rightarrow> u32 \<Rightarrow> u64" where "ashrdi3 = ashrXi3"
definition ashrti3 :: "u128 \<Rightarrow> u32 \<Rightarrow> u128" where "ashrti3 = ashrXi3"
definition lshrdi3 :: "u64 \<Rightarrow> u32 \<Rightarrow> u64" where "lshrdi3 = lshrXi3"
definition lshrti3 :: "u128 \<Rightarrow> u32 \<Rightarrow> u128" where "lshrti3 = lshrXi3"

section \<open>The test of the shift amount\<close>

text \<open>
  A word size is a power of two, so below twice the word size the bit test
  \<^verbatim>\<open>b & bits_in_word\<close> is the comparison of the source's comments.
\<close>

lemma and_exp_eq_0_iff:
  assumes "unat (b :: 'b::len word) < 2 * 2 ^ k" and "k < LENGTH('b)"
  shows "b AND 2 ^ k = 0 \<longleftrightarrow> unat b < 2 ^ k"
proof -
  have "b AND 2 ^ k = 0 \<longleftrightarrow> \<not> bit b k"
    by (rule and_exp_eq_0_iff_not_bit)
  also have "\<dots> \<longleftrightarrow> even (unat b div 2 ^ k)"
    by (simp add: bit_unat [symmetric] bit_iff_odd)
  also have "\<dots> \<longleftrightarrow> unat b < 2 ^ k"
  proof -
    have "unat b div 2 ^ k < 2"
      using assms(1) by (simp add: div_less_iff_less_mult)
    then have "even (unat b div 2 ^ k) \<longleftrightarrow> unat b div 2 ^ k = 0"
      by (auto simp: less_2_cases_iff)
    also have "\<dots> \<longleftrightarrow> unat b < 2 ^ k" by (simp add: div_eq_0_iff)
    finally show ?thesis .
  qed
  finally show ?thesis .
qed

text \<open>What the routines compute, with the amount as a natural number.\<close>

lemma shift_amount:
  assumes "LENGTH('a::len) = 2 ^ k" and "k < 31" and "unat (b :: u32) < 2 * LENGTH('a)"
  shows "b AND word_of_nat LENGTH('a) \<noteq> 0 \<longleftrightarrow> LENGTH('a) \<le> unat b"
    and "LENGTH('a) \<le> unat b \<Longrightarrow> unat (b - word_of_nat LENGTH('a)) = unat b - LENGTH('a)"
    and "unat b < LENGTH('a) \<Longrightarrow> unat (word_of_nat LENGTH('a) - b) = LENGTH('a) - unat b"
    and "unat (word_of_nat LENGTH('a) - (1 :: u32)) = LENGTH('a) - 1"
proof -
  have un: "unat (word_of_nat LENGTH('a) :: u32) = LENGTH('a)"
    using assms(2) by (simp add: assms(1) unat_2p)
  show "b AND word_of_nat LENGTH('a) \<noteq> 0 \<longleftrightarrow> LENGTH('a) \<le> unat b"
    using and_exp_eq_0_iff [of b k] assms by (auto simp: not_less)
  show "unat (b - word_of_nat LENGTH('a)) = unat b - LENGTH('a)" if "LENGTH('a) \<le> unat b"
    using that un by (metis unat_sub word_le_nat_alt)
  show "unat (word_of_nat LENGTH('a) - b) = LENGTH('a) - unat b" if "unat b < LENGTH('a)"
    using that un by (metis less_imp_le_nat unat_sub word_le_nat_alt)
  show "unat (word_of_nat LENGTH('a) - (1 :: u32)) = LENGTH('a) - 1"
    using un by (metis len_gt_0 less_eq_Suc_le One_nat_def unat_1 unat_sub word_le_nat_alt)
qed

section \<open>The shifts of the halves are the shift of the whole\<close>

lemma ashlXi3_correct:
  assumes "LENGTH('a::len) = 2 ^ k" and "k < 31" and "unat b < 2 * LENGTH('a)"
  shows "ashlXi3 (a :: 'a bit0 word) b = push_bit (unat b) a"
proof (cases "LENGTH('a) \<le> unat b")
  case True
  then show ?thesis
    using assms(3)
    by (intro bit_word_eqI)
       (auto simp: ashlXi3_def Let_def shift_amount [OF assms] halves_bits bit_simps)
next
  case False
  then show ?thesis
    by (intro bit_word_eqI)
       (auto simp: ashlXi3_def Let_def shift_amount [OF assms] halves_bits bit_simps)
qed

lemma lshrXi3_correct:
  assumes "LENGTH('a::len) = 2 ^ k" and "k < 31" and "unat b < 2 * LENGTH('a)"
  shows "lshrXi3 (a :: 'a bit0 word) b = drop_bit (unat b) a"
proof (cases "LENGTH('a) \<le> unat b")
  case True
  then show ?thesis
    using assms(3)
    by (intro bit_word_eqI)
       (auto simp: lshrXi3_def Let_def shift_amount [OF assms] halves_bits bit_simps mult_2 add.commute
         dest: bit_imp_le_length)
next
  case False
  then show ?thesis
    by (intro bit_word_eqI)
       (auto simp: lshrXi3_def Let_def shift_amount [OF assms] halves_bits bit_simps mult_2 add.commute
         dest: bit_imp_le_length)
qed

lemma ashrXi3_correct:
  assumes "LENGTH('a::len) = 2 ^ k" and "k < 31" and "unat b < 2 * LENGTH('a)"
  shows "ashrXi3 (a :: 'a bit0 word) b = signed_drop_bit (unat b) a"
proof (cases "LENGTH('a) \<le> unat b")
  case True
  then show ?thesis
    using assms(3)
    by (intro bit_word_eqI)
       (auto simp: ashrXi3_def Let_def shift_amount [OF assms] signed_drop_bit_sign halves_bits bit_simps mult_2 add.commute
         dest: bit_imp_le_length)
next
  case False
  then show ?thesis
    by (intro bit_word_eqI)
       (auto simp: ashrXi3_def Let_def shift_amount [OF assms] signed_drop_bit_sign halves_bits bit_simps mult_2 add.commute
         dest: bit_imp_le_length)
qed

section \<open>Properties\<close>

text \<open>C8: for every amount below the width, the six double-word shifts on halves are the left, the
  logical right and the arithmetic right shift of the whole word.\<close>

theorem shift_correct:
  fixes a :: u64 and c :: u128
  assumes "unat b < 64" "unat d < 128"
  shows "ashldi3 a b = push_bit (unat b) a \<and> lshrdi3 a b = drop_bit (unat b) a \<and>
    ashrdi3 a b = signed_drop_bit (unat b) a \<and> ashlti3 c d = push_bit (unat d) c \<and>
    lshrti3 c d = drop_bit (unat d) c \<and> ashrti3 c d = signed_drop_bit (unat d) c"
proof -
  have "LENGTH(32) = 2 ^ 5" "LENGTH(64) = 2 ^ 6"
    by simp_all
  then show ?thesis
    unfolding ashldi3_def ashlti3_def ashrdi3_def ashrti3_def lshrdi3_def lshrti3_def
    using assms by (simp add: ashlXi3_correct [where k = 5] lshrXi3_correct [where k = 5] ashrXi3_correct [where k = 5]
      ashlXi3_correct [where k = 6] lshrXi3_correct [where k = 6] ashrXi3_correct [where k = 6])
qed

theorem shift_correct_witness:
  "ashldi3 3 33 = 25769803776 \<and> lshrdi3 25769803776 33 = 3 \<and> ashrti3 (- 8) 2 = signed_drop_bit 2 (- 8)"
  using shift_correct [of 33 2 3 "- 8"] shift_correct [of 33 2 25769803776 "- 8"]
  by (simp add: drop_bit_eq_div push_bit_eq_mult)

end
