(* ===== verification/Int_Mul.thy ===== *)
theory Int_Mul
  imports Int_Types
begin

text \<open>
  Multiplication on halves: \<^verbatim>\<open>__muldsi3\<close> and \<^verbatim>\<open>__muldi3\<close>
  (\<^verbatim>\<open>muldi3.c\<close>) and their 128-bit counterparts \<^verbatim>\<open>__mulddi3\<close>
  and \<^verbatim>\<open>__multi3\<close> (\<^verbatim>\<open>multi3.c\<close>), which are the same text at
  two widths.  \<open>mulXdsi3\<close> is the schoolbook product of two words in four half-word
  products (\<open>'h\<close> is the half-word type, so \<open>LENGTH('h)\<close> is
  \<^verbatim>\<open>bits_in_word_2\<close>); \<open>mulXi3\<close> multiplies two double words with it.

  Shown: \<open>mulXdsi3\<close> is the full product and no intermediate sum loses a carry;
  \<open>mulXi3\<close> is the product modulo the width, for the signed and the unsigned
  reading alike.
\<close>

definition mulXdsi3 :: "'h::len bit0 word \<Rightarrow> 'h bit0 word \<Rightarrow> 'h bit0 bit0 word" where
  "mulXdsi3 a b =
    (let bits_in_word_2 = LENGTH('h);
         lower_mask = drop_bit bits_in_word_2 (NOT 0);
         low = (a AND lower_mask) * (b AND lower_mask);
         t = drop_bit bits_in_word_2 low;
         low = low AND lower_mask;
         t = t + drop_bit bits_in_word_2 a * (b AND lower_mask);
         low = low + push_bit bits_in_word_2 (t AND lower_mask);
         high = drop_bit bits_in_word_2 t;
         t = drop_bit bits_in_word_2 low;
         low = low AND lower_mask;
         t = t + drop_bit bits_in_word_2 b * (a AND lower_mask);
         low = low + push_bit bits_in_word_2 (t AND lower_mask);
         high = high + drop_bit bits_in_word_2 t;
         high = high + drop_bit bits_in_word_2 a * drop_bit bits_in_word_2 b
     in make_tu high low)"

definition mulXi3 :: "'h::len bit0 bit0 word \<Rightarrow> 'h bit0 bit0 word \<Rightarrow> 'h bit0 bit0 word" where
  "mulXi3 x y =
    (let r = mulXdsi3 (s_low x) (s_low y)
     in make_tu (s_high r + (s_high x * s_low y + s_low x * s_high y)) (s_low r))"

definition muldsi3 :: "u32 \<Rightarrow> u32 \<Rightarrow> u64" where "muldsi3 = mulXdsi3"
definition muldi3 :: "u64 \<Rightarrow> u64 \<Rightarrow> u64" where "muldi3 = mulXi3"
definition mulddi3 :: "u64 \<Rightarrow> u64 \<Rightarrow> u128" where "mulddi3 = mulXdsi3"
definition multi3 :: "u128 \<Rightarrow> u128 \<Rightarrow> u128" where "multi3 = mulXi3"

section \<open>The four partial products\<close>

lemma lower_mask_eq: "drop_bit LENGTH('h) (NOT 0 :: 'h::len bit0 word) = mask LENGTH('h)"
  by (intro bit_word_eqI) (auto simp: bit_simps)

lemma uint_lower_mask:
  "uint (x AND mask n :: 'a::len word) = uint x mod 2 ^ n"
  by (simp add: take_bit_eq_mask [symmetric] unsigned_take_bit_eq) (simp add: take_bit_eq_mod)

text \<open>A product of two half words plus two half words fits in a word.\<close>

lemma half_products_fit:
  fixes B :: int
  assumes "0 \<le> x" "x < B" "0 \<le> y" "y < B" "0 \<le> p" "p < B"
  shows "p + x * y < B * B"
proof -
  have "x * y \<le> (B - 1) * (B - 1)"
    using assms by (intro mult_mono) simp_all
  then have "p + x * y \<le> (B - 1) + (B - 1) * (B - 1)"
    using assms by linarith
  also have "\<dots> = B * B - B"
    by (simp add: algebra_simps)
  finally show ?thesis
    using assms by linarith
qed

lemma uint_low_plus_shifted:
  fixes x t :: "'h::len bit0 word"
  shows "uint ((x AND mask LENGTH('h)) + push_bit LENGTH('h) (t AND mask LENGTH('h))) =
    uint x mod 2 ^ LENGTH('h) + uint t mod 2 ^ LENGTH('h) * 2 ^ LENGTH('h)"
proof -
  let ?B = "2 ^ LENGTH('h) :: int"
  have "uint x mod ?B + uint t mod ?B * ?B \<le> (?B - 1) + (?B - 1) * ?B"
    by (intro add_mono mult_right_mono) (simp_all add: int_one_le_iff_zero_less)
  then have "uint x mod ?B + uint t mod ?B * ?B < ?B * ?B"
    by (simp add: algebra_simps)
  moreover have "uint t mod ?B * ?B < ?B * ?B"
    by (intro mult_strict_right_mono) simp_all
  ultimately show ?thesis
    by (simp add: uint_word_ariths uint_push_bit_mod uint_lower_mask power_add mult_2
        del: push_bit_and)
qed

lemma uint_mulXdsi3:
  fixes a b :: "'h::len bit0 word"
  shows "uint (mulXdsi3 a b) = uint a * uint b"
proof -
  define B :: int where "B = 2 ^ LENGTH('h)"
  define a0 a1 b0 b1 where "a0 = uint a mod B" and "a1 = uint a div B"
    and "b0 = uint b mod B" and "b1 = uint b div B"
  define m :: "'h bit0 word" where "m = mask LENGTH('h)"
  define P where "P = (a AND m) * (b AND m)"
  define T1 where "T1 = drop_bit LENGTH('h) P + drop_bit LENGTH('h) a * (b AND m)"
  define L1 where "L1 = (P AND m) + push_bit LENGTH('h) (T1 AND m)"
  define T2 where "T2 = drop_bit LENGTH('h) L1 + drop_bit LENGTH('h) b * (a AND m)"
  define L2 where "L2 = (L1 AND m) + push_bit LENGTH('h) (T2 AND m)"
  define S where "S = uint T1 div B + uint T2 div B + a1 * b1"
  have BB: "2 ^ LENGTH('h bit0) = B * B"
    by (simp add: B_def mult_2 power_add)
  have eq: "mulXdsi3 a b = make_tu (word_of_int S) L2"
    by (simp add: mulXdsi3_def Let_def lower_mask_eq S_def L2_def T2_def L1_def T1_def P_def
        m_def a1_def b1_def B_def wi_hom_syms flip: uint_drop_bit_div)
  have B: "0 < B" by (simp add: B_def)
  have hi: "0 \<le> uint x div B" "uint x div B < B" for x :: "'h bit0 word"
    using uint_lt_2p [of x] B BB
    by (auto intro: int_div_less_pos simp: pos_imp_zdiv_nonneg_iff)
  have half: "0 \<le> a0" "a0 < B" "0 \<le> a1" "a1 < B" "0 \<le> b0" "b0 < B" "0 \<le> b1" "b1 < B"
    using B hi by (simp_all add: a0_def a1_def b0_def b1_def)
  have P: "uint P = a0 * b0"
    unfolding P_def m_def using half_products_fit [of a0 B b0 0] half B
    by (simp add: uint_mult_nowrap uint_lower_mask a0_def b0_def B_def power_add mult_2)
  have sum: "uint (drop_bit LENGTH('h) x + drop_bit LENGTH('h) y * (z AND m)) =
      uint x div B + uint y div B * (uint z mod B)" for x y z
  proof -
    have "uint x div B + uint y div B * (uint z mod B) < B * B"
      using hi [of x] hi [of y] B by (intro half_products_fit) simp_all
    moreover have "uint y div B * (uint z mod B) < B * B"
      using half_products_fit [of "uint y div B" B "uint z mod B" 0] hi [of y] B by simp
    ultimately show ?thesis
      using hi [of x] hi [of y] B unfolding m_def B_def
      by (simp add: uint_word_ariths uint_drop_bit_div uint_lower_mask power_add mult_2)
  qed
  have T1: "uint T1 = a0 * b0 div B + a1 * b0"
    by (simp add: T1_def sum P a1_def b0_def)
  have L1: "uint L1 = a0 * b0 mod B + uint T1 mod B * B"
    using uint_low_plus_shifted [of P T1] by (simp add: L1_def m_def P B_def)
  have T2: "uint T2 = uint T1 mod B + b1 * a0"
    using B by (simp add: T2_def sum L1 b1_def a0_def)
  have L2: "uint L2 = a0 * b0 mod B + uint T2 mod B * B"
    using uint_low_plus_shifted [of L1 T2] B by (simp add: L2_def m_def L1 flip: B_def)
  have S: "S * (B * B) + uint L2 = uint a * uint b"
  proof -
    have "a0 * b0 = a0 * b0 div B * B + a0 * b0 mod B"
      and "uint T1 div B * B + uint T1 mod B = a0 * b0 div B + a1 * b0"
      and "uint T2 div B * B + uint T2 mod B = uint T1 mod B + b1 * a0"
      and "uint a = a1 * B + a0" and "uint b = b1 * B + b0"
      by (simp_all add: T1 T2 a0_def a1_def b0_def b1_def)
    then show ?thesis
      unfolding S_def L2 by algebra
  qed
  then have "S * (B * B) \<le> uint a * uint b"
    using uint_ge_0 [of L2] by linarith
  also have "\<dots> < (B * B) * (B * B)"
    using uint_lt_2p [of a] uint_lt_2p [of b] unfolding BB
    by (intro mult_strict_mono') simp_all
  finally have "S < B * B" using B by simp
  moreover have "0 \<le> S"
    unfolding S_def using half hi by simp
  ultimately have "uint (word_of_int S :: 'h bit0 word) = S"
    using BB by (simp add: uint_word_of_int)
  then show ?thesis
    using S BB by (simp add: eq uint_make_tu)
qed

section \<open>The product of double words\<close>

lemma word_of_int_plus_period:
  "word_of_int (k + 2 ^ LENGTH('a) * j) = (word_of_int k :: 'a::len word)"
  by (simp only: word_of_int_eq_iff take_bit_eq_mod mod_mult_self2)

lemma make_tu_of_int:
  "make_tu (word_of_int H) (l :: 'a::len word) = word_of_int (H * 2 ^ LENGTH('a) + uint l)"
proof -
  define M :: int where "M = 2 ^ LENGTH('a)"
  have M: "0 < M" "2 ^ LENGTH('a bit0) = M * M"
    by (simp_all add: M_def mult_2 power_add)
  have bound: "0 \<le> H mod M * M + uint l" "H mod M * M + uint l < M * M"
    using uint_lt_2p [of "make_tu (word_of_int H) l"] M
    by (simp_all add: uint_make_tu uint_word_of_int M_def)
  have "H * M = (H div M * M + H mod M) * M"
    by simp
  then have "H * M + uint l = H mod M * M + uint l + M * M * (H div M)"
    unfolding distrib_right by (simp only: ac_simps)
  then have "(H * M + uint l) mod (M * M) = (H mod M * M + uint l) mod (M * M)"
    by (metis mod_mult_self2)
  also have "\<dots> = H mod M * M + uint l"
    using bound by simp
  finally show ?thesis
    unfolding word_eq_iff_uint uint_make_tu uint_word_of_int take_bit_eq_mod M(2) M_def [symmetric]
    by simp
qed

lemma mulXi3_correct: "mulXi3 x (y :: 'h::len bit0 bit0 word) = x * y"
proof -
  define M :: int where "M = 2 ^ LENGTH('h bit0)"
  define r where "r = mulXdsi3 (s_low x) (s_low y)"
  define c where "c = uint (s_high x) * uint (s_low y) + uint (s_low x) * uint (s_high y)"
  have "s_high r + (s_high x * s_low y + s_low x * s_high y) =
      word_of_int (uint (s_high r) + c)"
    by (simp add: c_def flip: wi_hom_syms)
  then have "mulXi3 x y = word_of_int ((uint (s_high r) + c) * M + uint (s_low r))"
    by (simp only: mulXi3_def Let_def make_tu_of_int M_def r_def [symmetric])
  also have "(uint (s_high r) + c) * M + uint (s_low r) = uint r + c * M"
    using uint_halves [of r] by (simp add: M_def algebra_simps)
  also have "uint r = uint (s_low x) * uint (s_low y)"
    by (simp add: r_def uint_mulXdsi3)
  also have "word_of_int (uint (s_low x) * uint (s_low y) + c * M) =
      (word_of_int (uint x * uint y) :: 'h bit0 bit0 word)"
  proof -
    have "uint x = uint (s_high x) * M + uint (s_low x)"
      and "uint y = uint (s_high y) * M + uint (s_low y)"
      unfolding M_def by (rule uint_halves)+
    then have prod: "uint x * uint y =
        uint (s_low x) * uint (s_low y) + c * M + M * M * (uint (s_high x) * uint (s_high y))"
      unfolding c_def by algebra
    have "M * M = 2 ^ LENGTH('h bit0 bit0)"
      by (simp add: M_def flip: power_add)
    then show ?thesis
      unfolding prod by (metis word_of_int_plus_period)
  qed
  finally show ?thesis
    by simp
qed

text \<open>C6: The double-word products built from half-word products are exact:
  \<^verbatim>\<open>__muldsi3\<close>/\<^verbatim>\<open>__mulddi3\<close> return the full product of their
  arguments without loss, and \<^verbatim>\<open>__muldi3\<close>/\<^verbatim>\<open>__multi3\<close> return
  the product modulo \<open>2\<^sup>6\<^sup>4\<close> and \<open>2\<^sup>1\<^sup>2\<^sup>8\<close>.
\<close>

theorem mul_correct:
  "uint (muldsi3 a b) = uint a * uint b \<and> uint (mulddi3 c d) = uint c * uint d \<and>
   muldi3 c d = c * d \<and> multi3 e f = e * f"
  unfolding muldsi3_def mulddi3_def muldi3_def multi3_def
  by (intro conjI uint_mulXdsi3 mulXi3_correct)

end
