(* ===== verification/Int_Count.thy ===== *)
theory Int_Count
  imports Int_Types
begin

text \<open>
  Bit counting: \<^verbatim>\<open>__clz[sdt]i2\<close>, \<^verbatim>\<open>__ctz[sdt]i2\<close>,
  \<^verbatim>\<open>__ffs[sdt]i2\<close>.

  \<open>builtin_clz\<close> and \<open>builtin_ctz\<close> are the compiler builtins the sources call
  (\<^verbatim>\<open>clzsi\<close>, \<^verbatim>\<open>ctzsi\<close>, \<^verbatim>\<open>__builtin_clzll\<close>, ...): the
  number of zero bits above the most and below the least significant one bit.  The C
  builtins leave the argument 0 undefined; every use below is for a non-zero word.

  Shown: the branch-free routines compute these counts, and the double-word routines
  reduce to the half that holds the first one bit.
\<close>

section \<open>The counts\<close>

definition builtin_clz :: "'a::len word \<Rightarrow> nat" where
  "builtin_clz w = length (takeWhile (\<lambda>i. \<not> bit w i) (rev [0..<LENGTH('a)]))"

definition builtin_ctz :: "'a::len word \<Rightarrow> nat" where
  "builtin_ctz w = length (takeWhile (\<lambda>i. \<not> bit w i) [0..<LENGTH('a)])"

text \<open>A truth value as C's \<open>0\<close> or \<open>1\<close>.\<close>

definition c_bool :: "bool \<Rightarrow> 'a::len word" where
  "c_bool b = (if b then 1 else 0)"

lemma c_bool_simps [simp]: "c_bool True = 1" "c_bool False = 0"
  by (simp_all add: c_bool_def)

lemma length_takeWhile_unique:
  assumes "i < length xs" and "\<not> P (xs ! i)" and "\<And>j. j < i \<Longrightarrow> P (xs ! j)"
  shows "length (takeWhile P xs) = i"
proof -
  have all: "\<And>x. x \<in> set (take i xs) \<Longrightarrow> P x"
    using assms(1,3) by (auto simp: in_set_conv_nth)
  have "takeWhile P xs = takeWhile P (take i xs @ xs ! i # drop (Suc i) xs)"
    by (simp add: id_take_nth_drop [OF assms(1), symmetric])
  also have "\<dots> = take i xs"
    using all assms(2) by (subst takeWhile_append2) auto
  finally show ?thesis
    using assms(1) by simp
qed

lemma bit_unat_odd: "bit w i \<longleftrightarrow> odd (unat w div 2 ^ i)"
  by (simp add: bit_unat [symmetric] bit_iff_odd)

lemma exp_le_unat: "2 ^ n \<le> unat (w :: 'a::len word) \<Longrightarrow> n < LENGTH('a)"
  using le_less_trans [OF _ unat_lt_2p, of "2 ^ n" w] by simp

lemma builtin_clz_unique:
  assumes "2 ^ n \<le> unat (w :: 'a::len word)" and "unat w < 2 ^ Suc n"
  shows "builtin_clz w = LENGTH('a) - Suc n"
proof -
  have n: "n < LENGTH('a)"
    using assms(1) by (rule exp_le_unat)
  have "unat w div 2 ^ n = 1"
    using assms by (intro div_nat_eqI) simp_all
  then have "bit w n" by (simp add: bit_unat_odd)
  moreover have "\<not> bit w j" if "n < j" for j
  proof -
    have "unat w < 2 ^ j"
      using assms(2) power_increasing [of "Suc n" j "2 :: nat"] that by simp
    then show ?thesis by (simp add: bit_unat_odd)
  qed
  ultimately show ?thesis
    unfolding builtin_clz_def using n
    by (intro length_takeWhile_unique) (auto simp: rev_nth)
qed

lemma builtin_ctz_unique:
  assumes "unat (w :: 'a::len word) = 2 ^ n * m" and "odd m"
  shows "builtin_ctz w = n"
proof -
  have "bit w n" using assms by (simp add: bit_unat_odd)
  moreover have "\<not> bit w j" if lt: "j < n" for j
  proof -
    obtain k where "n = j + Suc k"
      using less_imp_Suc_add [OF lt] by auto
    then show ?thesis
      using assms by (simp add: bit_unat_odd power_add mult.assoc)
  qed
  moreover have "n < LENGTH('a)"
    using \<open>bit w n\<close> by (rule bit_imp_le_length)
  ultimately show ?thesis
    unfolding builtin_ctz_def by (intro length_takeWhile_unique) auto
qed

lemma builtin_clz_bounds:
  assumes "w \<noteq> (0 :: 'a::len word)"
  shows "builtin_clz w < LENGTH('a)"
    and "2 ^ (LENGTH('a) - Suc (builtin_clz w)) \<le> unat w"
    and "unat w < 2 ^ (LENGTH('a) - builtin_clz w)"
proof -
  obtain n where "2 ^ n \<le> unat w" "unat w < 2 ^ Suc n"
    using assms ex_power_ivl1 [of 2 "unat w"] by (auto simp: unat_gt_0 Suc_le_eq)
  moreover from this have "builtin_clz w = LENGTH('a) - Suc n"
    by (rule builtin_clz_unique)
  moreover have "n < LENGTH('a)"
    using \<open>2 ^ n \<le> unat w\<close> by (rule exp_le_unat)
  ultimately show "builtin_clz w < LENGTH('a)" "2 ^ (LENGTH('a) - Suc (builtin_clz w)) \<le> unat w"
    "unat w < 2 ^ (LENGTH('a) - builtin_clz w)"
    by (simp_all add: Suc_diff_Suc)
qed

lemma nat_odd_part: "0 < (x :: nat) \<Longrightarrow> \<exists>n m. x = 2 ^ n * m \<and> odd m"
proof (induction x rule: less_induct)
  case (less x)
  show ?case
  proof (cases "even x")
    case True
    then obtain y where y: "x = 2 * y" ..
    with less.prems less.IH [of y] obtain n m where "y = 2 ^ n * m" "odd m" by auto
    then have "x = 2 ^ Suc n * m \<and> odd m" by (simp add: y)
    then show ?thesis by blast
  next
    case False
    then have "x = 2 ^ 0 * x \<and> odd x" by simp
    then show ?thesis by blast
  qed
qed

lemma builtin_ctz_decomp:
  assumes "w \<noteq> (0 :: 'a::len word)"
  obtains m where "unat w = 2 ^ builtin_ctz w * m" and "odd m" and "builtin_ctz w < LENGTH('a)"
proof -
  obtain n m where w: "unat w = 2 ^ n * m" "odd m"
    using nat_odd_part [of "unat w"] assms by (auto simp: unat_gt_0)
  then have "2 ^ n \<le> unat w" by (cases m) auto
  then have "n < LENGTH('a)" by (rule exp_le_unat)
  with w show thesis
    using that builtin_ctz_unique [OF w] by blast
qed

lemma unat_make_tu: "unat (make_tu h l :: 'a::len bit0 word) = unat h * 2 ^ LENGTH('a) + unat l"
proof -
  have "int (unat (make_tu h l)) = int (unat h * 2 ^ LENGTH('a) + unat l)"
    by (simp add: uint_make_tu)
  then show ?thesis by (simp only: of_nat_eq_iff)
qed

lemma builtin_clz_make_tu:
  assumes "h \<noteq> 0 \<or> l \<noteq> 0"
  shows "builtin_clz (make_tu h l :: 'a::len bit0 word) =
     (if h = 0 then LENGTH('a) + builtin_clz l else builtin_clz h)"
proof (cases "h = 0")
  case True
  with assms have "l \<noteq> 0" by simp
  note b = builtin_clz_bounds [OF this]
  have "builtin_clz (make_tu h l) = LENGTH('a bit0) - Suc (LENGTH('a) - Suc (builtin_clz l))"
    using b True by (intro builtin_clz_unique) (simp_all add: unat_make_tu Suc_diff_Suc)
  then show ?thesis using b(1) True by simp
next
  case False
  let ?n = "LENGTH('a) - Suc (builtin_clz h)"
  note b = builtin_clz_bounds [OF False]
  have up: "unat h < 2 ^ Suc ?n"
    using b by (simp add: Suc_diff_Suc)
  have "2 ^ (?n + LENGTH('a)) \<le> unat (make_tu h l)"
    using b(2) by (simp add: unat_make_tu power_add trans_le_add1)
  moreover have "unat (make_tu h l) < 2 ^ Suc (?n + LENGTH('a))"
  proof -
    have "unat (make_tu h l) < Suc (unat h) * 2 ^ LENGTH('a)"
      using unat_lt_2p [of l] by (simp add: unat_make_tu)
    also have "\<dots> \<le> 2 ^ Suc ?n * 2 ^ LENGTH('a)"
      using up by (intro mult_right_mono) simp_all
    finally show ?thesis by (simp add: power_add)
  qed
  ultimately have "builtin_clz (make_tu h l) = LENGTH('a bit0) - Suc (?n + LENGTH('a))"
    by (rule builtin_clz_unique)
  then show ?thesis using b(1) False by simp
qed

lemma builtin_ctz_make_tu:
  assumes "h \<noteq> 0 \<or> l \<noteq> 0"
  shows "builtin_ctz (make_tu h l :: 'a::len bit0 word) =
     (if l = 0 then LENGTH('a) + builtin_ctz h else builtin_ctz l)"
proof (cases "l = 0")
  case True
  with assms have "h \<noteq> 0" by simp
  then obtain m where "unat h = 2 ^ builtin_ctz h * m" "odd m"
    by (rule builtin_ctz_decomp)
  then have "builtin_ctz (make_tu h l) = LENGTH('a) + builtin_ctz h"
    using True by (intro builtin_ctz_unique [where m = m]) (simp_all add: unat_make_tu power_add)
  then show ?thesis using True by simp
next
  case False
  then obtain m where m: "unat l = 2 ^ builtin_ctz l * m" "odd m" "builtin_ctz l < LENGTH('a)"
    by (rule builtin_ctz_decomp)
  obtain k where k: "LENGTH('a) = builtin_ctz l + Suc k"
    using less_imp_Suc_add [OF m(3)] by auto
  have "builtin_ctz (make_tu h l) = builtin_ctz l"
    using m k
    by (intro builtin_ctz_unique [where m = "unat h * 2 ^ Suc k + m"])
       (simp_all add: unat_make_tu power_add distrib_left)
  then show ?thesis using False by simp
qed

section \<open>Leading zeros\<close>

definition clzsi2 :: "u32 \<Rightarrow> u32" where
  "clzsi2 a =
    (let x = a;
         t = push_bit 4 (c_bool (x AND 0xFFFF0000 = 0));
         x = drop_bit (unat (16 - t :: u32)) x;
         r = t;
         t = push_bit 3 (c_bool (x AND 0xFF00 = 0));
         x = drop_bit (unat (8 - t :: u32)) x;
         r = r + t;
         t = push_bit 2 (c_bool (x AND 0xF0 = 0));
         x = drop_bit (unat (4 - t :: u32)) x;
         r = r + t;
         t = push_bit 1 (c_bool (x AND 0xC = 0));
         x = drop_bit (unat (2 - t :: u32)) x;
         r = r + t
     in r + ((2 - x) AND - c_bool (x AND 2 = 0)))"

text \<open>
  One halving step: \<open>x\<close> holds the top \<open>w\<close> bits of \<open>a\<close> below its first
  \<open>r\<close> bits, which are zero.
\<close>

definition clz_inv :: "u32 \<Rightarrow> nat \<Rightarrow> u32 \<Rightarrow> nat \<Rightarrow> bool" where
  "clz_inv a w x r \<longleftrightarrow> r + w \<le> 32 \<and> 0 < unat x \<and> unat x < 2 ^ w \<and>
     unat x = unat a div 2 ^ (32 - w - r)"

lemma word_eq_0_iff_bits: "w = 0 \<longleftrightarrow> (\<forall>i. \<not> bit (w :: 'a::len word) i)"
  by (auto intro: bit_word_eqI)
lemma unat_less_exp_iff: "unat x < 2 ^ h \<longleftrightarrow> (\<forall>i. h \<le> i \<longrightarrow> \<not> bit x i)"
proof
  assume lt: "unat x < 2 ^ h"
  show "\<forall>i. h \<le> i \<longrightarrow> \<not> bit x i"
  proof (intro allI impI)
    fix i assume "h \<le> i"
    then have "unat x < 2 ^ i"
      using lt power_increasing [of h i "2 :: nat"] by linarith
    then show "\<not> bit x i" by (simp add: bit_unat_odd)
  qed
next
  assume "\<forall>i. h \<le> i \<longrightarrow> \<not> bit x i"
  then have "take_bit h x = x"
    by (intro bit_word_eqI) (auto simp: bit_take_bit_iff not_le [symmetric])
  then have "unat x = take_bit h (unat x)"
    by (metis unsigned_take_bit_eq)
  then show "unat x < 2 ^ h"
    by (metis take_bit_nat_less_exp)
qed

lemma high_half_test:
  fixes x :: "'a::len word"
  assumes "unat x < 2 ^ (h + h)"
  shows "x AND push_bit h (mask h) = 0 \<longleftrightarrow> unat x < 2 ^ h"
proof -
  have "bit (x AND push_bit h (mask h)) i \<longleftrightarrow> h \<le> i \<and> i < h + h \<and> bit x i" for i
    by (auto simp: bit_simps dest: bit_imp_le_length)
  then show ?thesis
    using assms unfolding unat_less_exp_iff word_eq_0_iff_bits by (metis not_le)
qed

lemma clz_step:
  assumes "clz_inv a (h + h) x r" and "t = (if unat x < 2 ^ h then h else 0)"
  shows "clz_inv a h (drop_bit (h - t) x) (r + t)"
proof (cases "unat x < 2 ^ h")
  case True
  then show ?thesis
    using assms by (auto simp: clz_inv_def ac_simps)
next
  case False
  define k where "k = 32 - (h + h) - r"
  have r: "r + (h + h) \<le> 32" and x: "unat x < 2 ^ h * 2 ^ h" and a: "unat x = unat a div 2 ^ k"
    using assms(1) by (simp_all add: clz_inv_def k_def power_add)
  have "unat x div 2 ^ h < 2 ^ h"
    using x by (rule less_mult_imp_div_less)
  moreover have "0 < unat x div 2 ^ h"
    using False by (simp add: div_greater_zero_iff)
  moreover have "unat x div 2 ^ h = unat a div 2 ^ (k + h)"
    unfolding a power_add div_mult2_eq ..
  moreover have "k + h = 32 - h - r"
    using r by (simp add: k_def)
  ultimately show ?thesis
    using False r assms(2) by (simp add: clz_inv_def unat_drop_bit_div)
qed

lemma clz_inv_final:
  assumes "clz_inv a 2 x r"
  shows "builtin_clz a = r + (if unat x = 1 then 1 else 0)"
proof -
  define e where "e = 30 - r"
  have "0 < unat x" "unat x < 4" and x1: "unat x = unat a div 2 ^ e" and r: "r \<le> 30"
    using assms by (simp_all add: clz_inv_def e_def)
  then have x2: "unat x = 1 \<or> unat x = 2 \<or> unat x = 3"
    by linarith
  have "unat a = unat x * 2 ^ e + unat a mod 2 ^ e" "unat a mod 2 ^ e < 2 ^ e"
    by (simp_all add: x1 div_mult_mod_eq)
  then have a: "unat x * 2 ^ e \<le> unat a" "unat a < Suc (unat x) * 2 ^ e"
    unfolding mult_Suc by linarith+
  show ?thesis
  proof (cases "unat x = 1")
    case True
    then show ?thesis
      using builtin_clz_unique [of e a] a r by (simp add: e_def)
  next
    case False
    then have "2 ^ Suc e \<le> unat a" "unat a < 2 ^ Suc (Suc e)"
      using x2 a by auto
    then show ?thesis
      using builtin_clz_unique [of "Suc e" a] False r by (simp add: e_def)
  qed
qed

lemma clz_word_step:
  fixes r t :: u32
  assumes "clz_inv a w x (unat r)" and "w = h + h"
    and "m = push_bit h (mask h)" and "unat hw = h"
    and "t = (if x AND m = 0 then hw else 0)"
  shows "clz_inv a h (drop_bit (unat (hw - t)) x) (unat (r + t))"
proof -
  have x: "unat x < 2 ^ (h + h)" and r: "unat r + (h + h) \<le> 32"
    using assms(1,2) by (simp_all add: clz_inv_def)
  have t: "unat t = (if unat x < 2 ^ h then h else 0)"
    by (simp add: assms(3-) high_half_test [OF x])
  then have "unat t \<le> h" by simp
  then have "unat (hw - t) = h - unat t"
    using assms(4) by (metis unat_sub word_le_nat_alt)
  moreover have "unat (r + t) = unat r + unat t"
    using \<open>unat t \<le> h\<close> r by (simp add: unat_word_ariths)
  ultimately show ?thesis
    using clz_step [OF _ t, of a "unat r"] assms(1,2) by simp
qed

lemma clzsi2_correct:
  assumes "a \<noteq> 0"
  shows "unat (clzsi2 a) = builtin_clz a"
proof -
  define t1 :: u32 where "t1 = push_bit 4 (c_bool (a AND 0xFFFF0000 = 0))"
  define x1 where "x1 = drop_bit (unat (16 - t1)) a"
  define t2 :: u32 where "t2 = push_bit 3 (c_bool (x1 AND 0xFF00 = 0))"
  define x2 where "x2 = drop_bit (unat (8 - t2)) x1"
  define t3 :: u32 where "t3 = push_bit 2 (c_bool (x2 AND 0xF0 = 0))"
  define x3 where "x3 = drop_bit (unat (4 - t3)) x2"
  define t4 :: u32 where "t4 = push_bit 1 (c_bool (x3 AND 0xC = 0))"
  define x4 where "x4 = drop_bit (unat (2 - t4)) x3"
  define r where "r = t1 + t2 + t3 + t4"
  have masks: "0xFFFF0000 = push_bit 16 (mask 16 :: u32)" "0xFF00 = push_bit 8 (mask 8 :: u32)"
    "0xF0 = push_bit 4 (mask 4 :: u32)" "0xC = push_bit 2 (mask 2 :: u32)"
    by (simp_all add: mask_eq_exp_minus_1)
  have "clz_inv a 32 a (unat (0 :: u32))"
    using assms unat_lt_2p [of a] by (simp add: clz_inv_def unat_gt_0)
  then have "clz_inv a 16 x1 (unat (0 + t1))"
    unfolding x1_def
    by (intro clz_word_step [OF _ _ masks(1)]) (simp_all add: t1_def c_bool_def)
  then have "clz_inv a 8 x2 (unat (0 + t1 + t2))"
    unfolding x2_def
    by (intro clz_word_step [OF _ _ masks(2)]) (simp_all add: t2_def c_bool_def)
  then have "clz_inv a 4 x3 (unat (0 + t1 + t2 + t3))"
    unfolding x3_def
    by (intro clz_word_step [OF _ _ masks(3)]) (simp_all add: t3_def c_bool_def)
  then have "clz_inv a 2 x4 (unat (0 + t1 + t2 + t3 + t4))"
    unfolding x4_def
    by (intro clz_word_step [OF _ _ masks(4)]) (simp_all add: t4_def c_bool_def)
  then have inv: "clz_inv a 2 x4 (unat r)"
    by (simp add: r_def)
  have eq: "clzsi2 a = r + ((2 - x4) AND - c_bool (x4 AND 2 = 0))"
    by (simp only: clzsi2_def Let_def r_def t1_def x1_def t2_def x2_def t3_def x3_def t4_def x4_def)
  have "0 < unat x4" "unat x4 < 4" "unat r \<le> 30"
    using inv by (simp_all add: clz_inv_def)
  then have "unat x4 = 1 \<or> unat x4 = 2 \<or> unat x4 = 3" by linarith
  then have "x4 = 1 \<or> x4 = 2 \<or> x4 = 3"
    by (simp add: word_unat_eq_iff)
  then show ?thesis
    using clz_inv_final [OF inv] \<open>unat r \<le> 30\<close>
    by (elim disjE) (simp_all add: eq unat_word_ariths)
qed

definition clzXi2 :: "'a::len bit0 word \<Rightarrow> u32" where
  "clzXi2 a =
    (let f = - c_bool (s_high a = 0)
     in word_of_nat (builtin_clz ((s_high a AND NOT f) OR (s_low a AND f))) +
        (scast f AND word_of_nat LENGTH('a)))"

definition clzdi2 :: "u64 \<Rightarrow> u32" where "clzdi2 = clzXi2"
definition clzti2 :: "u128 \<Rightarrow> u32" where "clzti2 = clzXi2"

lemma clzXi2_correct: "a \<noteq> 0 \<Longrightarrow> clzXi2 a = word_of_nat (builtin_clz a)"
  by (cases a rule: double_word_cases)
     (auto simp: clzXi2_def Let_def c_bool_def builtin_clz_make_tu)

section \<open>Trailing zeros\<close>

definition ctzsi2 :: "u32 \<Rightarrow> u32" where
  "ctzsi2 a =
    (let x = a;
         t = push_bit 4 (c_bool (x AND 0x0000FFFF = 0));
         x = drop_bit (unat (t :: u32)) x;
         r = t;
         t = push_bit 3 (c_bool (x AND 0x00FF = 0));
         x = drop_bit (unat (t :: u32)) x;
         r = r + t;
         t = push_bit 2 (c_bool (x AND 0x0F = 0));
         x = drop_bit (unat (t :: u32)) x;
         r = r + t;
         t = push_bit 1 (c_bool (x AND 0x3 = 0));
         x = drop_bit (unat (t :: u32)) x;
         x = x AND 3;
         r = r + t
     in r + ((2 - drop_bit 1 x) AND - c_bool (x AND 1 = 0)))"

definition ctzXi2 :: "'a::len bit0 word \<Rightarrow> u32" where
  "ctzXi2 a =
    (let f = - c_bool (s_low a = 0)
     in word_of_nat (builtin_ctz ((s_high a AND f) OR (s_low a AND NOT f))) +
        (scast f AND word_of_nat LENGTH('a)))"

definition ctzdi2 :: "u64 \<Rightarrow> u32" where "ctzdi2 = ctzXi2"
definition ctzti2 :: "u128 \<Rightarrow> u32" where "ctzti2 = ctzXi2"

definition ffssi2 :: "u32 \<Rightarrow> u32" where
  "ffssi2 a = (if a = 0 then 0 else word_of_nat (builtin_ctz a) + 1)"

definition ffsXi2 :: "'a::len bit0 word \<Rightarrow> u32" where
  "ffsXi2 a =
    (if s_low a = 0
     then if s_high a = 0 then 0
          else word_of_nat (builtin_ctz (s_high a)) + (1 + word_of_nat LENGTH('a))
     else word_of_nat (builtin_ctz (s_low a)) + 1)"

definition ffsdi2 :: "u64 \<Rightarrow> u32" where "ffsdi2 = ffsXi2"
definition ffsti2 :: "u128 \<Rightarrow> u32" where "ffsti2 = ffsXi2"

text \<open>
  One halving step: \<open>r\<close> trailing zeros of \<open>a\<close> are shifted out, and the low
  \<open>w\<close> bits of what remains are not all zero.
\<close>

definition ctz_inv :: "u32 \<Rightarrow> nat \<Rightarrow> u32 \<Rightarrow> nat \<Rightarrow> bool" where
  "ctz_inv a w x r \<longleftrightarrow> r + w \<le> 32 \<and> unat a = 2 ^ r * unat x \<and> \<not> 2 ^ w dvd unat x"

lemma low_half_test: "x AND mask h = 0 \<longleftrightarrow> 2 ^ h dvd unat x"
proof -
  have "x AND mask h = 0 \<longleftrightarrow> unat (take_bit h x) = 0"
    by (simp add: take_bit_eq_mask unat_eq_zero)
  also have "\<dots> \<longleftrightarrow> unat x mod 2 ^ h = 0"
    by (simp only: unsigned_take_bit_eq) (simp only: take_bit_eq_mod)
  finally show ?thesis by (simp add: dvd_eq_mod_eq_0)
qed

lemma ctz_word_step:
  fixes r t :: u32
  assumes "ctz_inv a w x (unat r)" and "w = h + h"
    and "m = mask h" and "unat hw = h"
    and "t = (if x AND m = 0 then hw else 0)"
  shows "ctz_inv a h (drop_bit (unat t) x) (unat (r + t))"
proof (cases "2 ^ h dvd unat x")
  case True
  then obtain y where y: "unat x = 2 ^ h * y" ..
  have "unat (r + t) = unat r + h"
    using assms True by (simp add: low_half_test ctz_inv_def unat_word_ariths)
  moreover have "\<not> 2 ^ h dvd y"
    using assms(1,2) by (auto simp: ctz_inv_def y power_add)
  ultimately show ?thesis
    using assms True by (simp add: low_half_test ctz_inv_def unat_drop_bit_div y power_add)
next
  case False
  then show ?thesis
    using assms by (simp add: low_half_test ctz_inv_def)
qed

lemma ctzsi2_correct:
  assumes "a \<noteq> 0"
  shows "unat (ctzsi2 a) = builtin_ctz a"
proof -
  define t1 :: u32 where "t1 = push_bit 4 (c_bool (a AND 0x0000FFFF = 0))"
  define x1 where "x1 = drop_bit (unat t1) a"
  define t2 :: u32 where "t2 = push_bit 3 (c_bool (x1 AND 0x00FF = 0))"
  define x2 where "x2 = drop_bit (unat t2) x1"
  define t3 :: u32 where "t3 = push_bit 2 (c_bool (x2 AND 0x0F = 0))"
  define x3 where "x3 = drop_bit (unat t3) x2"
  define t4 :: u32 where "t4 = push_bit 1 (c_bool (x3 AND 0x3 = 0))"
  define x4 where "x4 = drop_bit (unat t4) x3"
  define r where "r = t1 + t2 + t3 + t4"
  have masks: "0xFFFF = (mask 16 :: u32)" "0xFF = (mask 8 :: u32)"
    "0xF = (mask 4 :: u32)" "3 = (mask 2 :: u32)"
    by (simp_all add: mask_eq_exp_minus_1)
  have "ctz_inv a 32 a (unat (0 :: u32))"
    using assms unat_lt_2p [of a] by (auto simp: ctz_inv_def unat_gt_0 dest: dvd_imp_le)
  then have "ctz_inv a 16 x1 (unat (0 + t1))"
    unfolding x1_def
    by (intro ctz_word_step [where hw = 16, OF _ _ masks(1)]) (simp_all add: t1_def c_bool_def)
  then have "ctz_inv a 8 x2 (unat (0 + t1 + t2))"
    unfolding x2_def
    by (intro ctz_word_step [where hw = 8, OF _ _ masks(2)]) (simp_all add: t2_def c_bool_def)
  then have "ctz_inv a 4 x3 (unat (0 + t1 + t2 + t3))"
    unfolding x3_def
    by (intro ctz_word_step [where hw = 4, OF _ _ masks(3)]) (simp_all add: t3_def c_bool_def)
  then have "ctz_inv a 2 x4 (unat (0 + t1 + t2 + t3 + t4))"
    unfolding x4_def
    by (intro ctz_word_step [where hw = 2, OF _ _ masks(4)]) (simp_all add: t4_def c_bool_def)
  then have inv: "ctz_inv a 2 x4 (unat r)"
    by (simp add: r_def)
  have eq: "ctzsi2 a = r + ((2 - drop_bit 1 (x4 AND 3)) AND - c_bool ((x4 AND 3) AND 1 = 0))"
    by (simp only: ctzsi2_def Let_def r_def t1_def x1_def t2_def x2_def t3_def x3_def t4_def x4_def)
  have low: "unat (x4 AND 3) = unat x4 mod 4"
    by (simp add: masks(4) unsigned_take_bit_eq flip: take_bit_eq_mask) (simp add: take_bit_eq_mod)
  then have "unat (x4 AND 3) = 1 \<or> unat (x4 AND 3) = 2 \<or> unat (x4 AND 3) = 3" 
    using inv by (simp add: ctz_inv_def) presburger
  then have x: "x4 AND 3 = 1 \<or> x4 AND 3 = 2 \<or> x4 AND 3 = 3"
    by (simp add: word_unat_eq_iff)
  have r: "unat r \<le> 30" "unat a = 2 ^ unat r * unat x4"
    using inv by (simp_all add: ctz_inv_def)
  show ?thesis
  proof (cases "x4 AND 3 = 2")
    case True
    then have "unat x4 mod 4 = 2"
      using low by simp
    then have "unat x4 = 2 * (unat x4 div 2)" "odd (unat x4 div 2)"
      by presburger+
    then have "unat a = 2 ^ Suc (unat r) * (unat x4 div 2)" "odd (unat x4 div 2)"
      using r(2) by (metis mult.assoc mult.commute power_Suc)+
    then have "builtin_ctz a = Suc (unat r)"
      by (rule builtin_ctz_unique)
    then show ?thesis
      using True r(1) by (simp add: eq unat_word_ariths)
  next
    case False
    with x low have "odd (unat x4)" by auto presburger+
    then have "builtin_ctz a = unat r"
      using r(2) by (rule builtin_ctz_unique [rotated])
    then show ?thesis
      using False x by (auto simp: eq)
  qed
qed

lemma ctzXi2_correct: "a \<noteq> 0 \<Longrightarrow> ctzXi2 a = word_of_nat (builtin_ctz a)"
  by (cases a rule: double_word_cases)
     (auto simp: ctzXi2_def Let_def c_bool_def builtin_ctz_make_tu)

lemma ffsXi2_correct: "ffsXi2 a = (if a = 0 then 0 else word_of_nat (builtin_ctz a) + 1)"
  by (cases a rule: double_word_cases) (auto simp: ffsXi2_def builtin_ctz_make_tu)

section \<open>Properties\<close>

lemma clz_bounds_32:
  fixes w :: "'a::len word"
  assumes "w \<noteq> 0" and "unat (n :: u32) = builtin_clz w"
  shows "unat n < LENGTH('a) \<and> 2 ^ (LENGTH('a) - 1 - unat n) \<le> unat w \<and> unat w < 2 ^ (LENGTH('a) - unat n)"
  using builtin_clz_bounds [OF assms(1)] by (simp add: assms(2))

lemma ctz_bounds_32:
  fixes w :: "'a::len word"
  assumes "w \<noteq> 0" and "unat (n :: u32) = builtin_ctz w"
  shows "unat n < LENGTH('a) \<and> 2 ^ unat n dvd unat w \<and> odd (unat w div 2 ^ unat n)"
  unfolding assms(2) by (rule builtin_ctz_decomp [OF assms(1)]) simp

text \<open>C7: on a non-zero argument the \<^verbatim>\<open>__clz\<close> routines count the zeros above the
  highest one bit and the \<^verbatim>\<open>__ctz\<close> routines those below the lowest one bit, at 32,
  64 and 128 bits; \<^verbatim>\<open>__ffs\<close> is one more than the latter, and \<open>0\<close> on
  \<open>0\<close>.\<close>

theorem count_zeros_correct:
  fixes a :: u32 and c :: u64 and e :: u128
  assumes "a \<noteq> 0" "c \<noteq> 0" "e \<noteq> 0"
  shows "unat (clzsi2 a) < 32 \<and> 2 ^ (31 - unat (clzsi2 a)) \<le> unat a \<and> unat a < 2 ^ (32 - unat (clzsi2 a)) \<and>
    unat (clzdi2 c) < 64 \<and> 2 ^ (63 - unat (clzdi2 c)) \<le> unat c \<and> unat c < 2 ^ (64 - unat (clzdi2 c)) \<and>
    unat (clzti2 e) < 128 \<and> 2 ^ (127 - unat (clzti2 e)) \<le> unat e \<and> unat e < 2 ^ (128 - unat (clzti2 e)) \<and>
    unat (ctzsi2 a) < 32 \<and> 2 ^ unat (ctzsi2 a) dvd unat a \<and> odd (unat a div 2 ^ unat (ctzsi2 a)) \<and>
    unat (ctzdi2 c) < 64 \<and> 2 ^ unat (ctzdi2 c) dvd unat c \<and> odd (unat c div 2 ^ unat (ctzdi2 c)) \<and>
    unat (ctzti2 e) < 128 \<and> 2 ^ unat (ctzti2 e) dvd unat e \<and> odd (unat e div 2 ^ unat (ctzti2 e)) \<and>
    ffssi2 a = ctzsi2 a + 1 \<and> ffsdi2 c = ctzdi2 c + 1 \<and> ffsti2 e = ctzti2 e + 1 \<and>
    ffssi2 0 = 0 \<and> ffsdi2 0 = 0 \<and> ffsti2 0 = 0"
proof -
  have ctz: "builtin_ctz c < 64" "builtin_ctz e < 128"
    by (rule builtin_ctz_decomp [OF assms(2)], simp, rule builtin_ctz_decomp [OF assms(3)], simp)
  have u: "unat (clzdi2 c) = builtin_clz c" "unat (clzti2 e) = builtin_clz e"
    "unat (ctzdi2 c) = builtin_ctz c" "unat (ctzti2 e) = builtin_ctz e"
    unfolding clzdi2_def clzti2_def ctzdi2_def ctzti2_def
    using builtin_clz_bounds(1) [OF assms(2)] builtin_clz_bounds(1) [OF assms(3)] ctz
    by (simp_all add: clzXi2_correct ctzXi2_correct assms unat_of_nat)
  have f: "ffssi2 a = ctzsi2 a + 1"
    using assms(1) by (simp add: ffssi2_def flip: ctzsi2_correct)
  have g: "ffsdi2 c = ctzdi2 c + 1" "ffsti2 e = ctzti2 e + 1"
    by (simp_all add: ffsdi2_def ffsti2_def ctzdi2_def ctzti2_def ffsXi2_correct ctzXi2_correct assms)
  have z: "ffssi2 0 = 0" "ffsdi2 0 = 0" "ffsti2 0 = 0"
    by (simp_all add: ffssi2_def ffsdi2_def ffsti2_def ffsXi2_correct)
  show ?thesis
    using clz_bounds_32 [OF assms(1) clzsi2_correct [OF assms(1)]] clz_bounds_32 [OF assms(2) u(1)]
      clz_bounds_32 [OF assms(3) u(2)] ctz_bounds_32 [OF assms(1) ctzsi2_correct [OF assms(1)]]
      ctz_bounds_32 [OF assms(2) u(3)] ctz_bounds_32 [OF assms(3) u(4)]
    unfolding f g z by simp
qed

theorem count_zeros_correct_witness:
  "unat (1 :: u32) < 2 ^ (32 - unat (clzsi2 1)) \<and> odd (unat (4 :: u64) div 2 ^ unat (ctzdi2 4)) \<and>
   unat (5 :: u128) < 2 ^ (128 - unat (clzti2 5))"
  using count_zeros_correct [of 1 4 5] by simp

end
