(* ===== verification/Int_Div.thy ===== *)
theory Int_Div
  imports Int_Count "HOL-Library.Signed_Division"
begin

text \<open>
  Unsigned division: \<^verbatim>\<open>__udivXi3\<close> and \<^verbatim>\<open>__umodXi3\<close> of
  \<^verbatim>\<open>int_div_impl.inc\<close>, the bit-serial loop behind
  \<^verbatim>\<open>__udivsi3\<close>, \<^verbatim>\<open>__umodsi3\<close>, \<^verbatim>\<open>__udivdi3\<close> and
  \<^verbatim>\<open>__umoddi3\<close>, and \<^verbatim>\<open>__udivmodsi4\<close>.

  A remainder that the C code stores through a pointer is the second component of the
  result.  A machine division by zero is \<^term>\<open>None\<close>.

  Shown: for a non-zero divisor every routine returns quotient and remainder of its
  arguments.
\<close>

definition c_udiv :: "'a::len word \<Rightarrow> 'a word \<Rightarrow> 'a word option" where
  "c_udiv x y = (if y = 0 then None else Some (x div y))"

definition c_umod :: "'a::len word \<Rightarrow> 'a word \<Rightarrow> 'a word option" where
  "c_umod x y = (if y = 0 then None else Some (x mod y))"

section \<open>The bit-serial loop\<close>

text \<open>
  One pass of the loop shared by \<^verbatim>\<open>__udivXi3\<close> and \<^verbatim>\<open>__umodXi3\<close>:
  shift \<open>r:n\<close> left by one bit, the carry of the previous pass entering at the bottom,
  then subtract \<open>d\<close> from \<open>r\<close> if it fits, without a branch.
\<close>

fun udivXi3_loop :: "'a::len word \<Rightarrow> nat \<Rightarrow> 'a word \<Rightarrow> 'a word \<Rightarrow> 'a word \<Rightarrow>
    'a word \<times> 'a word \<times> 'a word" where
  "udivXi3_loop d 0 r n carry = (r, n, carry)"
| "udivXi3_loop d (Suc sr) r n carry =
    (let r = push_bit 1 r OR drop_bit (LENGTH('a) - 1) n;
         n = push_bit 1 n OR carry;
         s = signed_drop_bit (LENGTH('a) - 1) (d - r - 1);
         carry = s AND 1;
         r = r - (d AND s)
     in udivXi3_loop d sr r n carry)"

definition div_shift :: "'a::len word \<Rightarrow> 'a word \<Rightarrow> u32" where
  "div_shift n d =
    (if d \<noteq> 0 then word_of_nat (builtin_clz d) else word_of_nat LENGTH('a)) -
    (if n \<noteq> 0 then word_of_nat (builtin_clz n) else word_of_nat LENGTH('a))"

definition udivXi3 :: "'a::len word \<Rightarrow> 'a word \<Rightarrow> 'a word" where
  "udivXi3 n d =
    (let sr = div_shift n d
     in if sr > word_of_nat (LENGTH('a) - 1) then 0
        else if sr = word_of_nat (LENGTH('a) - 1) then n
        else let sr = unat (sr + 1);
                 r = drop_bit sr n;
                 n = push_bit (LENGTH('a) - sr) n;
                 (r, n, carry) = udivXi3_loop d sr r n 0
             in push_bit 1 n OR carry)"

definition umodXi3 :: "'a::len word \<Rightarrow> 'a word \<Rightarrow> 'a word" where
  "umodXi3 n d =
    (let sr = div_shift n d
     in if sr > word_of_nat (LENGTH('a) - 1) then n
        else if sr = word_of_nat (LENGTH('a) - 1) then 0
        else let sr = unat (sr + 1);
                 r = drop_bit sr n;
                 n = push_bit (LENGTH('a) - sr) n;
                 (r, n, carry) = udivXi3_loop d sr r n 0
             in r)"

definition udivsi3 :: "u32 \<Rightarrow> u32 \<Rightarrow> u32" where "udivsi3 a b = udivXi3 a b"
definition udivdi3 :: "u64 \<Rightarrow> u64 \<Rightarrow> u64" where "udivdi3 a b = udivXi3 a b"
definition umodsi3 :: "u32 \<Rightarrow> u32 \<Rightarrow> u32" where "umodsi3 a b = umodXi3 a b"
definition umoddi3 :: "u64 \<Rightarrow> u64 \<Rightarrow> u64" where "umoddi3 a b = umodXi3 a b"

definition udivmodsi4 :: "u32 \<Rightarrow> u32 \<Rightarrow> u32 \<times> u32" where
  "udivmodsi4 a b = (let d = udivsi3 a b in (d, a - (d * b)))"

section \<open>Branch-free subtraction\<close>

text \<open>
  The sign of \<open>d - r - 1\<close> tells whether \<open>d \<le> r\<close>, as long as the two values are
  within half the range of each other.
\<close>

lemma sign_test:
  fixes d r :: "'a::len word"
  assumes "uint d - uint r \<le> 2 ^ (LENGTH('a) - 1)" and "uint r - uint d < 2 ^ (LENGTH('a) - 1)"
  shows "signed_drop_bit (LENGTH('a) - 1) (d - r - 1) = (if d \<le> r then - 1 else 0)"
proof -
  have "d - r - 1 = word_of_int (uint d - uint r - 1)"
    by simp
  then have "sint (d - r - 1) = uint d - uint r - 1"
    using assms by (simp only: sint_of_int_small)
  then show ?thesis
    by (simp add: signed_drop_bit_sign sign_bit_iff word_le_def)
qed

lemma sign_test_nat:
  fixes d r :: "'a::len word"
  assumes "h = LENGTH('a) - 1" and "unat d \<le> unat r + 2 ^ h" and "unat r < unat d + 2 ^ h"
  shows "signed_drop_bit h (d - r - 1) = (if d \<le> r then - 1 else 0)"
proof -
  have "int (unat d) \<le> int (unat r + 2 ^ h)" "int (unat r) < int (unat d + 2 ^ h)"
    using assms(2,3) by linarith+
  then show ?thesis
    unfolding assms(1) by (intro sign_test) simp_all
qed

lemma div_top_bit:
  fixes A q k N :: nat
  assumes "k < N" and "q < 2 ^ (N - Suc k)"
  shows "(A mod 2 ^ Suc k * 2 ^ (N - Suc k) + q) div 2 ^ (N - 1) = A div 2 ^ k mod 2"
proof -
  let ?P = "2 ^ (N - Suc k) :: nat"
  have "2 ^ (N - 1) = ?P * 2 ^ k"
    using assms(1) by (simp flip: power_add)
  then have "(A mod 2 ^ Suc k * ?P + q) div 2 ^ (N - 1) = (A mod 2 ^ Suc k * ?P + q) div ?P div 2 ^ k"
    by (simp only: div_mult2_eq)
  also have "(A mod 2 ^ Suc k * ?P + q) div ?P = A mod 2 ^ Suc k"
    using assms(2) by simp
  also have "A mod 2 ^ Suc k div 2 ^ k = A div 2 ^ k mod 2"
    by (simp add: mod_mult2_eq mult.commute [of 2] )
  finally show ?thesis .
qed

lemma div_shift_out:
  fixes A q k N :: nat
  assumes "k < N" and "q < 2 ^ (N - Suc k)"
  shows "2 * (A mod 2 ^ Suc k * 2 ^ (N - Suc k) + q) mod 2 ^ N = A mod 2 ^ k * 2 ^ (N - k) + 2 * q"
proof -
  define P :: nat where "P = 2 ^ (N - Suc k)"
  have N: "2 ^ N = 2 ^ k * (2 * P)" and Nk: "2 ^ (N - k) = 2 * P"
    using assms(1) unfolding P_def
    by (simp_all flip: power_add power_Suc add: Suc_diff_Suc)
  have "A mod 2 ^ Suc k = A div 2 ^ k mod 2 * 2 ^ k + A mod 2 ^ k"
    using mod_mult2_eq [of A "2 ^ k" 2] by (simp add: mult.commute)
  then have eq: "2 * (A mod 2 ^ Suc k * P + q) =
      A mod 2 ^ k * (2 * P) + 2 * q + A div 2 ^ k mod 2 * 2 ^ N"
    by (simp add: N algebra_simps)
  have "A mod 2 ^ k * (2 * P) + 2 * q < (A mod 2 ^ k + 1) * (2 * P)"
    using assms(2) by (simp add: P_def)
  also have "\<dots> \<le> 2 ^ N"
    unfolding N by (intro mult_right_mono) (simp_all add: Suc_leI)
  finally show ?thesis
    unfolding P_def [symmetric] eq Nk by simp
qed
definition div_inv :: "'a::len word \<Rightarrow> nat \<Rightarrow> nat \<Rightarrow> 'a word \<Rightarrow> 'a word \<Rightarrow> 'a word \<Rightarrow> bool" where
  "div_inv d A k r n carry \<longleftrightarrow>
     unat r = A div 2 ^ k mod unat d \<and>
     unat n = A mod 2 ^ k * 2 ^ (LENGTH('a) - k) + A div 2 ^ k div unat d div 2 \<and>
     unat carry = A div 2 ^ k div unat d mod 2"

text \<open>The comparison by sign is exact at every step of the loop.\<close>

definition div_safe :: "'a::len word \<Rightarrow> nat \<Rightarrow> nat \<Rightarrow> bool" where
  "div_safe d A k \<longleftrightarrow> unat d \<le> 2 ^ (LENGTH('a) - 1) \<or> k \<le> 1 \<and> 2 ^ (LENGTH('a) - 1) \<le> A"

lemma push_bit_1_or:
  fixes x c :: "'a::len word"
  assumes "c = 0 \<or> c = 1"
  shows "push_bit (Suc 0) x OR c = 2 * x + c"
proof -
  have "push_bit (Suc 0) x AND c = 0"
    using assms by (auto intro!: bit_word_eqI simp only: bit_simps) simp_all
  then have "push_bit (Suc 0) x OR c = push_bit (Suc 0) x + c"
    by (simp add: disjunctive_add_eq_or)
  then show ?thesis by (simp add: push_bit_eq_mult)
qed

lemma div_quot_bound:
  fixes A d k N :: nat
  assumes "A < 2 ^ N" and "k \<le> N" "0 < d" 
  shows "A div 2 ^ k div d < 2 ^ (N - k)"
proof -
  have "A < 2 ^ (N - k) * 2 ^ k"
    using assms by (simp flip: power_add)
  then have "A div 2 ^ k < 2 ^ (N - k)"
    by (rule less_mult_imp_div_less)
  then show ?thesis
    using div_le_dividend le_less_trans by blast
qed

lemma div_next_digit:
  fixes A d k :: nat
  assumes "0 < d"
  defines "r \<equiv> 2 * (A div 2 ^ Suc k mod d) + A div 2 ^ k mod 2"
  shows "A div 2 ^ k mod d = (if d \<le> r then r - d else r)"
    and "A div 2 ^ k div d = 2 * (A div 2 ^ Suc k div d) + (if d \<le> r then 1 else 0)"
    and "r \<le> A div 2 ^ k" "r < 2 * d"
proof -
  define X where "X = A div 2 ^ Suc k"
  have X: "A div 2 ^ k = 2 * X + A div 2 ^ k mod 2"
    unfolding X_def by (metis div_mod_decomp div_mult2_eq mult.commute power_Suc)
  then have eq: "A div 2 ^ k = 2 * (X div d) * d + r"
    unfolding r_def X_def [symmetric]
    by (metis (no_types, lifting) add.assoc distrib_left div_mult_mod_eq mult.assoc)
  show r: "r < 2 * d"
    using mod_less_divisor [OF assms(1), of X] mod_less_divisor [of 2 "A div 2 ^ k"]
    unfolding r_def X_def [symmetric] by linarith
  show "r \<le> A div 2 ^ k"
    using eq by simp
  show "A div 2 ^ k mod d = (if d \<le> r then r - d else r)"
    using r assms(1) by (simp add: eq le_mod_geq)
  show "A div 2 ^ k div d = 2 * (A div 2 ^ Suc k div d) + (if d \<le> r then 1 else 0)"
    using r assms(1) by (simp add: eq le_div_geq X_def)
qed

lemma unat_shift_in:
  fixes x c :: "'a::len word"
  assumes "unat c < 2"
  shows "unat (push_bit 1 x OR c) = 2 * unat x mod 2 ^ LENGTH('a) + unat c"
proof -
  have c: "c = 0 \<or> c = 1"
    using assms less_2_cases [of "unat c"] by (metis One_nat_def unat_0 unat_1 unsigned_word_eqI)
  have "2 * unat x mod 2 ^ LENGTH('a) + unat c < 2 ^ LENGTH('a)"
  proof -
    have "2 * unat x mod 2 ^ LENGTH('a) = 2 * (unat x mod 2 ^ (LENGTH('a) - 1))"
      by (simp add: mult_mod_right flip: power_Suc)
    moreover have "unat x mod 2 ^ (LENGTH('a) - 1) < 2 ^ (LENGTH('a) - 1)"
      by simp
    moreover have "2 ^ LENGTH('a) = 2 * (2 :: nat) ^ (LENGTH('a) - 1)"
      by (simp flip: power_Suc)
    ultimately show ?thesis using assms by linarith
  qed
  then show ?thesis
    by (simp only: One_nat_def push_bit_1_or [OF c] unat_word_ariths(1) unat_2_mult mod_less)
qed
lemma div_sign_safe:
  fixes d r :: "'a::len word"
  assumes "A < 2 ^ LENGTH('a)" and "div_safe d A (Suc k)" and "k < LENGTH('a)" and "0 < unat d"
    and "unat r = 2 * (A div 2 ^ Suc k mod unat d) + A div 2 ^ k mod 2"
  shows "signed_drop_bit (LENGTH('a) - 1) (d - r - 1) = (if d \<le> r then - 1 else 0)"
proof -
  let ?H = "2 ^ (LENGTH('a) - 1) :: nat"
  have N: "2 ^ LENGTH('a) = 2 * ?H"
    by (simp flip: power_Suc)
  note digit = div_next_digit [OF assms(4), of A k, folded assms(5)]
  have "unat d \<le> unat r + ?H \<and> unat r < unat d + ?H"
  proof (cases "unat d \<le> ?H")
    case True
    then show ?thesis
      using digit(4) by linarith
  next
    case False
    then have k: "k = 0" and A: "?H \<le> A"
      using assms(2) by (auto simp: div_safe_def)
    have "A div 2 < unat d"
      using False assms(1) N by linarith
    then have "unat r = A"
      using assms(5) k by simp
    then show ?thesis
      using A False assms(1) N unat_lt_2p [of d] by linarith
  qed
  then show ?thesis
    by (intro sign_test_nat) simp_all
qed

lemma udivXi3_step:
  fixes d r n carry :: "'a::len word"
  assumes "A < 2 ^ LENGTH('a)" and "div_safe d A (Suc k)" and "k < LENGTH('a)" and "d \<noteq> 0"
    and inv: "div_inv d A (Suc k) r n carry"
  defines "r1 \<equiv> push_bit 1 r OR drop_bit (LENGTH('a) - 1) n"
  defines "s \<equiv> signed_drop_bit (LENGTH('a) - 1) (d - r1 - 1)"
  shows "div_inv d A k (r1 - (d AND s)) (push_bit 1 n OR carry) (s AND 1)"
proof -
  let ?N = "LENGTH('a)" and ?Q = "A div 2 ^ Suc k div unat d"
  have d: "0 < unat d"
    using assms(4) by (simp add: unat_gt_0)
  note digit = div_next_digit [OF d, of A k]
  have Q: "?Q < 2 ^ (?N - Suc k)"
    using assms(1,3) d by (intro div_quot_bound) auto
  then have Q2: "?Q div 2 < 2 ^ (?N - Suc k)"
    by linarith
  have r: "unat r = A div 2 ^ Suc k mod unat d"
    and n: "unat n = A mod 2 ^ Suc k * 2 ^ (?N - Suc k) + ?Q div 2"
    and c: "unat carry = ?Q mod 2"
    using inv by (simp_all add: div_inv_def)
  have top: "unat (drop_bit (?N - 1) n) = A div 2 ^ k mod 2"
    by (simp only: unat_drop_bit_div n div_top_bit [OF assms(3) Q2])
  have top2: "unat (drop_bit (?N - 1) n) < 2" and c2: "unat carry < 2"
    unfolding top c by simp_all
  have "2 * (A div 2 ^ Suc k mod unat d) < 2 ^ ?N"
    using digit(3) assms(1) div_le_dividend [of A "2 ^ k"] by linarith
  then have r1: "unat r1 = 2 * (A div 2 ^ Suc k mod unat d) + A div 2 ^ k mod 2"
    unfolding r1_def using top2 by (simp only: unat_shift_in r top mod_less)
  have s: "s = (if d \<le> r1 then - 1 else 0)"
    unfolding s_def using assms(1-3) d r1 by (rule div_sign_safe)
  have n1: "unat (push_bit 1 n OR carry) = A mod 2 ^ k * 2 ^ (?N - k) + ?Q"
    unfolding unat_shift_in [OF c2] n c div_shift_out [OF assms(3) Q2] by simp
  have le: "d \<le> r1 \<longleftrightarrow> unat d \<le> 2 * (A div 2 ^ Suc k mod unat d) + A div 2 ^ k mod 2"
    by (simp add: word_le_nat_alt r1)
  show ?thesis
    unfolding div_inv_def digit n1 le [symmetric] s
    by (auto simp: unat_sub r1 le)
qed
lemma udivXi3_loop_inv:
  fixes d r n carry :: "'a::len word"
  assumes "A < 2 ^ LENGTH('a)" and "d \<noteq> 0"
  shows "div_safe d A k \<Longrightarrow> k \<le> LENGTH('a) \<Longrightarrow> div_inv d A k r n carry \<Longrightarrow>
    (case udivXi3_loop d k r n carry of (r', n', carry') \<Rightarrow> div_inv d A 0 r' n' carry')"
proof (induction k arbitrary: r n carry)
  case (Suc k)
  have "div_safe d A k"
    using Suc.prems(1) by (auto simp: div_safe_def)
  then show ?case
    using Suc.IH udivXi3_step [OF assms(1) Suc.prems(1) _ assms(2) Suc.prems(3)] Suc.prems(2)
    by (simp only: udivXi3_loop.simps Let_def)
qed (auto)

lemma div_inv_start:
  fixes d n :: "'a::len word"
  assumes "d \<noteq> 0" and "k \<le> LENGTH('a)" and "unat n div 2 ^ k < unat d"
  shows "div_inv d (unat n) k (drop_bit k n) (push_bit (LENGTH('a) - k) n) 0"
proof -
  have "2 ^ LENGTH('a) = (2 :: nat) ^ k * 2 ^ (LENGTH('a) - k)"
    using assms(2) by (simp flip: power_add)
  then have "unat (push_bit (LENGTH('a) - k) n) = unat n mod 2 ^ k * 2 ^ (LENGTH('a) - k)"
    by (simp only: unsigned_push_bit_eq) (simp only: take_bit_eq_mod push_bit_eq_mult mult_mod_left)
  then show ?thesis
    using assms(3) by (simp add: div_inv_def unat_drop_bit_div)
qed

lemma div_inv_end:
  fixes d r n carry :: "'a::len word"
  assumes "div_inv d (unat a) 0 r n carry"
  shows "r = a mod d" "push_bit 1 n OR carry = a div d" "unat carry < 2"
proof -
  have c: "unat carry < 2" "unat carry = unat a div unat d mod 2"
    and n: "unat n = unat a div unat d div 2"
    using assms by (simp_all add: div_inv_def)
  show "unat carry < 2"
    by (fact c(1))
  have *: "2 * (unat a div unat d div 2) < 2 ^ LENGTH('a)"
    using div_le_dividend [of "unat a" "unat d"] unat_lt_2p [of a] by linarith
  have "unat (push_bit 1 n OR carry) = unat (a div d)"
    using * by (simp only: unat_shift_in [OF c(1)] n c(2) mod_less unat_div_distrib mult_div_mod_eq)
  then show "push_bit 1 n OR carry = a div d"
    by (rule unsigned_word_eqI)
  show "r = a mod d"
    using assms by (intro unsigned_word_eqI [where 'a = nat]) (simp add: div_inv_def unat_mod_distrib)
qed

lemma div_shift_cases:
  fixes n d :: "'a::len word"
  assumes "LENGTH('a) < 2 ^ 31" and "d \<noteq> 0"
  shows "n = 0 \<or> builtin_clz d < builtin_clz n \<Longrightarrow> div_shift n d > word_of_nat (LENGTH('a) - 1)"
    and "n \<noteq> 0 \<Longrightarrow> builtin_clz n \<le> builtin_clz d \<Longrightarrow> unat (div_shift n d) = builtin_clz d - builtin_clz n"
proof -
  define cn where "cn = (if n = 0 then LENGTH('a) else builtin_clz n)"
  define cd where "cd = builtin_clz d"
  have le: "cn \<le> LENGTH('a)" "cd < LENGTH('a)"
    using builtin_clz_bounds(1) [of n] builtin_clz_bounds(1) [OF assms(2)] by (auto simp: cn_def cd_def)
  have s: "div_shift n d = word_of_nat cd - word_of_nat cn"
    using assms(2) by (simp add: div_shift_def cn_def cd_def)
  have u: "unat (word_of_nat cn :: u32) = cn" "unat (word_of_nat cd :: u32) = cd"
    "unat (word_of_nat (LENGTH('a) - 1) :: u32) = LENGTH('a) - 1"
    using le assms(1) by - (rule unat_of_nat_small, simp)+
  show "unat (div_shift n d) = builtin_clz d - builtin_clz n"
    if "n \<noteq> 0" "builtin_clz n \<le> builtin_clz d"
    using that u by (simp add: s cn_def cd_def unat_sub word_le_nat_alt)
  show "div_shift n d > word_of_nat (LENGTH('a) - 1)" if "n = 0 \<or> builtin_clz d < builtin_clz n"
  proof -
    have "cd < cn" using that le by (auto simp: cn_def cd_def split: if_splits)
    then have "unat (div_shift n d) = cd + 2 ^ 32 - cn"
      using u by (simp add: s unat_sub_if' word_le_nat_alt)
    then show ?thesis
      using u le assms(1) by (simp add: word_less_nat_alt)
  qed
qed
lemma udivXi3_run:
  fixes n d :: "'a::len word"
  assumes "n \<noteq> 0" "d \<noteq> 0" "builtin_clz n \<le> builtin_clz d"
    and "sr = Suc (builtin_clz d - builtin_clz n)" "sr \<le> LENGTH('a)"
  shows "case udivXi3_loop d sr (drop_bit sr n) (push_bit (LENGTH('a) - sr) n) 0 of (r, n', carry) \<Rightarrow>
    r = n mod d \<and> push_bit 1 n' OR carry = n div d \<and> unat carry < 2"
proof -
  note n = builtin_clz_bounds [OF assms(1)] and d = builtin_clz_bounds [OF assms(2)]
  have "LENGTH('a) - builtin_clz n = (LENGTH('a) - Suc (builtin_clz d)) + sr"
    using n(1) d(1) assms(3,4) by linarith
  then have "unat n < 2 ^ (LENGTH('a) - Suc (builtin_clz d)) * 2 ^ sr"
    using n(3) by (simp add: power_add)
  then have "unat n div 2 ^ sr < unat d"
    using d(2) less_mult_imp_div_less less_le_trans by blast
  then have start: "div_inv d (unat n) sr (drop_bit sr n) (push_bit (LENGTH('a) - sr) n) 0"
    using assms(2,5) by (intro div_inv_start)
  have "div_safe d (unat n) sr"
  proof (cases "builtin_clz d")
    case 0
    then show ?thesis
      using n(2) assms(3,4) by (simp add: div_safe_def)
  next
    case (Suc c)
    then have "unat d < 2 ^ (LENGTH('a) - 1)"
      using d(3) power_increasing [of "LENGTH('a) - builtin_clz d" "LENGTH('a) - 1" "2 :: nat"] Suc by (simp del: power_increasing_iff)
    then show ?thesis
      by (simp add: div_safe_def)
  qed
  then show ?thesis
    using udivXi3_loop_inv [OF unat_lt_2p assms(2) _ assms(5) start] div_inv_end
    by (fastforce split: prod.splits)
qed

lemma udivXi3_trivial:
  fixes n d :: "'a::len word"
  assumes "d \<noteq> 0" and "n = 0 \<or> builtin_clz d < builtin_clz n"
  shows "n div d = 0" "n mod d = n"
proof -
  have "n < d"
  proof (cases "n = 0")
    case True
    then show ?thesis
      using assms(1) by (simp add: word_neq_0_conv)
  next
    case False
    then have "2 ^ (LENGTH('a) - builtin_clz n) \<le> (2 :: nat) ^ (LENGTH('a) - Suc (builtin_clz d))"
      using assms(2) by (intro power_increasing) auto
    then show ?thesis
      using builtin_clz_bounds(3) [OF False] builtin_clz_bounds(2) [OF assms(1)]
      unfolding word_less_nat_alt by linarith
  qed
  then show "n div d = 0" "n mod d = n"
    by (simp_all add: div_word_less mod_word_less)
qed

lemma udivXi3_by_one:
  fixes n d :: "'a::len word"
  assumes "d \<noteq> 0" "n \<noteq> 0" "builtin_clz d - builtin_clz n = LENGTH('a) - 1"
  shows "d = 1"
proof -
  have "builtin_clz d = LENGTH('a) - 1"
    using builtin_clz_bounds(1) [OF assms(1)] assms(3) by linarith
  then have "unat d < 2"
    using builtin_clz_bounds(3) [OF assms(1)] by (simp add: Suc_leI)
  then show ?thesis
    using assms(1) less_2_cases [of "unat d"] by (metis One_nat_def unat_0 unat_1 unsigned_word_eqI)
qed

lemma udivXi3_correct:
  fixes n d :: "'a::len word"
  assumes "LENGTH('a) < 2 ^ 31" and "d \<noteq> 0"
  shows "udivXi3 n d = n div d" "umodXi3 n d = n mod d"
proof -
  consider "n = 0 \<or> builtin_clz d < builtin_clz n" | "n \<noteq> 0" "builtin_clz n \<le> builtin_clz d"
    by linarith
  then have "udivXi3 n d = n div d \<and> umodXi3 n d = n mod d"
  proof cases
    case 1
    then show ?thesis
      using div_shift_cases(1) [OF assms, of n] udivXi3_trivial [OF assms(2)]
      by (simp add: udivXi3_def umodXi3_def Let_def)
  next
    case 2
    define c where "c = builtin_clz d - builtin_clz n"
    have s: "unat (div_shift n d) = c"
      unfolding c_def by (rule div_shift_cases(2) [OF assms 2])
    have "c \<le> LENGTH('a) - 1"
      using builtin_clz_bounds(1) [OF assms(2)] by (simp add: c_def)
    moreover have u: "unat (word_of_nat (LENGTH('a) - 1) :: u32) = LENGTH('a) - 1"
      using assms(1) by - (rule unat_of_nat_small, simp)+
    ultimately have nb: "\<not> word_of_nat (LENGTH('a) - 1) < div_shift n d"
      by (simp add: word_less_nat_alt s)
    show ?thesis
    proof (cases "c = LENGTH('a) - 1")
      case True
      then have "div_shift n d = word_of_nat (LENGTH('a) - 1)"
        using s u by (metis unsigned_word_eqI)
      then show ?thesis
        using udivXi3_by_one [OF assms(2) 2(1)] True
        by (simp add: udivXi3_def umodXi3_def c_def)
    next
      case False
      then have "div_shift n d \<noteq> word_of_nat (LENGTH('a) - 1)"
        using s u by auto
      moreover have "unat (div_shift n d + 1) = Suc c" "Suc c \<le> LENGTH('a)"
        using s \<open>c \<le> _\<close> False assms(1) by (simp_all add: unat_word_ariths)
      ultimately show ?thesis
        using nb udivXi3_run [OF 2(1) assms(2) 2(2), of "Suc c"]
        by (auto simp: udivXi3_def umodXi3_def Let_def c_def split: prod.splits)
    qed
  qed
  then show "udivXi3 n d = n div d" "umodXi3 n d = n mod d" by auto
qed

section \<open>Properties\<close>

text \<open>C4: the bit-serial routines of \<^verbatim>\<open>int_div_impl.inc\<close>, instantiated at 32 and 64
  bits, and \<^verbatim>\<open>__udivmodsi4\<close> return quotient and remainder for every non-zero
  divisor.\<close>

theorem bit_serial_division_correct:
  fixes a b :: u32 and c d :: u64
  assumes "b \<noteq> 0" "d \<noteq> 0"
  shows "udivsi3 a b = a div b \<and> umodsi3 a b = a mod b \<and> udivmodsi4 a b = (a div b, a mod b) \<and>
    udivdi3 c d = c div d \<and> umoddi3 c d = c mod d"
  using assms
  by (simp add: udivsi3_def umodsi3_def udivmodsi4_def udivdi3_def umoddi3_def udivXi3_correct
      minus_div_mult_eq_mod)

theorem bit_serial_division_correct_witness:
  "udivsi3 1000 7 = 142 \<and> umodsi3 1000 7 = 6 \<and> udivdi3 1000000000007 10 = 100000000000 \<and>
   umoddi3 1000000000007 10 = 7"
  using bit_serial_division_correct [of 7 10 1000 1000000000007] by simp

end
