(* ===== verification/Int_Div_DI.thy ===== *)
theory Int_Div_DI
  imports Int_Div
begin

text \<open>
  \<^verbatim>\<open>__udivmoddi4\<close> (\<^verbatim>\<open>lib/builtins/udivmoddi4.c\<close>): 64-bit division on
  32-bit halves, one branch per pattern of zero halves and powers of two, the rest by the
  bit-serial loop written on the halves.

  Shown: the loop on the halves is the loop of \<^verbatim>\<open>int_div_impl.inc\<close> at 64 bits,
  and every branch returns quotient and remainder; a zero divisor reaches a machine division
  by zero.
\<close>

section \<open>\<^verbatim>\<open>__udivmoddi4\<close>\<close>

text \<open>
  The loop at the end of \<^verbatim>\<open>__udivmoddi4\<close>, on the halves of \<open>r\<close> and \<open>q\<close>.
\<close>

fun udivmoddi4_loop :: "u64 \<Rightarrow> nat \<Rightarrow> u64 \<Rightarrow> u64 \<Rightarrow> u32 \<Rightarrow> u64 \<times> u64 \<times> u32" where
  "udivmoddi4_loop d 0 r q carry = (r, q, carry)"
| "udivmoddi4_loop d (Suc sr) r q carry =
    (let r = make_tu (push_bit 1 (s_high r) OR drop_bit 31 (s_low r)) (s_low r);
         r = make_tu (s_high r) (push_bit 1 (s_low r) OR drop_bit 31 (s_high q));
         q = make_tu (push_bit 1 (s_high q) OR drop_bit 31 (s_low q)) (s_low q);
         q = make_tu (s_high q) (push_bit 1 (s_low q) OR carry);
         s = signed_drop_bit 63 (d - r - 1);
         carry = ucast (s AND 1);
         r = r - (d AND s)
     in udivmoddi4_loop d sr r q carry)"

definition udivmoddi4_finish :: "u64 \<Rightarrow> u32 \<Rightarrow> u64 \<Rightarrow> u64 \<Rightarrow> u64 \<times> u64" where
  "udivmoddi4_finish d sr r q =
    (let (r, q, carry) = udivmoddi4_loop d (unat sr) r q 0;
         q = push_bit 1 q OR ucast carry
     in (q, r))"

definition clzsi :: "u32 \<Rightarrow> u32" where "clzsi x = word_of_nat (builtin_clz x)"
definition ctzsi :: "u32 \<Rightarrow> u32" where "ctzsi x = word_of_nat (builtin_ctz x)"

definition udivmoddi4 :: "u64 \<Rightarrow> u64 \<Rightarrow> (u64 \<times> u64) option" where
  "udivmoddi4 a b =
    (let nh = s_high a; nl = s_low a; dh = s_high b; dl = s_low b
     in if nh = 0 then
          if dh = 0 then do {
            rem \<leftarrow> c_umod nl dl;
            quo \<leftarrow> c_udiv nl dl;
            Some (ucast quo, ucast rem)
          }
          else Some (0, ucast nl)
        else if dl = 0 then
          if dh = 0 then do {
            rem \<leftarrow> c_umod nh dl;
            quo \<leftarrow> c_udiv nh dl;
            Some (ucast quo, ucast rem)
          }
          else if nl = 0 then do {
            rem \<leftarrow> c_umod nh dh;
            quo \<leftarrow> c_udiv nh dh;
            Some (ucast quo, make_tu rem 0)
          }
          else if dh AND (dh - 1) = 0 then
            Some (ucast (drop_bit (unat (ctzsi dh)) nh), make_tu (nh AND (dh - 1)) nl)
          else
            let sr = clzsi dh - clzsi nh
            in if sr > 30 then Some (0, a)
               else
                 let sr = sr + 1;
                     q = make_tu (push_bit (unat (32 - sr)) nl) 0;
                     r = make_tu (drop_bit (unat sr) nh)
                           (push_bit (unat (32 - sr)) nh OR drop_bit (unat sr) nl)
                 in Some (udivmoddi4_finish b sr r q)
        else if dh = 0 then
          if dl AND (dl - 1) = 0 then
            if dl = 1 then Some (a, ucast (nl AND (dl - 1)))
            else
              let sr = ctzsi dl;
                  q = make_tu (drop_bit (unat sr) nh)
                        (push_bit (unat (32 - sr)) nh OR drop_bit (unat sr) nl)
              in Some (q, ucast (nl AND (dl - 1)))
          else
            let sr = 1 + 32 + clzsi dl - clzsi nh
            in if sr = 32 then
                 Some (udivmoddi4_finish b sr (make_tu 0 nh) (make_tu nl 0))
               else if sr < 32 then
                 let q = make_tu (push_bit (unat (32 - sr)) nl) 0;
                     r = make_tu (drop_bit (unat sr) nh)
                           (push_bit (unat (32 - sr)) nh OR drop_bit (unat sr) nl)
                 in Some (udivmoddi4_finish b sr r q)
               else
                 let q = make_tu (push_bit (unat (64 - sr)) nh OR drop_bit (unat (sr - 32)) nl)
                           (push_bit (unat (64 - sr)) nl);
                     r = make_tu 0 (drop_bit (unat (sr - 32)) nh)
                 in Some (udivmoddi4_finish b sr r q)
        else
          let sr = clzsi dh - clzsi nh
          in if sr > 31 then Some (0, a)
             else
               let sr = sr + 1
               in if sr = 32 then
                    Some (udivmoddi4_finish b sr (make_tu 0 nh) (make_tu nl 0))
                  else
                    let q = make_tu (push_bit (unat (32 - sr)) nl) 0;
                        r = make_tu (drop_bit (unat sr) nh)
                              (push_bit (unat (32 - sr)) nh OR drop_bit (unat sr) nl)
                    in Some (udivmoddi4_finish b sr r q))"

section \<open>Correctness\<close>

lemma udivmoddi4_loop_eq:
  "udivmoddi4_loop d sr r q carry =
    (case udivXi3_loop d sr r q (ucast carry) of (r', q', carry') \<Rightarrow> (r', q', ucast carry'))"
proof (induction sr arbitrary: r q carry)
  case (Suc sr)
  have r: "make_tu (push_bit 1 (s_high r) OR drop_bit 31 (s_low r))
      (push_bit 1 (s_low r) OR drop_bit 31 (s_high q)) = push_bit 1 r OR drop_bit 63 q"
    using double_shift_in [of r "drop_bit 31 (s_high q)"] drop_bit_double_top [of q] by simp
  have q: "make_tu (push_bit 1 (s_high q) OR drop_bit 31 (s_low q)) (push_bit 1 (s_low q) OR carry) =
      push_bit 1 q OR ucast carry"
    using double_shift_in [of q carry] by simp
  have c: "ucast (ucast (s AND 1 :: u64) :: u32) = s AND 1" for s :: u64
    by (rule bit_word_eqI) (auto simp: bit_simps)
  show ?case
    by (simp add: Suc.IH s_low_make_tu s_high_make_tu c Let_def r [simplified] q [simplified])
next
  case 0
  have "ucast (ucast carry :: u64) = carry"
    by (rule bit_word_eqI) (simp add: bit_simps)
  then show ?case by simp
qed

lemma udivmoddi4_finish_correct:
  assumes "a \<noteq> 0" "b \<noteq> 0" "builtin_clz a \<le> builtin_clz b"
    and "unat sr = Suc (builtin_clz b - builtin_clz a)" "unat sr \<le> 64"
  shows "udivmoddi4_finish b sr (drop_bit (unat sr) a) (push_bit (64 - unat sr) a) = (a div b, a mod b)"
proof -
  have c: "ucast (ucast c :: u32) = c" if "unat c < 2" for c :: u64
    using that less_2_cases [of "unat c"] by (metis One_nat_def unat_0 unat_1 unsigned_word_eqI unsigned_0 unsigned_1)
  obtain r q carry where
    run: "udivXi3_loop b (unat sr) (drop_bit (unat sr) a) (push_bit (64 - unat sr) a) 0 = (r, q, carry)"
    using prod_cases3 by blast
  then have "r = a mod b \<and> push_bit 1 q OR carry = a div b \<and> unat carry < 2"
    using udivXi3_run [OF assms(1-4)] assms(5) by simp
  then show ?thesis
    using run c [of carry] by (simp only: udivmoddi4_finish_def udivmoddi4_loop_eq) simp
qed

lemma div_odd_multiple_pred: "(2 * 2 ^ c * m + 2 ^ c - Suc 0) div (2 * 2 ^ c) = (m :: nat)"
proof -
  obtain P where "(2 :: nat) ^ c = Suc P"
    by (metis not0_implies_Suc power_not_zero zero_neq_numeral)
  then show ?thesis
    by (intro div_nat_eqI) (auto simp: algebra_simps)
qed

lemma and_pred_eq_0:
  fixes x :: "'a::len word"
  assumes "x \<noteq> 0" "x AND (x - 1) = 0"
  shows "unat x = 2 ^ builtin_ctz x"
proof -
  obtain m where "unat x = (2 * m + 1) * 2 ^ builtin_ctz x"
    using builtin_ctz_decomp [OF assms(1)] by (metis mult.commute oddE)
  then have x: "unat x = 2 ^ Suc (builtin_ctz x) * m + 2 ^ builtin_ctz x"
    by (simp add: algebra_simps)
  have "unat (x - 1) = unat x - 1"
    using assms(1) by (simp add: unat_minus_one)
  then have "unat (x - 1) div 2 ^ Suc (builtin_ctz x) = m"
    unfolding x by (simp add: div_odd_multiple_pred)
  moreover have "unat x div 2 ^ Suc (builtin_ctz x) = m"
    unfolding x by (simp)
  moreover have "drop_bit (Suc (builtin_ctz x)) (unat x AND unat (x - 1)) = 0"
    using assms(2) by (simp flip: unsigned_and_eq)
  ultimately have "m AND m = 0"
    by (simp only: drop_bit_and) (simp only: drop_bit_eq_div)
  then show ?thesis
    using x by simp
qed
lemma mod_power_of_two:
  fixes v w :: "'a::len word"
  assumes "unat w = 2 ^ k"
  shows "v AND (w - 1) = v mod w" "v div w = drop_bit k v" "k < LENGTH('a)"
proof -
  have "(2 :: nat) ^ k < 2 ^ LENGTH('a)"
    using unat_lt_2p [of w] assms by simp
  then show k: "k < LENGTH('a)"
    by simp
  have w: "w = 2 ^ k"
    using k assms by (intro unsigned_word_eqI [where 'a = nat]) (simp add: unat_2p)
  then show "v AND (w - 1) = v mod w"
    by (metis mask_eq_exp_minus_1 take_bit_eq_mask take_bit_eq_mod)
  show "v div w = drop_bit k v"
    by (simp add: w drop_bit_eq_div)
qed

lemma udivmod_high:
  fixes nh nl dh :: "'h::len word"
  assumes "dh \<noteq> 0"
  shows "make_tu nh nl div make_tu dh 0 = ucast (nh div dh)"
    and "make_tu nh nl mod make_tu dh 0 = make_tu (nh mod dh) nl"
proof -
  have "uint nl < 2 ^ LENGTH('h)" "0 < uint dh"
    using uint_lt_2p assms by (auto simp: word_neq_0_conv word_less_def) 
  then show "make_tu nh nl div make_tu dh 0 = ucast (nh div dh)"
    by (simp add: word_eq_iff_uint uint_make_tu uint_div_distrib uint_ucast_up mult.commute [of _ "2 ^ _"] zdiv_zmult2_eq)
  show "make_tu nh nl mod make_tu dh 0 = make_tu (nh mod dh) nl"
    by (simp add: word_eq_iff_uint uint_make_tu uint_mod_distrib mult.commute [of _ "2 ^ _"] zmod_zmult2_eq)
qed
lemma udivmod_low:
  fixes nl dl :: "'h::len word"
  shows "make_tu 0 nl div make_tu 0 dl = ucast (nl div dl)"
    and "make_tu 0 nl mod make_tu 0 dl = ucast (nl mod dl)"
  by (simp_all add: word_eq_iff_uint uint_make_tu uint_div_distrib uint_mod_distrib uint_ucast_up)

lemma udivmod_pow2_low:
  fixes nh nl dl :: "'h::len word"
  assumes "unat dl = 2 ^ k"
  shows "make_tu nh nl div make_tu 0 dl = drop_bit k (make_tu nh nl)"
    and "make_tu nh nl mod make_tu 0 dl = ucast (nl mod dl)"
proof -
  have d: "unat (make_tu 0 dl) = 2 ^ k" 
    using assms by (simp add: unat_make_tu)
  show "make_tu nh nl div make_tu 0 dl = drop_bit k (make_tu nh nl)"
    by (rule mod_power_of_two(2) [OF d])
  have k: "k < LENGTH('h)" by (rule mod_power_of_two(3) [OF assms])
  have "uint dl = 2 ^ k"
    using assms by (metis of_nat_numeral of_nat_power uint_nat)
  then show "make_tu nh nl mod make_tu 0 dl = ucast (nl mod dl)"
    using k by (simp add: word_eq_iff_uint uint_make_tu uint_mod_distrib uint_ucast_up
       flip: take_bit_eq_mod) (simp add: take_bit_eq_mod mod_add_left_eq [symmetric] dvd_imp_mod_0 le_imp_power_dvd)
qed

lemma make_tu_less:
  fixes nh nl dh dl :: "'h::len word"
  assumes "nh < dh"
  shows "make_tu nh nl < make_tu dh dl"
proof -
  have "uint nh * 2 ^ LENGTH('h) + uint nl < (uint nh + 1) * 2 ^ LENGTH('h)"
    using uint_lt_2p [of nl] by (simp add: algebra_simps)
  also have "\<dots> \<le> uint dh * 2 ^ LENGTH('h)"
    using assms by (intro mult_right_mono) (simp_all add: word_less_def)
  also have "\<dots> \<le> uint dh * 2 ^ LENGTH('h) + uint dl"
    by simp
  finally show ?thesis
    by (simp only: word_less_def uint_make_tu)
qed

lemma udivmod_less:
  fixes nh nl dh dl :: "'h::len word"
  assumes "nh < dh"
  shows "make_tu nh nl div make_tu dh dl = 0" "make_tu nh nl mod make_tu dh dl = make_tu nh nl"
  using make_tu_less [OF assms] by (simp_all add: div_word_less mod_word_less)

lemma udivmoddi4_init:
  fixes a :: u64 and sr :: u32
  shows "0 < unat sr \<Longrightarrow> unat sr < 32 \<Longrightarrow>
      make_tu (drop_bit (unat sr) (s_high a))
        (push_bit (unat (32 - sr)) (s_high a) OR drop_bit (unat sr) (s_low a)) = drop_bit (unat sr) a"
    and "0 < unat sr \<Longrightarrow> unat sr < 32 \<Longrightarrow>
      make_tu (push_bit (unat (32 - sr)) (s_low a)) 0 = push_bit (64 - unat sr) a"
    and "unat sr = 32 \<Longrightarrow> make_tu 0 (s_high a) = drop_bit (unat sr) a"
    and "unat sr = 32 \<Longrightarrow> make_tu (s_low a) 0 = push_bit (64 - unat sr) a"
    and "32 < unat sr \<Longrightarrow> unat sr < 64 \<Longrightarrow>
      make_tu (push_bit (unat (64 - sr)) (s_high a) OR drop_bit (unat (sr - 32)) (s_low a))
        (push_bit (unat (64 - sr)) (s_low a)) = push_bit (64 - unat sr) a"
    and "32 < unat sr \<Longrightarrow> unat sr < 64 \<Longrightarrow>
      make_tu 0 (drop_bit (unat (sr - 32)) (s_high a)) = drop_bit (unat sr) a"
  subgoal by (simp add: drop_bit_double_lo unat_sub word_le_nat_alt)
  subgoal using push_bit_double_hi [of "32 - unat sr" a] by (simp add: unat_sub word_le_nat_alt)
  subgoal using drop_bit_double_hi [of 0 a] by simp
  subgoal using push_bit_double_hi [of 0 a] by simp
  subgoal using push_bit_double_lo [of "64 - unat sr" a]
    by (simp add: unat_sub word_le_nat_alt)
  subgoal using drop_bit_double_hi [of "unat sr - 32" a] by (simp add: unat_sub word_le_nat_alt)
  done
lemma clzsi_sub:
  assumes "x \<noteq> 0" "y \<noteq> 0"
  shows "builtin_clz y \<le> builtin_clz x \<Longrightarrow> unat (clzsi x - clzsi y) = builtin_clz x - builtin_clz y"
    and "builtin_clz x < builtin_clz y \<Longrightarrow> 31 < clzsi x - clzsi y"
proof -
  have le: "builtin_clz x < 32" "builtin_clz y < 32"
    using builtin_clz_bounds(1) [OF assms(1)] builtin_clz_bounds(1) [OF assms(2)] by simp_all
  have u: "unat (clzsi x) = builtin_clz x" "unat (clzsi y) = builtin_clz y"
    using le by (simp_all add: clzsi_def unat_of_nat)
  show "unat (clzsi x - clzsi y) = builtin_clz x - builtin_clz y" if "builtin_clz y \<le> builtin_clz x"
    using that u by (simp add: unat_sub word_le_nat_alt)
  show "31 < clzsi x - clzsi y" if "builtin_clz x < builtin_clz y"
    using that u le by (simp add: word_less_nat_alt unat_sub_if' word_le_nat_alt)
qed

lemma builtin_clz_less:
  assumes "builtin_clz d < builtin_clz n" "n \<noteq> 0" "d \<noteq> (0 :: 'a::len word)"
  shows "n < d"
  using udivXi3_trivial(2) [OF assms(3), of n] assms by (metis word_mod_less_divisor word_gt_0)

lemma udivmoddi4_KK:
  assumes "s_high a \<noteq> 0" "s_high b \<noteq> 0"
    and "builtin_clz (s_high a) \<le> builtin_clz (s_high b)"
    and "unat sr = Suc (builtin_clz (s_high b) - builtin_clz (s_high a))"
  shows "udivmoddi4_finish b sr (drop_bit (unat sr) a) (push_bit (64 - unat sr) a) = (a div b, a mod b)"
proof -
  have "builtin_clz a = builtin_clz (s_high a)" "builtin_clz b = builtin_clz (s_high b)"
    using builtin_clz_make_tu [of "s_high a" "s_low a", unfolded make_tu_s_high_s_low]
      builtin_clz_make_tu [of "s_high b" "s_low b", unfolded make_tu_s_high_s_low] assms
    by simp_all
  moreover have "a \<noteq> 0" "b \<noteq> 0"
    using assms(1,2) by (auto simp: s_high_0)
  ultimately show ?thesis
    using assms(3,4) builtin_clz_bounds(1) [OF assms(2)] by (intro udivmoddi4_finish_correct) auto
qed

lemma udivmoddi4_0K:
  assumes "s_high a \<noteq> 0" "s_high b = 0" "s_low b \<noteq> 0"
    and "unat sr = 33 + builtin_clz (s_low b) - builtin_clz (s_high a)" "unat sr \<le> 64"
  shows "udivmoddi4_finish b sr (drop_bit (unat sr) a) (push_bit (64 - unat sr) a) = (a div b, a mod b)"
proof -
  have "builtin_clz a = builtin_clz (s_high a)" "builtin_clz b = 32 + builtin_clz (s_low b)"
    using builtin_clz_make_tu [of "s_high a" "s_low a", unfolded make_tu_s_high_s_low]
      builtin_clz_make_tu [of "s_high b" "s_low b", unfolded make_tu_s_high_s_low] assms
    by simp_all
  moreover have "a \<noteq> 0" "b \<noteq> 0"
    using assms(1,3) by (auto simp: s_high_0 s_low_0)
  ultimately show ?thesis
    using assms(4,5) builtin_clz_bounds(1) [OF assms(1)] by (intro udivmoddi4_finish_correct) auto
qed

lemma halves_of: "s_high a = h \<Longrightarrow> s_low a = l \<Longrightarrow> a = make_tu h l"
  using make_tu_s_high_s_low [of a] by simp

lemma udivmoddi4_0X:
  assumes "s_high a = 0" "b \<noteq> 0"
  shows "udivmoddi4 a b = Some (a div b, a mod b)"
proof (cases "s_high b = 0")
  case True
  have "s_low b \<noteq> 0"
    using True assms(2) halves_of [OF True refl] by (auto simp: make_tu_0_0)
  moreover have "a div b = ucast (s_low a div s_low b)" "a mod b = ucast (s_low a mod s_low b)"
    using udivmod_low halves_of [OF assms(1) refl] halves_of [OF True refl] by metis+
  ultimately show ?thesis
    using True assms(1) by (simp add: udivmoddi4_def Let_def c_udiv_def c_umod_def)
next
  case False
  then have "a div b = 0" "a mod b = a"
    using udivmod_less [of "s_high a" "s_high b" "s_low a" "s_low b"] assms(1)
    by (simp_all add: make_tu_s_high_s_low word_neq_0_conv) (metis assms(1) make_tu_s_high_s_low)+
  moreover have "ucast (s_low a) = a"
    using halves_of [OF assms(1) refl] by (simp add: ucast_make_tu)
  ultimately show ?thesis
    using False assms(1) by (simp add: udivmoddi4_def)
qed

lemma builtin_clz_not_1:
  assumes "d \<noteq> 0" "d \<noteq> (1 :: u32)"
  shows "builtin_clz d < 31"
proof (rule ccontr)
  assume "\<not> builtin_clz d < 31"
  then have "builtin_clz d = 31"
    using builtin_clz_bounds(1) [OF assms(1)] by simp
  then have "unat d < 2"
    using builtin_clz_bounds(3) [OF assms(1)] by simp
  then show False
    using assms less_2_cases [of "unat d"] by (metis One_nat_def unat_0 unat_1 unsigned_word_eqI)
qed

lemma udivmoddi4_KX_K0:
  assumes "s_high a \<noteq> 0" "s_low b = 0" "s_high b \<noteq> 0"
  shows "udivmoddi4 a b = Some (a div b, a mod b)"
proof -
  let ?nh = "s_high a" and ?dh = "s_high b"
  have q: "a div b = ucast (?nh div ?dh)" and r: "a mod b = make_tu (?nh mod ?dh) (s_low a)"
    using udivmod_high [OF assms(3), of ?nh "s_low a"] halves_of [OF refl assms(2)]
    by (metis make_tu_s_high_s_low)+
  consider "s_low a = 0" | "s_low a \<noteq> 0" "?dh AND (?dh - 1) = 0"
    | "s_low a \<noteq> 0" "?dh AND (?dh - 1) \<noteq> 0" by blast
  then show ?thesis
  proof cases
    case 1
    then show ?thesis
      using assms q r by (simp add: udivmoddi4_def Let_def c_udiv_def c_umod_def)
  next
    case 2
    note p = mod_power_of_two [OF and_pred_eq_0 [OF assms(3) 2(2)]]
    have "unat (ctzsi ?dh) = builtin_ctz ?dh"
      using p(3) by (simp add: ctzsi_def unat_of_nat)
    then show ?thesis
      using assms 2 q r p by (simp add: udivmoddi4_def Let_def)
  next
    case 3
    have "?dh \<noteq> 1"
      using 3(2) by auto
    then have "builtin_clz ?dh < 31"
      by (rule builtin_clz_not_1 [OF assms(3)])
    show ?thesis
    proof (cases "builtin_clz ?nh \<le> builtin_clz ?dh")
      case True
      let ?sr = "clzsi ?dh - clzsi ?nh"
      have sr: "unat ?sr = builtin_clz ?dh - builtin_clz ?nh"
        by (rule clzsi_sub(1) [OF assms(3,1) True])
      then have *: "\<not> 30 < ?sr" "unat (?sr + 1) = Suc (builtin_clz ?dh - builtin_clz ?nh)"
        "0 < unat (?sr + 1)" "unat (?sr + 1) < 32"
        using \<open>builtin_clz ?dh < 31\<close> by (simp_all add: word_less_nat_alt unat_word_ariths)
      show ?thesis
        unfolding udivmoddi4_def Let_def
        by (simp only: assms 3 *(1) if_True if_False simp_thms udivmoddi4_init(1,2) [OF *(3,4)]
            udivmoddi4_KK [OF assms(1,3) True *(2)])
    next
      case False
      then have "30 < clzsi ?dh - clzsi ?nh"
        using clzsi_sub(2) [OF assms(3,1)] by (simp add: word_less_nat_alt)
      moreover have "a div b = 0" "a mod b = a"
        using udivmod_less builtin_clz_less [OF _ assms(1,3)] False
        by (metis make_tu_s_high_s_low not_le)+
      ultimately show ?thesis
        using assms 3 by (simp add: udivmoddi4_def Let_def)
    qed
  qed
qed
lemma unat_numeral_32: "unat (32 :: u32) = 32" "unat (64 :: u32) = 64"
  by simp_all

lemma udivmoddi4_KX_KK:
  assumes "s_high a \<noteq> 0" "s_low b \<noteq> 0" "s_high b \<noteq> 0"
  shows "udivmoddi4 a b = Some (a div b, a mod b)"
proof (cases "builtin_clz (s_high a) \<le> builtin_clz (s_high b)")
  case True
  let ?sr = "clzsi (s_high b) - clzsi (s_high a)"
  have sr: "unat ?sr = builtin_clz (s_high b) - builtin_clz (s_high a)"
    by (rule clzsi_sub(1) [OF assms(3,1) True])
  have "builtin_clz (s_high b) < 32"
    using builtin_clz_bounds(1) [OF assms(3)] by simp
  then have *: "\<not> 31 < ?sr" "unat (?sr + 1) = Suc (builtin_clz (s_high b) - builtin_clz (s_high a))"
    "0 < unat (?sr + 1)" "unat (?sr + 1) \<le> 32"
    using sr by (simp_all add: word_less_nat_alt unat_word_ariths)
  show ?thesis
  proof (cases "?sr + 1 = 32")
    case True32: True
    then show ?thesis
      unfolding udivmoddi4_def Let_def True32
      by (simp only: assms *(1) if_True if_False simp_thms udivmoddi4_init(3,4) [OF unat_numeral_32(1)]
          udivmoddi4_KK [OF assms(1,3) True *(2) [unfolded True32]])
  next
    case False
    then have lt: "unat (?sr + 1) < 32"
      using *(4) by (metis le_neq_implies_less unat_numeral_32 unsigned_word_eqI)
    then show ?thesis
      unfolding udivmoddi4_def Let_def
      by (simp only: assms *(1) False if_True if_False simp_thms udivmoddi4_init(1,2) [OF *(3) lt]
          udivmoddi4_KK [OF assms(1,3) True *(2)])
  qed
next
  case False
  then have "31 < clzsi (s_high b) - clzsi (s_high a)"
    using clzsi_sub(2) [OF assms(3,1)] by simp
  moreover have "a div b = 0" "a mod b = a"
    using udivmod_less builtin_clz_less [OF _ assms(1,3)] False
    by (metis make_tu_s_high_s_low not_le)+
  ultimately show ?thesis
    using assms by (simp add: udivmoddi4_def Let_def)
qed
lemma udivmoddi4_KX_0K:
  assumes "s_high a \<noteq> 0" "s_low b \<noteq> 0" "s_high b = 0"
  shows "udivmoddi4 a b = Some (a div b, a mod b)"
proof (cases "s_low b AND (s_low b - 1) = 0")
  case True
  let ?k = "builtin_ctz (s_low b)"
  note p = and_pred_eq_0 [OF assms(2) True]
  note k = mod_power_of_two [OF p]
  have q: "a div b = drop_bit ?k a" and r: "a mod b = ucast (s_low a AND (s_low b - 1))"
    using udivmod_pow2_low [OF p, of "s_high a" "s_low a"] k(1) halves_of [OF assms(3) refl]
    by (metis make_tu_s_high_s_low)+
  have u: "unat (ctzsi (s_low b)) = ?k"
    using k(3) by (simp add: ctzsi_def unat_of_nat)
  show ?thesis
  proof (cases "s_low b = 1")
    case True
    then have "(2 :: nat) ^ ?k = 1"
      using p by simp
    then have "?k = 0"
      by simp
    then show ?thesis
      using True assms q r by (simp add: udivmoddi4_def Let_def)
  next
    case False
    then have "0 < unat (ctzsi (s_low b))"
      using p u by (metis gr0I power_0 unat_1 unsigned_word_eqI)
    moreover have "unat (ctzsi (s_low b)) < 32"
      using u k(3) by simp
    ultimately show ?thesis
      unfolding udivmoddi4_def Let_def
      by (simp only: assms True False if_True if_False simp_thms udivmoddi4_init q r) (simp only: u)
  qed
next
  case False
  let ?sr = "1 + 32 + clzsi (s_low b) - clzsi (s_high a)"
  have "s_low b \<noteq> 1"
    using False by auto
  then have le: "builtin_clz (s_low b) < 31" "builtin_clz (s_high a) < 32"
    using builtin_clz_not_1 [OF assms(2)] builtin_clz_bounds(1) [OF assms(1)] by simp_all
  have u: "unat (clzsi (s_low b)) = builtin_clz (s_low b)" "unat (clzsi (s_high a)) = builtin_clz (s_high a)"
    using le by (simp_all add: clzsi_def unat_of_nat)
  have sr: "unat ?sr = 33 + builtin_clz (s_low b) - builtin_clz (s_high a)"
    using u le by (simp add: unat_sub_if' unat_word_ariths word_le_nat_alt)
  then have bounds: "0 < unat ?sr" "unat ?sr < 64" "unat ?sr \<le> 64"
    using le by simp_all
  have fin: "udivmoddi4_finish b ?sr (drop_bit (unat ?sr) a) (push_bit (64 - unat ?sr) a) = (a div b, a mod b)"
    using udivmoddi4_0K [OF assms(1,3,2) sr bounds(3)] .
  consider "?sr = 32" | "?sr \<noteq> 32" "?sr < 32" | "?sr \<noteq> 32" "\<not> ?sr < 32" by blast
  then show ?thesis
  proof cases
    case 1
    then show ?thesis
      using fin unfolding udivmoddi4_def Let_def 1
      by (simp only: assms False if_True if_False simp_thms udivmoddi4_init(3,4) [OF unat_numeral_32(1)])
  next
    case 2
    then have "unat ?sr < 32"
      by (simp only: word_less_nat_alt unat_numeral_32)
    with 2 show ?thesis
      unfolding udivmoddi4_def Let_def
      by (simp only: assms False if_True if_False simp_thms udivmoddi4_init(1,2) bounds(1) fin)
  next
    case 3
    have "unat ?sr \<noteq> unat (32 :: u32)"
      using 3(1) unsigned_word_eqI by blast
    moreover have "\<not> unat ?sr < unat (32 :: u32)"
      using 3(2) unfolding word_less_nat_alt .
    ultimately have "32 < unat ?sr"
      unfolding unat_numeral_32 by linarith
    with 3 show ?thesis
      unfolding udivmoddi4_def Let_def
      by (simp only: assms False if_True if_False simp_thms udivmoddi4_init(5,6) bounds(2) fin)
  qed
qed

lemma udivmoddi4_correct: "b \<noteq> 0 \<Longrightarrow> udivmoddi4 a b = Some (a div b, a mod b)"
  using udivmoddi4_0X udivmoddi4_KX_K0 udivmoddi4_KX_KK udivmoddi4_KX_0K
  by (metis make_tu_0_0 make_tu_s_high_s_low)

lemma udivmoddi4_zero: "udivmoddi4 a 0 = None"
  by (simp add: udivmoddi4_def Let_def s_high_0 s_low_0 c_umod_def)

section \<open>Properties\<close>

text \<open>C2: \<^verbatim>\<open>__udivmoddi4\<close> returns quotient and remainder on every branch, and reaches a
  machine division by zero exactly when the divisor is zero.\<close>

theorem udivmoddi4_total:
  "udivmoddi4 a b = (if b = 0 then None else Some (a div b, a mod b))"
  by (simp add: udivmoddi4_zero udivmoddi4_correct)

end
