(* ===== verification/Int_Div_TI.thy ===== *)
theory Int_Div_TI
  imports Int_Div_DI
begin

text \<open>
  \<^verbatim>\<open>__udivmodti4\<close> (\<^verbatim>\<open>lib/builtins/udivmodti4.c\<close>): 128-bit division.  A
  divisor of 64 bits goes through \<^verbatim>\<open>udiv128by64to64default\<close>, Knuth's Algorithm D
  with two 32-bit quotient digits; a longer one through a shift-subtract loop.  The inline
  \<^verbatim>\<open>divq\<close> of the x86-64 build is the portable branch here.

  Shown: the two correction loops return (they are \<^theory_text>\<open>partial_function\<close>s,
  so this is part of the statement) and give the exact quotient digit, and
  \<^verbatim>\<open>__udivmodti4\<close> returns quotient and remainder for every non-zero divisor.
\<close>

section \<open>Algorithm D\<close>

partial_function (option) qhat_loop :: "u64 \<Rightarrow> u64 \<Rightarrow> u64 \<Rightarrow> u64 \<Rightarrow> u64 \<Rightarrow> (u64 \<times> u64) option" where
  "qhat_loop vn1 vn0 un q rhat =
    (let b = push_bit 32 1
     in if q \<ge> b \<or> q * vn0 > b * rhat + un then
          let q = q - 1; rhat = rhat + vn1
          in if rhat \<ge> b then Some (q, rhat) else qhat_loop vn1 vn0 un q rhat
        else Some (q, rhat))"

declare qhat_loop.simps [code]

definition normalize :: "u64 \<Rightarrow> u64 \<Rightarrow> u64 \<Rightarrow> u64 \<times> u64 \<times> u64" where
  "normalize u1 u0 v =
    (let s = builtin_clz v
     in if s > 0 then (push_bit s v, push_bit s u1 OR drop_bit (64 - s) u0, push_bit s u0)
        else (v, u1, u0))"

definition udiv128by64to64default :: "u64 \<Rightarrow> u64 \<Rightarrow> u64 \<Rightarrow> (u64 \<times> u64) option" where
  "udiv128by64to64default u1 u0 v = do {
     let b = push_bit 32 1;
     check (v \<noteq> 0);
     let s = builtin_clz v;
     let (v, un64, un10) = normalize u1 u0 v;
     let vn1 = drop_bit 32 v;
     let vn0 = v AND 0xFFFFFFFF;
     let un1 = drop_bit 32 un10;
     let un0 = un10 AND 0xFFFFFFFF;
     q1 \<leftarrow> c_udiv un64 vn1;
     let rhat = un64 - q1 * vn1;
     (q1, rhat) \<leftarrow> qhat_loop vn1 vn0 un1 q1 rhat;
     let un21 = un64 * b + un1 - q1 * v;
     q0 \<leftarrow> c_udiv un21 vn1;
     let rhat = un21 - q0 * vn1;
     (q0, rhat) \<leftarrow> qhat_loop vn1 vn0 un0 q0 rhat;
     Some (q1 * b + q0, drop_bit s (un21 * b + un0 - q0 * v))
   }"

definition udiv128by64to64 :: "u64 \<Rightarrow> u64 \<Rightarrow> u64 \<Rightarrow> (u64 \<times> u64) option" where
  "udiv128by64to64 u1 u0 v = udiv128by64to64default u1 u0 v"

section \<open>\<^verbatim>\<open>__udivmodti4\<close>\<close>

fun udivmodti4_loop :: "nat \<Rightarrow> u64 \<Rightarrow> u128 \<Rightarrow> u128 \<Rightarrow> u64 \<times> u128" where
  "udivmodti4_loop 0 quo dividend divisor = (quo, dividend)"
| "udivmodti4_loop (Suc shift) quo dividend divisor =
    (let quo = push_bit 1 quo;
         s = signed_drop_bit 127 (divisor - dividend - 1);
         quo = quo OR ucast (s AND 1);
         dividend = dividend - (divisor AND s);
         divisor = drop_bit 1 divisor
     in udivmodti4_loop shift quo dividend divisor)"

definition udivmodti4 :: "u128 \<Rightarrow> u128 \<Rightarrow> (u128 \<times> u128) option" where
  "udivmodti4 a b =
    (if b > a then Some (0, a)
     else if s_high b = 0 then
       if s_high a < s_low b then do {
         (q_low, r_low) \<leftarrow> udiv128by64to64 (s_high a) (s_low a) (s_low b);
         Some (make_tu 0 q_low, make_tu 0 r_low)
       }
       else do {
         q_high \<leftarrow> c_udiv (s_high a) (s_low b);
         a_high \<leftarrow> c_umod (s_high a) (s_low b);
         (q_low, r_low) \<leftarrow> udiv128by64to64 a_high (s_low a) (s_low b);
         Some (make_tu q_high q_low, make_tu 0 r_low)
       }
     else
       let shift = int (builtin_clz (s_high b)) - int (builtin_clz (s_high a));
           (q_low, dividend) = udivmodti4_loop (nat (shift + 1)) 0 a (push_bit (nat shift) b)
       in Some (make_tu 0 q_low, dividend))"

section \<open>Correctness\<close>

lemma qhat_step_math:
  fixes q v1 v0 u un r B :: int
  assumes "q * v1 + r = u" "v = v1 * B + v0" "0 < v1" "0 \<le> v0" "v0 < B" "0 \<le> un" "un < B" "0 < v"
    "u < v"
  shows "q * v0 > B * r + un \<longleftrightarrow> (u * B + un) div v < q"
    and "(u * B + un) div v < B"
    and "B \<le> r \<Longrightarrow> 0 \<le> q \<Longrightarrow> q \<le> (u * B + un) div v"
proof -
  have eq: "q * v - (u * B + un) = q * v0 - (B * r + un)"
    unfolding assms(2) assms(1) [symmetric] by algebra
  show "q * v0 > B * r + un \<longleftrightarrow> (u * B + un) div v < q"
    using eq assms(8) by (auto simp: div_less_iff_int)
  have "u * B + un < (u + 1) * B"
    using assms(7) by (simp add: algebra_simps)
  also have "\<dots> \<le> v * B"
    using assms by (intro mult_right_mono) auto
  finally show "(u * B + un) div v < B"
    using assms(8) by (simp add: div_less_iff_int mult.commute)
  show "q \<le> (u * B + un) div v" if "B \<le> r" "0 \<le> q"
  proof -
    have "q * v1 < v1 * B"
      using assms(1,2,5,9) that(1) by linarith
    then have "q < B"
      using assms(3) by (simp add: mult.commute [of v1])
    then have "q * v0 \<le> B * B"
      using assms that by (intro mult_mono) auto
    also have "\<dots> \<le> B * r"
      using assms that by (intro mult_left_mono) auto
    finally have "q * v0 \<le> B * r + un"
      using assms(6) by simp
    then show ?thesis
      using eq assms(8) by (simp add: le_div_iff_int) 
  qed
qed
lemma qhat_loop_correct:
  fixes vn1 vn0 un q rhat :: u64 and U v :: int
  assumes v: "v = uint vn1 * 2 ^ 32 + uint vn0" "2 ^ 31 \<le> uint vn1" "uint vn0 < 2 ^ 32" "uint vn1 < 2 ^ 32"
    and un: "uint un < 2 ^ 32" and U: "u < v" "Q = (u * 2 ^ 32 + uint un) div v"
  shows "uint q * uint vn1 + uint rhat = u \<Longrightarrow> uint rhat < 2 ^ 32 \<Longrightarrow> Q \<le> uint q \<Longrightarrow>
    \<exists>r. qhat_loop vn1 vn0 un q rhat = Some (word_of_int Q, r)"
proof (induction "nat (uint q - Q)" arbitrary: q rhat rule: less_induct)
  case less
  have vn1: "0 < uint vn1"
    using v(2) by simp
  then have v0: "0 < v"
    using v(1) by (simp add: add_pos_nonneg)
  have "0 \<le> u"
    using less.prems(1) by (metis add_nonneg_nonneg mult_nonneg_nonneg uint_ge_0)
  then have Q0: "0 \<le> Q"
    using v0 U(2) by (simp add: pos_imp_zdiv_nonneg_iff)
  note math = qhat_step_math [OF less.prems(1) v(1) vn1 _ v(3) _ un v0 U(1), folded U(2), simplified]
  have b: "uint (push_bit 32 1 :: u64) = 2 ^ 32"
    by simp
  have rb: "uint (push_bit 32 1 * rhat + un) = 2 ^ 32 * uint rhat + uint un"
  proof -
    have "uint (push_bit 32 1 * rhat :: u64) = 2 ^ 32 * uint rhat"
      unfolding b [symmetric] using less.prems(2) by (intro uint_mult_nowrap) simp
    then show ?thesis
      using less.prems(2) un by (subst uint_plus_nowrap) simp_all
  qed
  have c: "push_bit 32 1 \<le> q \<or> push_bit 32 1 * rhat + un < q * vn0 \<longleftrightarrow> Q < uint q"
  proof (cases "push_bit 32 1 \<le> q")
    case True
    then show ?thesis
      using math(2) by (simp add: word_le_def)
  next
    case False
    then have "uint q < 2 ^ 32" by (simp add: word_le_def)
    then have "uint (q * vn0) = uint q * uint vn0"
      using v(3) mult_strict_mono [of "uint q" "2 ^ 32" "uint vn0" "2 ^ 32"]
      by (intro uint_mult_nowrap) simp
    then show ?thesis
      using False rb math(1) by (simp add: word_less_def)
  qed
  show ?case
  proof (cases "Q < uint q")
    case False
    then show ?thesis
      using less.prems(3) c by (subst qhat_loop.simps) (simp add: Let_def)
  next
    case True
    let ?q = "q - 1" and ?r = "rhat + vn1"
    have q: "uint ?q = uint q - 1"
      using True Q0 by (subst uint_minus_nowrap) auto
    have r: "uint ?r = uint rhat + uint vn1"
      using less.prems(2) v(4) by (subst uint_plus_nowrap) simp_all
    have inv: "uint ?q * uint vn1 + uint ?r = u"
      unfolding q r less.prems(1) [symmetric] by algebra
    show ?thesis
    proof (cases "push_bit 32 1 \<le> ?r")
      case brk: True
      have "uint ?q \<le> Q"
        unfolding U(2) using qhat_step_math(3) [OF inv v(1) vn1 _ v(3) _ un v0 U(1)] brk
        by (simp add: word_le_def)
      then have "uint ?q = Q"
        using True q by simp
      then have "?q = word_of_int Q" by (metis word_of_int_uint)
      then show ?thesis
        using brk c True by (subst qhat_loop.simps) (simp add: Let_def)
    next
      case cont: False
      have "nat (uint ?q - Q) < nat (uint q - Q)"
        using True q by simp
      then have "\<exists>r. qhat_loop vn1 vn0 un ?q ?r = Some (word_of_int Q, r)"
        using inv cont True q by (intro less.hyps) (simp_all add: word_le_def)
      then show ?thesis
        using cont c True by (subst qhat_loop.simps) (simp add: Let_def)
    qed
  qed
qed
lemma qhat_digit:
  fixes vn1 vn0 un u v :: u64
  assumes v: "uint v = uint vn1 * 2 ^ 32 + uint vn0" "2 ^ 31 \<le> uint vn1" "uint vn0 < 2 ^ 32" "uint vn1 < 2 ^ 32"
    and un: "uint un < 2 ^ 32" and U: "uint u < uint v"
  obtains q r where "qhat_loop vn1 vn0 un (u div vn1) (u - u div vn1 * vn1) = Some (q, r)"
    and "uint q = (uint u * 2 ^ 32 + uint un) div uint v"
    and "uint (u * push_bit 32 1 + un - q * v) = (uint u * 2 ^ 32 + uint un) mod uint v"
proof -
  define X where "X = uint u * 2 ^ 32 + uint un"
  define Q where "Q = X div uint v"
  have X: "0 \<le> X"
    by (simp add: X_def)
  have vn1: "0 < uint vn1"
    using v(2) by simp
  then have v0: "0 < uint v"
    using v(1) by (simp add: add_pos_nonneg)
  have "Q \<le> X div (2 ^ 32 * uint vn1)"
    unfolding Q_def using vn1 X v(1) by (intro zdiv_mono2) auto
  also have "\<dots> = uint (u div vn1)"
    using un by (simp add: X_def zdiv_zmult2_eq uint_div_distrib)
  finally have le: "Q \<le> uint (u div vn1)" .
  have rhat: "u - u div vn1 * vn1 = u mod vn1"
    by (simp add: minus_div_mult_eq_mod)
  have "uint (u mod vn1) < uint vn1"
    using vn1 by (simp add: uint_mod_distrib)
  then have "\<exists>r. qhat_loop vn1 vn0 un (u div vn1) (u mod vn1) = Some (word_of_int Q, r)"
    using qhat_loop_correct [OF v un U Q_def [unfolded X_def] _ _ le] v(4)
    by (simp add: uint_div_distrib uint_mod_distrib)
  then obtain r where "qhat_loop vn1 vn0 un (u div vn1) (u - u div vn1 * vn1) = Some (word_of_int Q, r)"
    unfolding rhat by blast
  moreover have "uint (word_of_int Q :: u64) = Q"
    using qhat_step_math(2) [of 0 "uint vn1" "uint u", OF _ v(1) vn1 _ v(3) _ un v0 U] v0 X
    by (simp add: uint_word_of_int_eq take_bit_int_eq_self Q_def X_def pos_imp_zdiv_nonneg_iff)
  moreover have "uint (u * push_bit 32 1 + un - word_of_int Q * v) = X mod uint v"
  proof -
    have "u * push_bit 32 1 + un - word_of_int Q * v = word_of_int (X - Q * uint v)"
      by (simp add: X_def push_bit_eq_mult)
    also have "X - Q * uint v = X mod uint v"
      unfolding Q_def by (rule minus_div_mult_eq_mod)
    finally have "uint (u * push_bit 32 1 + un - word_of_int Q * v) = uint (word_of_int (X mod uint v) :: u64)"
      by (simp only:)
    also have "\<dots> = X mod uint v"
      using v0 uint_lt_2p [of v] pos_mod_bound [OF v0, of X] pos_mod_sign [OF v0, of X]
      by (simp only: uint_word_of_int_eq) (simp add: take_bit_int_eq_self)
    finally show ?thesis .
  qed
  ultimately show thesis
    using that unfolding Q_def X_def by metis
qed
lemma clz_normalizes:
  fixes v :: "'a::len word"
  assumes "v \<noteq> 0"
  shows "uint v * 2 ^ builtin_clz v < 2 ^ LENGTH('a)" "2 ^ (LENGTH('a) - 1) \<le> uint v * 2 ^ builtin_clz v"
proof -
  note c = builtin_clz_bounds [OF assms]
  have "unat v * 2 ^ builtin_clz v < 2 ^ (LENGTH('a) - builtin_clz v) * 2 ^ builtin_clz v"
    using c(3) by simp
  also have "\<dots> = 2 ^ LENGTH('a)"
    using c(1) by (simp flip: power_add)
  finally have "int (unat v * 2 ^ builtin_clz v) < int (2 ^ LENGTH('a))"
    by (simp only: of_nat_less_iff)
  then show "uint v * 2 ^ builtin_clz v < 2 ^ LENGTH('a)"
    by simp
  have "2 ^ (LENGTH('a) - Suc (builtin_clz v)) * 2 ^ builtin_clz v \<le> unat v * 2 ^ builtin_clz v"
    using c(2) by simp
  moreover have "2 ^ (LENGTH('a) - Suc (builtin_clz v)) * 2 ^ builtin_clz v = (2 :: nat) ^ (LENGTH('a) - 1)"
    using c(1) by (simp flip: power_add)
  ultimately have "int (2 ^ (LENGTH('a) - 1)) \<le> int (unat v * 2 ^ builtin_clz v)"
    by (simp only: of_nat_le_iff)
  then show "2 ^ (LENGTH('a) - 1) \<le> uint v * 2 ^ builtin_clz v"
    by simp
qed

lemma normalize_correct:
  assumes "normalize u1 u0 v = (v', un64, un10)" "u1 < v" "s = builtin_clz v"
  shows "uint v' = uint v * 2 ^ s" "2 ^ 63 \<le> uint v'" "uint un64 < uint v'"
    "uint un64 * 2 ^ 64 + uint un10 = (uint u1 * 2 ^ 64 + uint u0) * 2 ^ s"
proof -
  have v: "v \<noteq> 0"
    using assms(2) by auto
  note c = clz_normalizes [OF v, folded assms(3)]
  have s: "s < 64"
    using builtin_clz_bounds(1) [OF v] assms(3) by simp
  have "uint u1 + 1 \<le> uint v"
    using assms(2) by (simp add: word_less_def)
  then have "(uint u1 + 1) * 2 ^ s \<le> uint v * 2 ^ s"
    by (intro mult_right_mono) simp_all
  then have u1: "uint u1 * 2 ^ s + 2 ^ s \<le> uint v * 2 ^ s"
    by (simp add: algebra_simps)
  have *: "(uint u1 * 2 ^ 64 + uint u0) * 2 ^ s < uint v * 2 ^ s * 2 ^ 64"
  proof -
    have "(uint u1 * 2 ^ 64 + uint u0) * 2 ^ s < (uint u1 + 1) * 2 ^ 64 * 2 ^ s"
      using uint_lt_2p [of u0] by (intro mult_strict_right_mono) simp_all
    also have "\<dots> \<le> uint v * 2 ^ s * 2 ^ 64"
      using u1 by (simp add: algebra_simps)
    finally show ?thesis .
  qed
  have eq: "v' = push_bit s v" "make_tu un64 un10 = push_bit s (make_tu u1 u0)"
    using assms(1,3) push_bit_double_lo [of s "make_tu u1 u0"] s
    by (auto simp: normalize_def Let_def s_low_make_tu s_high_make_tu split: if_splits)
  show v': "uint v' = uint v * 2 ^ s"
    unfolding eq using c(1) by (rule uint_push_bit_nowrap)
  show "2 ^ 63 \<le> uint v'"
    unfolding v' using c(2) by simp
  have "uint (push_bit s (make_tu u1 u0)) = uint (make_tu u1 u0) * 2 ^ s"
  proof (rule uint_push_bit_nowrap)
    have "uint v * 2 ^ s * 2 ^ 64 < 2 ^ 64 * 2 ^ 64"
      using c(1) by simp
    from less_trans [OF * this] show "uint (make_tu u1 u0) * 2 ^ s < 2 ^ LENGTH(128)"
      unfolding uint_make_tu by (simp del: mult_less_cancel_right)
  qed
  then show N: "uint un64 * 2 ^ 64 + uint un10 = (uint u1 * 2 ^ 64 + uint u0) * 2 ^ s"
    unfolding eq(2) [symmetric] uint_make_tu by simp
  have "uint un64 * 2 ^ 64 < uint v * 2 ^ s * 2 ^ 64"
    using * uint_ge_0 [of un10] unfolding N [symmetric] by linarith
  then show "uint un64 < uint v'"
    unfolding v' by simp
qed
lemma two_digit_division:
  fixes B u1 a1 a0 v q1 r1 q0 r0 :: int
  assumes "q1 = (u1 * B + a1) div v" "r1 = (u1 * B + a1) mod v"
    and "q0 = (r1 * B + a0) div v" "r0 = (r1 * B + a0) mod v" and "0 < v"
  shows "((u1 * B + a1) * B + a0) div v = q1 * B + q0" "((u1 * B + a1) * B + a0) mod v = r0"
proof -
  have "u1 * B + a1 = q1 * v + r1" "r1 * B + a0 = q0 * v + r0"
    using assms(1-4) by simp_all
  then have "(u1 * B + a1) * B + a0 = (q1 * B + q0) * v + r0"
    by algebra
  moreover have "0 \<le> r0" "r0 < v"
    using assms(4,5) by simp_all
  ultimately show "((u1 * B + a1) * B + a0) div v = q1 * B + q0" "((u1 * B + a1) * B + a0) mod v = r0"
    by simp_all
qed

lemma uint_split32:
  fixes w :: u64
  shows "uint w = uint (drop_bit 32 w) * 2 ^ 32 + uint (w AND 0xFFFFFFFF)"
    and "uint (drop_bit 32 w) < 2 ^ 32" and "uint (w AND 0xFFFFFFFF) < 2 ^ 32"
proof -
  have "w AND 0xFFFFFFFF = take_bit 32 w"
    by (simp add: take_bit_eq_mask mask_eq_exp_minus_1)
  then have l: "uint (w AND 0xFFFFFFFF) = uint w mod 2 ^ 32"
    by (simp only: unsigned_take_bit_eq) (simp add: take_bit_eq_mod)
  have h: "uint (drop_bit 32 w) = uint w div 2 ^ 32"
    by (rule uint_drop_bit_div)
  show "uint w = uint (drop_bit 32 w) * 2 ^ 32 + uint (w AND 0xFFFFFFFF)"
    unfolding l h by simp
  show "uint (w AND 0xFFFFFFFF) < 2 ^ 32"
    unfolding l by simp
  show "uint (drop_bit 32 w) < 2 ^ 32"
    unfolding h using uint_lt_2p [of w] by (intro int_div_less_pos) simp_all
qed

lemma udiv128by64to64default_correct:
  assumes "u1 < v"
  shows "\<exists>q r. udiv128by64to64default u1 u0 v = Some (q, r) \<and>
    uint q = (uint u1 * 2 ^ 64 + uint u0) div uint v \<and> uint r = (uint u1 * 2 ^ 64 + uint u0) mod uint v"
proof -
  obtain v' un64 un10 where nv: "normalize u1 u0 v = (v', un64, un10)"
    using prod_cases3 by blast
  define s where "s = builtin_clz v"
  note n = normalize_correct [OF nv assms s_def]
  let ?vn1 = "drop_bit 32 v'" and ?vn0 = "v' AND 0xFFFFFFFF"
  note sv = uint_split32 [of v'] and su = uint_split32 [of un10]
  have vn1: "2 ^ 31 \<le> uint ?vn1"
    using n(2) sv(1,3) by simp
  have vpos: "0 < uint v'"
    using n(2) by simp
  obtain q1 r1 where q1: "qhat_loop ?vn1 ?vn0 (drop_bit 32 un10) (un64 div ?vn1) (un64 - un64 div ?vn1 * ?vn1) = Some (q1, r1)"
     "uint q1 = (uint un64 * 2 ^ 32 + uint (drop_bit 32 un10)) div uint v'"
     "uint (un64 * push_bit 32 1 + drop_bit 32 un10 - q1 * v') = (uint un64 * 2 ^ 32 + uint (drop_bit 32 un10)) mod uint v'"
    by (rule qhat_digit [OF sv(1) vn1 sv(3,2) su(2) n(3)])
  define un21 where "un21 = un64 * push_bit 32 1 + drop_bit 32 un10 - q1 * v'"
  have un21: "uint un21 < uint v'"
    unfolding un21_def q1(3) using vpos by simp
  obtain q0 r0 where q0: "qhat_loop ?vn1 ?vn0 (un10 AND 0xFFFFFFFF) (un21 div ?vn1) (un21 - un21 div ?vn1 * ?vn1) = Some (q0, r0)"
     "uint q0 = (uint un21 * 2 ^ 32 + uint (un10 AND 0xFFFFFFFF)) div uint v'"
     "uint (un21 * push_bit 32 1 + (un10 AND 0xFFFFFFFF) - q0 * v') = (uint un21 * 2 ^ 32 + uint (un10 AND 0xFFFFFFFF)) mod uint v'"
    by (rule qhat_digit [OF sv(1) vn1 sv(3,2) su(3) un21])
  define R where "R = un21 * push_bit 32 1 + (un10 AND 0xFFFFFFFF) - q0 * v'"
  have nz: "?vn1 \<noteq> 0" "v \<noteq> 0"
    using vn1 assms by auto
  have run: "udiv128by64to64default u1 u0 v = Some (q1 * push_bit 32 1 + q0, drop_bit s R)"
    unfolding udiv128by64to64default_def c_udiv_def Let_def nv check_bind s_def [symmetric] R_def
    by (simp only: nz if_True if_False prod.case bind.simps q1(1) q0(1) un21_def [symmetric]
        simp_thms)
  let ?N = "uint u1 * 2 ^ 64 + uint u0"
  have X: "(uint un64 * 2 ^ 32 + uint (drop_bit 32 un10)) * 2 ^ 32 + uint (un10 AND 0xFFFFFFFF) = ?N * 2 ^ s"
    unfolding n(4) [symmetric] using su(1) by simp
  note digits = two_digit_division [OF q1(2) q1(3) [folded un21_def] q0(2) q0(3) [folded R_def] vpos,
      unfolded X n(1) div_mult_mult2 [of "2 ^ s", simplified] mod_mult_mult2]
  have "?N div uint v < 2 ^ 64"
  proof (rule int_div_less_pos)
    have "?N < (uint u1 + 1) * 2 ^ 64"
      using uint_lt_2p [of u0] by simp
    also have "\<dots> \<le> 2 ^ 64 * uint v"
      using assms by (simp add: word_less_def)
    finally show "?N < 2 ^ 64 * uint v" .
    show "0 < uint v"
      using assms uint_ge_0 [of u1] unfolding word_less_def by linarith
  qed
  then have "uint q1 * 2 ^ 32 + uint q0 < 2 ^ 64"
    using digits(1) by simp
  moreover from this have "uint q1 * 2 ^ 32 < 2 ^ 64"
    using uint_ge_0 [of q0] by linarith
  then have "uint (q1 * push_bit 32 1) = uint q1 * 2 ^ 32"
    using uint_mult_nowrap [of q1 "push_bit 32 1"] by simp
  ultimately have "uint (q1 * push_bit 32 1 + q0) = uint q1 * 2 ^ 32 + uint q0"
    by (subst uint_plus_nowrap) simp_all
  then have "uint (q1 * push_bit 32 1 + q0) = ?N div uint v"
    using digits(1) by simp
  moreover have "uint (drop_bit s R) = ?N mod uint v"
    unfolding uint_drop_bit_div digits(2) [symmetric] by simp
  ultimately show ?thesis
    using run by blast
qed

lemma udivmodti4_loop_correct:
  fixes A b :: nat
  assumes "A < b * 2 ^ 64" "0 < b"
  shows "k = 0 \<or> unat d = b * 2 ^ (k - 1) \<Longrightarrow> unat n < b * 2 ^ k \<Longrightarrow>
    A = unat q * 2 ^ k * b + unat n \<Longrightarrow> unat d \<le> 2 ^ 127 \<or> 2 ^ 127 \<le> unat n \<Longrightarrow>
    (case udivmodti4_loop k q n d of (q', n') \<Rightarrow> unat q' = A div b \<and> unat n' = A mod b)"
proof (induction k arbitrary: q n d)
  case 0
  then show ?case
    by simp
next
  case (Suc k)
  have d: "unat d = b * 2 ^ k" and n: "unat n < 2 * unat d"
    using Suc.prems(1,2) by simp_all
  have lt: "unat x < 2 * 2 ^ 127" for x :: u128
    using unat_lt_2p [of x] by simp
  have "unat d \<le> unat n + 2 ^ 127" "unat n < unat d + 2 ^ 127"
    using Suc.prems(4) n lt [of n] lt [of d] by linarith+
  then have s: "signed_drop_bit 127 (d - n - 1) = (if d \<le> n then - 1 else 0)"
    by (intro sign_test_nat) simp_all
  let ?n = "if d \<le> n then n - d else n" and ?q = "push_bit 1 q OR (if d \<le> n then 1 else 0)"
  have step: "udivmodti4_loop (Suc k) q n d = udivmodti4_loop k ?q ?n (drop_bit 1 d)"
    by (simp only: udivmodti4_loop.simps Let_def s) simp
  have n': "unat ?n = (if unat d \<le> unat n then unat n - unat d else unat n)"
    by (simp add: unat_sub word_le_nat_alt)
  have "unat q * 2 ^ Suc k * b \<le> A"
    using Suc.prems(3) by simp
  then have "unat q * 2 ^ Suc k * b < 2 ^ 64 * b"
    using assms(1) unfolding mult.commute [of b] by linarith
  then have "unat q * 2 ^ Suc k < 2 ^ 64"
    using assms(2) by simp
  moreover have "2 * unat q \<le> unat q * 2 ^ Suc k"
    by simp
  ultimately have "2 * unat q < 2 ^ 64"
    by linarith
  then have q': "unat ?q = 2 * unat q + (if unat d \<le> unat n then 1 else 0)"
    by (subst unat_shift_in) (auto simp: word_le_nat_alt)
  show ?case
    unfolding step
  proof (rule Suc.IH)
    show "k = 0 \<or> unat (drop_bit 1 d) = b * 2 ^ (k - 1)"
      by (cases k) (simp_all add: unat_drop_bit_div d)
    show "unat ?n < b * 2 ^ k"
      using n d unfolding n' by auto
    show "A = unat ?q * 2 ^ k * b + unat ?n"
      unfolding q' n' Suc.prems(3) d by (auto simp: algebra_simps)
    show "unat (drop_bit 1 d) \<le> 2 ^ 127 \<or> 2 ^ 127 \<le> unat ?n"
      using lt [of d] by (intro disjI1) (simp add: unat_drop_bit_div)
  qed
qed

lemma udivmodti4_run:
  assumes "a \<noteq> 0" "b \<noteq> 0" and "k \<le> 63" "builtin_clz b = builtin_clz a + k"
  shows "case udivmodti4_loop (Suc k) 0 a (push_bit k b) of (q, n) \<Rightarrow>
      unat q = unat a div unat b \<and> unat n = unat a mod unat b"
proof -
  note A = builtin_clz_bounds [OF assms(1)] and B = builtin_clz_bounds [OF assms(2)]
  define J where "J = 127 - builtin_clz b"
  have J: "128 - builtin_clz b = Suc J" "128 - Suc (builtin_clz b) = J"
    "128 - builtin_clz a = Suc (J + k)" "128 - Suc (builtin_clz a) = J + k" "J + k \<le> 127"
    using B(1) assms(4) by (simp_all add: J_def)
  have a: "2 ^ J * 2 ^ k \<le> unat a" "unat a < 2 * 2 ^ J * 2 ^ k"
    and b: "2 ^ J \<le> unat b" "unat b < 2 * 2 ^ J"
    using A(2,3) B(2,3) J by (simp_all add: power_add)
  have b1: "2 ^ J * 2 ^ k \<le> unat b * 2 ^ k" and b2: "unat b * 2 ^ k < 2 * 2 ^ J * 2 ^ k"
    using b by simp_all
  have JK: "(2 :: nat) ^ J * 2 ^ k \<le> 2 ^ 127"
    unfolding power_add [symmetric] using J(5) by (intro power_increasing) simp_all
  have "unat b * 2 ^ k < 2 * 2 ^ 127"
    using b2 JK by linarith
  then have d: "unat (push_bit k b) = unat b * 2 ^ k"
    by (intro unat_push_bit_nowrap) simp
  have n: "unat a < unat b * 2 ^ Suc k"
    unfolding power_Suc using a(2) b1 by linarith
  also have "\<dots> \<le> unat b * 2 ^ 64"
    using assms(3) by (intro mult_left_mono power_increasing) simp_all
  finally have "unat a < unat b * 2 ^ 64" .
  moreover have "unat (push_bit k b) \<le> 2 ^ 127 \<or> 2 ^ 127 \<le> unat a"
  proof (cases "J + k = 127")
    case True
    then show ?thesis
      using a(1) unfolding power_add [symmetric] by simp
  next
    case False
    then have "(2 :: nat) ^ Suc (J + k) \<le> 2 ^ 127"
      using J(5) by (intro power_increasing) simp_all
    then have "2 * 2 ^ J * 2 ^ k \<le> (2 :: nat) ^ 127"
      by (simp only: power_Suc power_add mult.assoc)
    then show ?thesis
      unfolding d using b2 by linarith
  qed
  ultimately show ?thesis
    using assms(2) d n by (intro udivmodti4_loop_correct) (simp_all add: unat_gt_0)
qed

lemma udivmodti4_long:
  assumes "b \<le> a" "s_high b \<noteq> 0"
  shows "udivmodti4 a b = Some (a div b, a mod b)"
proof -
  let ?nh = "s_high a" and ?dh = "s_high b"
  have le: "?dh \<le> ?nh"
    using make_tu_less [of ?nh ?dh "s_low a" "s_low b"] assms(1)
    by (simp add: make_tu_s_high_s_low) (meson leD not_le)
  then have nz: "?nh \<noteq> 0"
    using assms(2) by auto
  have clz: "builtin_clz ?nh \<le> builtin_clz ?dh"
    using builtin_clz_less [OF _ nz assms(2)] le by (meson leD not_le)
  define k where "k = builtin_clz ?dh - builtin_clz ?nh"
  have ca: "builtin_clz a = builtin_clz ?nh" and cb: "builtin_clz b = builtin_clz ?dh"
    using builtin_clz_make_tu [of ?nh "s_low a", unfolded make_tu_s_high_s_low]
      builtin_clz_make_tu [of ?dh "s_low b", unfolded make_tu_s_high_s_low] assms nz by simp_all
  have ab: "a \<noteq> 0" "b \<noteq> 0"
    using nz assms(2) by (auto simp: s_high_0)
  have "k \<le> 63" "builtin_clz b = builtin_clz a + k"
    using builtin_clz_bounds(1) [OF assms(2)] clz by (simp_all add: k_def ca cb)
  note run = udivmodti4_run [OF ab this]
  obtain q n where qn: "udivmodti4_loop (Suc k) 0 a (push_bit k b) = (q, n)"
    by force
  have "nat (int (builtin_clz ?dh) - int (builtin_clz ?nh) + 1) = Suc k"
    "nat (int (builtin_clz ?dh) - int (builtin_clz ?nh)) = k"
    using clz by (auto simp: k_def)
  then have "udivmodti4 a b = Some (make_tu 0 q, n)"
    using assms qn unfolding udivmodti4_def Let_def by (simp only: if_False not_less [symmetric]) simp
  moreover have "make_tu 0 q = a div b" "n = a mod b"
    using run qn by (auto intro!: unsigned_word_eqI [where 'a = nat]
        simp: unat_make_tu unat_div_distrib unat_mod_distrib)
  ultimately show ?thesis
    by simp
qed

lemma udivmod_short:
  fixes nh nl dl q r :: "'h::len word"
  assumes "dl \<noteq> 0"
    and "uint q = (uint (nh mod dl) * 2 ^ LENGTH('h) + uint nl) div uint dl"
    and "uint r = (uint (nh mod dl) * 2 ^ LENGTH('h) + uint nl) mod uint dl"
  shows "make_tu nh nl div make_tu 0 dl = make_tu (nh div dl) q"
    and "make_tu nh nl mod make_tu 0 dl = make_tu 0 r"
proof -
  let ?B = "2 ^ LENGTH('h) :: int"
  have nh: "uint nh = uint (nh div dl) * uint dl + uint (nh mod dl)"
    by (simp add: uint_div_distrib uint_mod_distrib)
  have dl: "0 < uint dl"
    using assms(1) by (simp add: word_neq_0_conv word_less_def)
  have "uint nh * ?B + uint nl = (uint (nh mod dl) * ?B + uint nl) + uint (nh div dl) * ?B * uint dl"
    unfolding nh by algebra
  then have "(uint nh * ?B + uint nl) div uint dl = uint (nh div dl) * ?B + uint q"
    "(uint nh * ?B + uint nl) mod uint dl = uint r"
    using dl by (simp_all only: assms(2,3) div_mult_self1 mod_mult_self1)
  then show "make_tu nh nl div make_tu 0 dl = make_tu (nh div dl) q"
    "make_tu nh nl mod make_tu 0 dl = make_tu 0 r"
    by (simp_all add: word_eq_iff_uint uint_make_tu uint_div_distrib uint_mod_distrib)
qed

lemma udivmodti4_short:
  assumes "b \<le> a" "s_high b = 0" "b \<noteq> 0"
  shows "udivmodti4 a b = Some (a div b, a mod b)"
proof -
  let ?h = "s_high a mod s_low b"
  have dl: "s_low b \<noteq> 0"
    using halves_of [OF assms(2) refl] assms(3) by (auto simp: make_tu_0_0)
  then have "?h < s_low b"
    by (simp add: word_mod_less_divisor word_gt_0)
  then obtain q r where run: "udiv128by64to64default ?h (s_low a) (s_low b) = Some (q, r)"
    and qr: "uint q = (uint ?h * 2 ^ 64 + uint (s_low a)) div uint (s_low b)"
      "uint r = (uint ?h * 2 ^ 64 + uint (s_low a)) mod uint (s_low b)"
    using udiv128by64to64default_correct by blast
  have "a div b = make_tu (s_high a div s_low b) q" "a mod b = make_tu 0 r"
    using udivmod_short [OF dl, of q "s_high a" "s_low a" r] qr
    by (simp_all add: make_tu_s_high_s_low flip: halves_of [OF assms(2) refl])
  moreover have "udivmodti4 a b = Some (make_tu (s_high a div s_low b) q, make_tu 0 r)"
  proof (cases "s_high a < s_low b")
    case True
    then have "?h = s_high a" "s_high a div s_low b = 0"
      by (simp_all add: mod_word_less div_word_less)
    then show ?thesis
      using True run assms by (auto simp: udivmodti4_def udiv128by64to64_def)
  next
    case False
    then show ?thesis
      using run assms dl by (auto simp: udivmodti4_def udiv128by64to64_def c_udiv_def c_umod_def)
  qed
  ultimately show ?thesis by simp
qed

lemma udivmodti4_correct: "b \<noteq> 0 \<Longrightarrow> udivmodti4 a b = Some (a div b, a mod b)"
  using udivmodti4_short [of b a] udivmodti4_long [of b a]
  by (cases "a < b") (auto simp: udivmodti4_def div_word_less mod_word_less not_less)

lemma udivmodti4_zero: "udivmodti4 a 0 = None"
  by (simp add: udivmodti4_def s_high_0 s_low_0 c_udiv_def)

section \<open>Properties\<close>

text \<open>C1: \<^verbatim>\<open>__udivmodti4\<close> returns quotient and remainder for every non-zero divisor,
  whether it goes through Algorithm D or through the shift-subtract loop, and reaches a machine
  division by zero when the divisor is zero.\<close>

theorem udivmodti4_total:
  "udivmodti4 a b = (if b = 0 then None else Some (a div b, a mod b))"
  by (simp add: udivmodti4_zero udivmodti4_correct)

text \<open>C5: when the quotient fits (\<open>u1 < v\<close>), \<^verbatim>\<open>udiv128by64to64\<close> returns, its
  correction loops ending, with the quotient and the remainder of the 128-bit
  \<open>u1:u0\<close> by \<open>v\<close>.\<close>

theorem udiv128by64to64_correct:
  assumes "u1 < v"
  shows "\<exists>q r. udiv128by64to64 u1 u0 v = Some (q, r) \<and>
    uint q = (uint u1 * 2 ^ 64 + uint u0) div uint v \<and> uint r = (uint u1 * 2 ^ 64 + uint u0) mod uint v"
  using udiv128by64to64default_correct [OF assms] by (simp add: udiv128by64to64_def)

theorem udiv128by64to64_correct_witness:
  "\<exists>q r. udiv128by64to64 5 3 7 = Some (q, r) \<and> uint q = 13176245766935394011 \<and> uint r = 6"
  using udiv128by64to64_correct [of 5 7 3] by simp

end
