(* ===== verification/Int_SDiv.thy ===== *)
theory Int_SDiv
  imports Int_Div_TI "HOL-Library.Signed_Division"
begin

text \<open>
  Signed division: \<^verbatim>\<open>__divXi3\<close> and \<^verbatim>\<open>__modXi3\<close> of
  \<^verbatim>\<open>int_div_impl.inc\<close> and the \<^verbatim>\<open>__divmod*4\<close> routines.  They divide
  absolute values and put the sign back, whatever unsigned division they are compiled
  against.  That unsigned division is an argument of the definitions; its contract is the
  locale \<open>unsigned_division\<close> (and \<open>unsigned_divmod\<close> for a routine that returns both
  results), interpreted on the routines the C macros name.

  Shown: the result is the one of truncating division on integers, reduced to the width; the
  only reduction that matters is \<open>MIN / -1\<close>.
\<close>

section \<open>The code\<close>

definition divXi3 :: "('a::len word \<Rightarrow> 'a word \<Rightarrow> 'a word option) \<Rightarrow> 'a word \<Rightarrow> 'a word \<Rightarrow> 'a word option" where
  "divXi3 compute_udiv a b = do {
     let s_a = signed_drop_bit (LENGTH('a) - 1) a;
     let s_b = signed_drop_bit (LENGTH('a) - 1) b;
     let a_u = (a XOR s_a) + (- s_a);
     let b_u = (b XOR s_b) + (- s_b);
     let s_a = s_a XOR s_b;
     q \<leftarrow> compute_udiv a_u b_u;
     Some ((q XOR s_a) + (- s_a))
   }"

definition modXi3 :: "('a::len word \<Rightarrow> 'a word \<Rightarrow> 'a word option) \<Rightarrow> 'a word \<Rightarrow> 'a word \<Rightarrow> 'a word option" where
  "modXi3 assign_umod a b = do {
     let s = signed_drop_bit (LENGTH('a) - 1) b;
     let b_u = (b XOR s) + (- s);
     let s = signed_drop_bit (LENGTH('a) - 1) a;
     let a_u = (a XOR s) + (- s);
     res \<leftarrow> assign_umod a_u b_u;
     Some ((res XOR s) + (- s))
   }"

definition divmodXi4 :: "('a::len word \<Rightarrow> 'a word \<Rightarrow> ('a word \<times> 'a word) option) \<Rightarrow>
    'a word \<Rightarrow> 'a word \<Rightarrow> ('a word \<times> 'a word) option" where
  "divmodXi4 udivmod a b = do {
     let s_a = signed_drop_bit (LENGTH('a) - 1) a;
     let s_b = signed_drop_bit (LENGTH('a) - 1) b;
     let a = (a XOR s_a) - s_a;
     let b = (b XOR s_b) - s_b;
     let s_b = s_b XOR s_a;
     (q, r) \<leftarrow> udivmod a b;
     Some ((q XOR s_b) - s_b, (r XOR s_a) - s_a)
   }"

definition divsi3 :: "u32 \<Rightarrow> u32 \<Rightarrow> u32 option" where
  "divsi3 = divXi3 c_udiv"

definition divdi3 :: "u64 \<Rightarrow> u64 \<Rightarrow> u64 option" where
  "divdi3 = divXi3 (\<lambda>a b. map_option fst (udivmoddi4 a b))"

definition divti3 :: "u128 \<Rightarrow> u128 \<Rightarrow> u128 option" where
  "divti3 = divXi3 (\<lambda>a b. map_option fst (udivmodti4 a b))"

definition modsi3 :: "u32 \<Rightarrow> u32 \<Rightarrow> u32 option" where
  "modsi3 a b = do { q \<leftarrow> divsi3 a b; Some (a - q * b) }"

definition moddi3 :: "u64 \<Rightarrow> u64 \<Rightarrow> u64 option" where
  "moddi3 = modXi3 (\<lambda>a b. map_option snd (udivmoddi4 a b))"

definition modti3 :: "u128 \<Rightarrow> u128 \<Rightarrow> u128 option" where
  "modti3 = modXi3 (\<lambda>a b. map_option snd (udivmodti4 a b))"

definition divmodsi4 :: "u32 \<Rightarrow> u32 \<Rightarrow> (u32 \<times> u32) option" where
  "divmodsi4 = divmodXi4 (\<lambda>a b. Some (udivmodsi4 a b))"

definition divmoddi4 :: "u64 \<Rightarrow> u64 \<Rightarrow> (u64 \<times> u64) option" where
  "divmoddi4 = divmodXi4 udivmoddi4"

definition divmodti4 :: "u128 \<Rightarrow> u128 \<Rightarrow> (u128 \<times> u128) option" where
  "divmodti4 = divmodXi4 udivmodti4"

definition udivti3 :: "u128 \<Rightarrow> u128 \<Rightarrow> u128 option" where
  "udivti3 a b = map_option fst (udivmodti4 a b)"

definition umodti3 :: "u128 \<Rightarrow> u128 \<Rightarrow> u128 option" where
  "umodti3 a b = map_option snd (udivmodti4 a b)"

section \<open>Signs\<close>

lemma xor_sign_word:
  "(x XOR (if P then - 1 else 0)) + (- (if P then - 1 else 0)) = (if P then - x else (x :: 'a::len word))"
  "(x XOR (if P then - 1 else 0)) - (if P then - 1 else 0) = (if P then - x else (x :: 'a::len word))"
  by (simp_all add: not_eq_complement)

lemma xor_signs: "(if P then - 1 else 0) XOR (if Q then - 1 else 0) = (if P \<noteq> Q then - 1 else (0 :: 'a::len word))"
  by simp

lemma signed_drop_bit_sign':
  "signed_drop_bit (LENGTH('a) - 1) (x :: 'a::len word) = (if sint x < 0 then - 1 else 0)"
  by (simp add: signed_drop_bit_sign sign_bit_iff)

lemma uint_word_abs:
  "uint (if sint a < 0 then - a else a) = \<bar>sint (a :: 'a::len word)\<bar>"
proof (cases "sint a < 0")
  case True
  then have "uint a \<noteq> 0"
    by (auto simp: sint_eq_if)
  then have "uint (- a) = 2 ^ LENGTH('a) - uint a"
    by (simp add: uint_word_ariths zmod_zminus1_eq_if)
  then show ?thesis
    using True by (simp add: sint_eq_if split: if_splits)
next
  case False
  then show ?thesis
    by (simp add: sint_eq_if split: if_splits)
qed

lemma word_abs_eq_0_iff: "(if sint a < 0 then - a else a) = 0 \<longleftrightarrow> a = (0 :: 'a::len word)"
  by auto

lemma sdiv_word:
  fixes a b :: "'a::len word"
  defines "q \<equiv> (if sint a < 0 then - a else a) div (if sint b < 0 then - b else b)"
  shows "(if (sint a < 0) \<noteq> (sint b < 0) then - q else q) = word_of_int (sint a sdiv sint b)"
proof -
  have "uint q = \<bar>sint a\<bar> div \<bar>sint b\<bar>"
    unfolding q_def uint_div_distrib uint_word_abs ..
  then have "q = word_of_int (\<bar>sint a\<bar> div \<bar>sint b\<bar>)"
    by (metis word_of_int_uint)
  then show ?thesis
    by (simp add: signed_divide_int_def sgn_if)
qed

lemma smod_int_eq:
  "a smod b = (if a < 0 then - (\<bar>a\<bar> mod \<bar>b\<bar>) else \<bar>a\<bar> mod \<bar>b :: int\<bar>)"
  by (auto simp: signed_modulo_int_def signed_divide_int_def sgn_if minus_div_mult_eq_mod [symmetric]
      minus_mult_div_eq_mod [symmetric] algebra_simps)

lemma smod_word:
  fixes a b :: "'a::len word"
  defines "r \<equiv> (if sint a < 0 then - a else a) mod (if sint b < 0 then - b else b)"
  shows "(if sint a < 0 then - r else r) = word_of_int (sint a smod sint b)"
proof -
  have "uint r = \<bar>sint a\<bar> mod \<bar>sint b\<bar>"
    unfolding r_def uint_mod_distrib uint_word_abs ..
  then have "r = word_of_int (\<bar>sint a\<bar> mod \<bar>sint b\<bar>)"
    by (metis word_of_int_uint)
  then show ?thesis
    by (auto simp: smod_int_eq)
qed

section \<open>The contract of the unsigned division\<close>

locale unsigned_division =
  fixes udiv :: "'a::len word \<Rightarrow> 'a word \<Rightarrow> 'a word option"
    and umod :: "'a word \<Rightarrow> 'a word \<Rightarrow> 'a word option"
  assumes udiv_law: "b \<noteq> 0 \<Longrightarrow> udiv a b = Some (a div b)"
    and umod_law: "b \<noteq> 0 \<Longrightarrow> umod a b = Some (a mod b)"
begin

lemma divXi3_correct:
  assumes "b \<noteq> 0"
  shows "divXi3 udiv a b = Some (word_of_int (sint a sdiv sint b))"
  using assms
  by (simp only: divXi3_def Let_def signed_drop_bit_sign' xor_sign_word xor_signs word_abs_eq_0_iff
      udiv_law bind.simps sdiv_word not_False_eq_True)

lemma modXi3_correct:
  assumes "b \<noteq> 0"
  shows "modXi3 umod a b = Some (word_of_int (sint a smod sint b))"
  using assms
  by (simp only: modXi3_def Let_def signed_drop_bit_sign' xor_sign_word word_abs_eq_0_iff
      umod_law bind.simps smod_word not_False_eq_True)

end

locale unsigned_divmod =
  fixes udivmod :: "'a::len word \<Rightarrow> 'a word \<Rightarrow> ('a word \<times> 'a word) option"
  assumes udivmod_law: "b \<noteq> 0 \<Longrightarrow> udivmod a b = Some (a div b, a mod b)"
begin

lemma divmodXi4_correct:
  assumes "b \<noteq> 0"
  shows "divmodXi4 udivmod a b = Some (word_of_int (sint a sdiv sint b), word_of_int (sint a smod sint b))"
  using assms
  by (simp only: divmodXi4_def Let_def signed_drop_bit_sign' xor_sign_word xor_signs word_abs_eq_0_iff
      udivmod_law bind.simps prod.case smod_word not_False_eq_True)
     (simp only: neq_commute [of "sint b < 0"] sdiv_word)

end

sublocale unsigned_divmod \<subseteq> unsigned_division
  "\<lambda>a b. map_option fst (udivmod a b)" "\<lambda>a b. map_option snd (udivmod a b)"
  by unfold_locales (simp_all add: udivmod_law)

interpretation si_hw: unsigned_division "c_udiv :: u32 \<Rightarrow> u32 \<Rightarrow> u32 option" c_umod
  by unfold_locales (simp_all add: c_udiv_def c_umod_def)

interpretation si: unsigned_divmod "\<lambda>a b. Some (udivmodsi4 a b)"
  by unfold_locales (simp add: udivmodsi4_def udivsi3_def udivXi3_correct minus_div_mult_eq_mod)

interpretation di: unsigned_divmod udivmoddi4
  by unfold_locales (rule udivmoddi4_correct)

interpretation ti: unsigned_divmod udivmodti4
  by unfold_locales (rule udivmodti4_correct)

section \<open>Results that fit\<close>

lemma sint_eq_0: "sint (a :: 'a::len word) = 0 \<longleftrightarrow> a = 0"
proof
  assume "sint a = 0"
  then have "uint a = 0 \<or> uint a = 2 ^ LENGTH('a)"
    by (simp add: sint_eq_if split: if_splits)
  then have "uint a = 0"
    using uint_lt_2p [of a] by linarith
  then show "a = 0"
    by (simp add: word_eq_iff_uint)
qed simp

lemma sint_range:
  fixes a :: "'a::len word"
  shows "- (2 ^ (LENGTH('a) - 1)) \<le> sint a" "sint a < 2 ^ (LENGTH('a) - 1)"
  using sint_greater_eq [of a] sint_less [of a] by auto

lemma sint_smod:
  fixes a b :: "'a::len word"
  assumes "b \<noteq> 0"
  shows "sint (word_of_int (sint a smod sint b) :: 'a word) = sint a smod sint b"
proof -
  have "sint b \<noteq> 0"
    using assms by (simp add: sint_eq_0)
  then have "\<bar>sint a\<bar> mod \<bar>sint b\<bar> < \<bar>sint b\<bar>" "0 \<le> \<bar>sint a\<bar> mod \<bar>sint b\<bar>"
    by simp_all
  moreover have "\<bar>sint b\<bar> \<le> 2 ^ (LENGTH('a) - 1)"
    using sint_range [of b] by auto
  ultimately show ?thesis
    by (intro sint_of_int_small) (auto simp: smod_int_eq)
qed

lemma abs_sdiv: "\<bar>a sdiv b\<bar> = \<bar>a\<bar> div \<bar>b :: int\<bar>"
proof -
  have "0 \<le> \<bar>a\<bar> div \<bar>b\<bar>"
    by (cases "b = 0") (simp_all add: pos_imp_zdiv_nonneg_iff)
  then show ?thesis
    by (auto simp: signed_divide_int_def abs_mult abs_sgn_eq)
qed

lemma sdiv_int_bounds:
  fixes a b M :: int
  assumes "- M \<le> a" "a < M" "b \<noteq> 0" "\<not> (a = - M \<and> b = - 1)"
  shows "- M \<le> a sdiv b \<and> a sdiv b < M"
proof -
  have le: "\<bar>a\<bar> div \<bar>b\<bar> \<le> \<bar>a\<bar>"
    using assms(3) zdiv_mono2 [of "\<bar>a\<bar>" 1 "\<bar>b\<bar>"] by simp
  consider "\<bar>a\<bar> < M" | "a = - M" "0 < b" | "a = - M" "b < - 1"
    using assms by linarith
  then show ?thesis
  proof cases
    case 1
    then show ?thesis
      using le abs_sdiv [of a b] by linarith
  next
    case 2
    then have "sgn a * sgn b = - 1"
      using assms(1,2) by simp
    moreover have "0 \<le> \<bar>a\<bar> div \<bar>b\<bar>"
      using assms(3) by (simp add: pos_imp_zdiv_nonneg_iff)
    ultimately have "a sdiv b \<le> 0"
      by (simp add: signed_divide_int_def)
    then show ?thesis
      using 2 assms(2) le abs_sdiv [of a b] by linarith
  next
    case 3
    then have "\<bar>a\<bar> div \<bar>b\<bar> < \<bar>a\<bar>"
      using assms(2) by (intro int_div_less_self) auto
    then show ?thesis
      using 3 assms(2) abs_sdiv [of a b] by linarith
  qed
qed

lemma sint_sdiv:
  fixes a b :: "'a::len word"
  assumes "b \<noteq> 0"
  defines "q \<equiv> word_of_int (sint a sdiv sint b) :: 'a word"
  shows "sint q = sint a sdiv sint b \<or> sint a = - (2 ^ (LENGTH('a) - 1)) \<and> sint b = - 1 \<and> q = a"
proof -
  have b: "sint b \<noteq> 0"
    using assms(1) by (simp add: sint_eq_0)
  show ?thesis
  proof (cases "sint a = - (2 ^ (LENGTH('a) - 1)) \<and> sint b = - 1")
    case True
    then have "sint a sdiv sint b = - sint a"
      by (simp add: signed_divide_int_def)
    then have "q = - a"
      by (simp only: q_def of_int_minus of_int_sint scast_id)
    moreover have "sint a + sint a = - (2 ^ LENGTH('a))"
      using True by (simp flip: power_Suc)
    then have "word_of_int (sint a) + word_of_int (sint a) = (word_of_int (- (2 ^ LENGTH('a))) :: 'a word)"
      by (metis of_int_add)
    then have "a + a = 0"
      by simp
    then have "- a = a"
      by (rule minus_unique)
    ultimately show ?thesis
      using True by simp
  next
    case False
    have "- (2 ^ (LENGTH('a) - 1)) \<le> sint a sdiv sint b \<and> sint a sdiv sint b < 2 ^ (LENGTH('a) - 1)"
      using False b by (intro sdiv_int_bounds sint_range) auto
    then show ?thesis
      unfolding q_def using sint_of_int_small by blast
  qed
qed

lemma modsi3_correct:
  assumes "b \<noteq> 0"
  shows "modsi3 a b = Some (word_of_int (sint a smod sint b))"
proof -
  have "a - word_of_int (sint a sdiv sint b) * b = word_of_int (sint a - sint a sdiv sint b * sint b)"
    by simp
  also have "sint a - sint a sdiv sint b * sint b = sint a smod sint b"
    by (rule minus_sdiv_mult_eq_smod)
  finally show ?thesis
    using si_hw.divXi3_correct [OF assms] by (simp only: modsi3_def divsi3_def bind.simps)
qed

section \<open>Properties\<close>

text \<open>C3: for a non-zero divisor \<^verbatim>\<open>__divsi3\<close>, \<^verbatim>\<open>__modsi3\<close> and
  \<^verbatim>\<open>__divmodsi4\<close>, their 64-bit and their 128-bit versions agree with each other, and
  return the truncating quotient and remainder of the signed operands; the quotient fits
  unless it is \<open>MIN / -1\<close>, which returns \<open>MIN\<close>.\<close>

theorem signed_division_correct:
  fixes a b :: u32 and c d :: u64 and e f :: u128
  assumes "b \<noteq> 0" "d \<noteq> 0" "f \<noteq> 0"
  shows "(\<exists>q r. divsi3 a b = Some q \<and> modsi3 a b = Some r \<and> divmodsi4 a b = Some (q, r) \<and>
      sint r = sint a smod sint b \<and>
      (sint q = sint a sdiv sint b \<or> sint a = - (2 ^ 31) \<and> sint b = - 1 \<and> q = a)) \<and>
    (\<exists>q r. divdi3 c d = Some q \<and> moddi3 c d = Some r \<and> divmoddi4 c d = Some (q, r) \<and>
      sint r = sint c smod sint d \<and>
      (sint q = sint c sdiv sint d \<or> sint c = - (2 ^ 63) \<and> sint d = - 1 \<and> q = c)) \<and>
    (\<exists>q r. divti3 e f = Some q \<and> modti3 e f = Some r \<and> divmodti4 e f = Some (q, r) \<and>
      sint r = sint e smod sint f \<and>
      (sint q = sint e sdiv sint f \<or> sint e = - (2 ^ 127) \<and> sint f = - 1 \<and> q = e))"
proof (intro conjI)
  show "\<exists>q r. divsi3 a b = Some q \<and> modsi3 a b = Some r \<and> divmodsi4 a b = Some (q, r) \<and>
      sint r = sint a smod sint b \<and>
      (sint q = sint a sdiv sint b \<or> sint a = - (2 ^ 31) \<and> sint b = - 1 \<and> q = a)"
    using si_hw.divXi3_correct [OF assms(1), of a] si.divmodXi4_correct [OF assms(1), of a]
      modsi3_correct [OF assms(1), of a] sint_sdiv [OF assms(1), of a] sint_smod [OF assms(1), of a]
    unfolding divsi3_def divmodsi4_def by simp
  show "\<exists>q r. divdi3 c d = Some q \<and> moddi3 c d = Some r \<and> divmoddi4 c d = Some (q, r) \<and>
      sint r = sint c smod sint d \<and>
      (sint q = sint c sdiv sint d \<or> sint c = - (2 ^ 63) \<and> sint d = - 1 \<and> q = c)"
    using di.divXi3_correct [OF assms(2), of c] di.divmodXi4_correct [OF assms(2), of c]
      di.modXi3_correct [OF assms(2), of c] sint_sdiv [OF assms(2), of c] sint_smod [OF assms(2), of c]
    unfolding divdi3_def moddi3_def divmoddi4_def by simp
  show "\<exists>q r. divti3 e f = Some q \<and> modti3 e f = Some r \<and> divmodti4 e f = Some (q, r) \<and>
      sint r = sint e smod sint f \<and>
      (sint q = sint e sdiv sint f \<or> sint e = - (2 ^ 127) \<and> sint f = - 1 \<and> q = e)"
    using ti.divXi3_correct [OF assms(3), of e] ti.divmodXi4_correct [OF assms(3), of e]
      ti.modXi3_correct [OF assms(3), of e] sint_sdiv [OF assms(3), of e] sint_smod [OF assms(3), of e]
    unfolding divti3_def modti3_def divmodti4_def by simp
qed

theorem signed_division_correct_witness:
  "(\<exists>q r. divsi3 (- 7) 2 = Some q \<and> modsi3 (- 7) 2 = Some r \<and> sint q = - 3 \<and> sint r = - 1) \<and>
   (\<exists>q r. divmodti4 (- 7) 2 = Some (q, r) \<and> sint q = - 3 \<and> sint r = - 1)"
  using signed_division_correct [of 2 2 2 "- 7" "- 7" "- 7"]
  by (auto simp: signed_divide_int_def signed_modulo_int_def)

end
