(* ===== verification/Int_Overflow.thy ===== *)
theory Int_Overflow
  imports Int_SDiv
begin

text \<open>
  Signed arithmetic that detects overflow: \<^verbatim>\<open>__absv*\<close>, \<^verbatim>\<open>__addv*\<close>,
  \<^verbatim>\<open>__subv*\<close>, \<^verbatim>\<open>__negv*\<close>, \<^verbatim>\<open>__mulv*\<close>, which abort, and
  \<^verbatim>\<open>__mulo*\<close>, which sets a flag; negation and the three-way comparisons.

  The routines of the three widths have the same text, written once over the word length.
  \<^verbatim>\<open>compilerrt_abort\<close> is \<^term>\<open>None\<close>; so is a signed machine division that
  is undefined in C.

  Shown: a routine aborts, or sets its flag, exactly when the result of the machine operation
  differs from the one on integers.
\<close>

section \<open>The code\<close>

definition c_sdiv :: "'a::len word \<Rightarrow> 'a word \<Rightarrow> 'a word option" where
  "c_sdiv x y =
    (if y = 0 \<or> x = push_bit (LENGTH('a) - 1) 1 \<and> y = - 1 then None
     else Some (word_of_int (sint x sdiv sint y)))"

definition absvXi2 :: "'a::len word \<Rightarrow> 'a word option" where
  "absvXi2 a =
    (if a = push_bit (LENGTH('a) - 1) 1 then None
     else let t = signed_drop_bit (LENGTH('a) - 1) a in Some ((a XOR t) - t))"

definition addvXi3 :: "'a::len word \<Rightarrow> 'a word \<Rightarrow> 'a word option" where
  "addvXi3 a b =
    (let s = a + b
     in if sint b \<ge> 0 then if sint s < sint a then None else Some s
        else if sint s \<ge> sint a then None else Some s)"

definition subvXi3 :: "'a::len word \<Rightarrow> 'a word \<Rightarrow> 'a word option" where
  "subvXi3 a b =
    (let s = a - b
     in if sint b \<ge> 0 then if sint s > sint a then None else Some s
        else if sint s \<le> sint a then None else Some s)"

definition negvXi2 :: "'a::len word \<Rightarrow> 'a word option" where
  "negvXi2 a = (let min_v = push_bit (LENGTH('a) - 1) 1 in if a = min_v then None else Some (- a))"

definition muloXi4 :: "'a::len word \<Rightarrow> 'a word \<Rightarrow> ('a word \<times> u32) option" where
  "muloXi4 a b =
    (let min_v = push_bit (LENGTH('a) - 1) 1;
         max_v = NOT min_v;
         result = a * b
     in if a = min_v then Some (result, if b \<noteq> 0 \<and> b \<noteq> 1 then 1 else 0)
        else if b = min_v then Some (result, if a \<noteq> 0 \<and> a \<noteq> 1 then 1 else 0)
        else
          let sa = signed_drop_bit (LENGTH('a) - 1) a;
              abs_a = (a XOR sa) - sa;
              sb = signed_drop_bit (LENGTH('a) - 1) b;
              abs_b = (b XOR sb) - sb
          in if sint abs_a < sint (2 :: 'a word) \<or> sint abs_b < sint (2 :: 'a word) then Some (result, 0)
             else if sa = sb then do {
               m \<leftarrow> c_sdiv max_v abs_b;
               Some (result, if sint abs_a > sint m then 1 else 0)
             }
             else do {
               m \<leftarrow> c_sdiv min_v (- abs_b);
               Some (result, if sint abs_a > sint m then 1 else 0)
             })"

definition mulvXi3 :: "'a::len word \<Rightarrow> 'a word \<Rightarrow> 'a word option" where
  "mulvXi3 a b =
    (let min_v = push_bit (LENGTH('a) - 1) 1;
         max_v = NOT min_v
     in if a = min_v then if b = 0 \<or> b = 1 then Some (a * b) else None
        else if b = min_v then if a = 0 \<or> a = 1 then Some (a * b) else None
        else
          let sa = signed_drop_bit (LENGTH('a) - 1) a;
              abs_a = (a XOR sa) - sa;
              sb = signed_drop_bit (LENGTH('a) - 1) b;
              abs_b = (b XOR sb) - sb
          in if sint abs_a < sint (2 :: 'a word) \<or> sint abs_b < sint (2 :: 'a word) then Some (a * b)
             else if sa = sb then do {
               m \<leftarrow> c_sdiv max_v abs_b;
               if sint abs_a > sint m then None else Some (a * b)
             }
             else do {
               m \<leftarrow> c_sdiv min_v (- abs_b);
               if sint abs_a > sint m then None else Some (a * b)
             })"

definition absvsi2 :: "u32 \<Rightarrow> u32 option" where "absvsi2 = absvXi2"
definition absvdi2 :: "u64 \<Rightarrow> u64 option" where "absvdi2 = absvXi2"
definition absvti2 :: "u128 \<Rightarrow> u128 option" where "absvti2 = absvXi2"
definition addvsi3 :: "u32 \<Rightarrow> u32 \<Rightarrow> u32 option" where "addvsi3 = addvXi3"
definition addvdi3 :: "u64 \<Rightarrow> u64 \<Rightarrow> u64 option" where "addvdi3 = addvXi3"
definition addvti3 :: "u128 \<Rightarrow> u128 \<Rightarrow> u128 option" where "addvti3 = addvXi3"
definition subvsi3 :: "u32 \<Rightarrow> u32 \<Rightarrow> u32 option" where "subvsi3 = subvXi3"
definition subvdi3 :: "u64 \<Rightarrow> u64 \<Rightarrow> u64 option" where "subvdi3 = subvXi3"
definition subvti3 :: "u128 \<Rightarrow> u128 \<Rightarrow> u128 option" where "subvti3 = subvXi3"
definition negvsi2 :: "u32 \<Rightarrow> u32 option" where "negvsi2 = negvXi2"
definition negvdi2 :: "u64 \<Rightarrow> u64 option" where "negvdi2 = negvXi2"
definition negvti2 :: "u128 \<Rightarrow> u128 option" where "negvti2 = negvXi2"
definition mulosi4 :: "u32 \<Rightarrow> u32 \<Rightarrow> (u32 \<times> u32) option" where "mulosi4 = muloXi4"
definition mulodi4 :: "u64 \<Rightarrow> u64 \<Rightarrow> (u64 \<times> u32) option" where "mulodi4 = muloXi4"
definition muloti4 :: "u128 \<Rightarrow> u128 \<Rightarrow> (u128 \<times> u32) option" where "muloti4 = muloXi4"
definition mulvsi3 :: "u32 \<Rightarrow> u32 \<Rightarrow> u32 option" where "mulvsi3 = mulvXi3"
definition mulvdi3 :: "u64 \<Rightarrow> u64 \<Rightarrow> u64 option" where "mulvdi3 = mulvXi3"
definition mulvti3 :: "u128 \<Rightarrow> u128 \<Rightarrow> u128 option" where "mulvti3 = mulvXi3"

definition negdi2 :: "u64 \<Rightarrow> u64" where "negdi2 a = - a"
definition negti2 :: "u128 \<Rightarrow> u128" where "negti2 a = - a"

definition cmpXi2 :: "'a::len bit0 word \<Rightarrow> 'a bit0 word \<Rightarrow> u32" where
  "cmpXi2 x y =
    (if sint (s_high x) < sint (s_high y) then 0
     else if sint (s_high x) > sint (s_high y) then 2
     else if s_low x < s_low y then 0
     else if s_low x > s_low y then 2
     else 1)"

definition ucmpXi2 :: "'a::len bit0 word \<Rightarrow> 'a bit0 word \<Rightarrow> u32" where
  "ucmpXi2 x y =
    (if s_high x < s_high y then 0
     else if s_high x > s_high y then 2
     else if s_low x < s_low y then 0
     else if s_low x > s_low y then 2
     else 1)"

definition cmpdi2 :: "u64 \<Rightarrow> u64 \<Rightarrow> u32" where "cmpdi2 = cmpXi2"
definition cmpti2 :: "u128 \<Rightarrow> u128 \<Rightarrow> u32" where "cmpti2 = cmpXi2"
definition ucmpdi2 :: "u64 \<Rightarrow> u64 \<Rightarrow> u32" where "ucmpdi2 = ucmpXi2"
definition ucmpti2 :: "u128 \<Rightarrow> u128 \<Rightarrow> u32" where "ucmpti2 = ucmpXi2"

section \<open>When the result is exact\<close>

lemma sint_MIN: "sint (push_bit (LENGTH('a) - 1) 1 :: 'a::len word) = - (2 ^ (LENGTH('a) - 1))"
proof -
  have "uint (push_bit (LENGTH('a) - 1) 1 :: 'a word) = 2 ^ (LENGTH('a) - 1)"
    by (subst uint_push_bit_nowrap) simp_all
  moreover have "2 ^ LENGTH('a) = 2 * (2 :: int) ^ (LENGTH('a) - 1)"
    by (simp flip: power_Suc)
  ultimately show ?thesis
    by (simp add: sint_eq_if)
qed

lemma sint_inject_word: "sint (a :: 'a::len word) = sint b \<longleftrightarrow> a = b"
  by (metis of_int_sint scast_id)

lemma eq_MIN_iff: "a = push_bit (LENGTH('a) - 1) 1 \<longleftrightarrow> sint (a :: 'a::len word) = - (2 ^ (LENGTH('a) - 1))"
  using sint_inject_word [of a "push_bit (LENGTH('a) - 1) 1"] by (simp only: sint_MIN)

lemma sint_MAX: "sint (NOT (push_bit (LENGTH('a) - 1) 1) :: 'a::len word) = 2 ^ (LENGTH('a) - 1) - 1"
proof -
  let ?m = "push_bit (LENGTH('a) - 1) 1 :: 'a word"
  have "NOT ?m = - ?m - 1"
    by (rule not_eq_complement)
  also have "\<dots> = word_of_int (- sint ?m - 1)"
    by (simp only: of_int_diff of_int_minus of_int_sint scast_id of_int_1)
  finally show ?thesis
    by (simp only: sint_MIN) (subst sint_of_int_small, simp_all)
qed

lemma fits_iff:
  "sint (word_of_int x :: 'a::len word) = x \<longleftrightarrow> - (2 ^ (LENGTH('a) - 1)) \<le> x \<and> x < 2 ^ (LENGTH('a) - 1)"
  using sint_range [of "word_of_int x :: 'a word"] sint_of_int_small [where 'a = 'a] by metis

lemma two_power_len: "2 ^ LENGTH('a::len) = 2 * (2 :: int) ^ (LENGTH('a) - 1)"
  by (simp flip: power_Suc)

lemma sint_wrap_once:
  fixes x :: int
  defines "M \<equiv> 2 ^ (LENGTH('a::len) - 1)"
  assumes "- (3 * M) \<le> x" "x < 3 * M"
  shows "sint (word_of_int x :: 'a word) =
    (if x < - M then x + 2 * M else if M \<le> x then x - 2 * M else x)"
proof -
  have w: "(word_of_int (2 * M) :: 'a word) = 0"
    unfolding M_def two_power_len [where 'a = 'a, symmetric] by simp
  have "(word_of_int (x + 2 * M) :: 'a word) = word_of_int x"
    "(word_of_int (x - 2 * M) :: 'a word) = word_of_int x"
    using w by (simp_all only: of_int_add of_int_diff) simp_all
  moreover have "x < - M \<Longrightarrow> sint (word_of_int (x + 2 * M) :: 'a word) = x + 2 * M"
    "M \<le> x \<Longrightarrow> sint (word_of_int (x - 2 * M) :: 'a word) = x - 2 * M"
    "\<not> x < - M \<Longrightarrow> \<not> M \<le> x \<Longrightarrow> sint (word_of_int x :: 'a word) = x"
    unfolding fits_iff M_def [symmetric] using assms(2,3) by linarith+
  ultimately show ?thesis
    by auto
qed

lemma addvXi3_correct:
  "addvXi3 a b = (if sint (a + b) = sint a + sint b then Some (a + b) else None)"
proof -
  have "a + b = word_of_int (sint a + sint b)"
    by simp
  then have "sint (a + b) = (let M = 2 ^ (LENGTH('a) - 1); x = sint a + sint b in
      if x < - M then x + 2 * M else if M \<le> x then x - 2 * M else x)"
    using sint_range [of a] sint_range [of b] by (simp only: Let_def) (subst sint_wrap_once, auto)
  then show ?thesis
    unfolding addvXi3_def Let_def using sint_range [of a] sint_range [of b] by auto
qed

lemma subvXi3_correct:
  "subvXi3 a b = (if sint (a - b) = sint a - sint b then Some (a - b) else None)"
proof -
  have "a - b = word_of_int (sint a - sint b)"
    by simp
  then have "sint (a - b) = (let M = 2 ^ (LENGTH('a) - 1); x = sint a - sint b in
      if x < - M then x + 2 * M else if M \<le> x then x - 2 * M else x)"
    using sint_range [of a] sint_range [of b] by (simp only: Let_def) (subst sint_wrap_once, auto)
  then show ?thesis
    unfolding subvXi3_def Let_def using sint_range [of a] sint_range [of b] by auto
qed

lemma sint_minus_word:
  "sint (- a :: 'a::len word) = (if sint a = - (2 ^ (LENGTH('a) - 1)) then sint a else - sint a)"
proof -
  have "- a = word_of_int (- sint a)"
    by simp
  then show ?thesis
    using sint_range [of a] by (simp only:) (subst sint_wrap_once, auto)
qed

lemma negvXi2_correct: "negvXi2 a = (if sint (- a) = - sint a then Some (- a) else None)"
  unfolding negvXi2_def Let_def eq_MIN_iff sint_minus_word by auto

lemma absvXi2_correct:
  "absvXi2 a = (let r = word_of_int \<bar>sint a\<bar> in if sint r = \<bar>sint a\<bar> then Some r else None)"
proof -
  have "(a XOR signed_drop_bit (LENGTH('a) - 1) a) - signed_drop_bit (LENGTH('a) - 1) a = word_of_int \<bar>sint a\<bar>"
    unfolding signed_drop_bit_sign' xor_sign_word by simp
  then show ?thesis
    unfolding absvXi2_def Let_def eq_MIN_iff using sint_range [of a] by (auto simp: fits_iff)
qed

text \<open>The tests of \<^verbatim>\<open>__muloXi4\<close> on integers.\<close>

lemma mul_by_min:
  fixes M B :: int
  assumes "0 < M"
  shows "- M \<le> - M * B \<and> - M * B < M \<longleftrightarrow> B = 0 \<or> B = 1"
proof
  assume "- M \<le> - M * B \<and> - M * B < M"
  then have "M * B \<le> M * 1" "M * (- 1) < M * B"
    by auto
  then have "B \<le> 1" "- 1 < B"
    using assms by (simp_all only: mult_le_cancel_left_pos mult_less_cancel_left_pos)
  then show "B = 0 \<or> B = 1"
    by linarith
qed (use assms in auto)

lemma mul_small:
  fixes A B M :: int
  assumes "\<bar>A\<bar> < 2 \<or> \<bar>B\<bar> < 2" "\<bar>A\<bar> < M" "\<bar>B\<bar> < M"
  shows "- M \<le> A * B \<and> A * B < M"
proof -
  have "\<bar>A\<bar> * \<bar>B\<bar> \<le> \<bar>A\<bar> * 1 \<or> \<bar>A\<bar> * \<bar>B\<bar> \<le> 1 * \<bar>B\<bar>"
    using assms(1) by (metis abs_ge_zero mult_left_mono mult_right_mono zless_add1_eq zle_diff1_eq diff_numeral_special(9) one_add_one zle_add1_eq_le)
  then have "\<bar>A * B\<bar> < M"
    using assms(2,3) by (auto simp: abs_mult)
  then show ?thesis
    by linarith
qed

lemma mul_same_sign:
  fixes A B M :: int
  assumes "(A < 0) = (B < 0)" "2 \<le> \<bar>B\<bar>" "0 < M"
  shows "- M \<le> A * B \<and> A * B < M \<longleftrightarrow> \<not> (M - 1) div \<bar>B\<bar> < \<bar>A\<bar>" 
proof -
  have "A * B = \<bar>A\<bar> * \<bar>B\<bar>"
    using assms(1) by (cases "A < 0") auto
  moreover have "0 \<le> \<bar>A\<bar> * \<bar>B\<bar>"
    by simp
  ultimately show ?thesis
    using assms(2,3) by (subst div_less_iff_int) linarith+
qed

lemma mul_diff_sign:
  fixes A B M :: int
  assumes "(A < 0) \<noteq> (B < 0)" "2 \<le> \<bar>B\<bar>" "0 < M"
  shows "- M \<le> A * B \<and> A * B < M \<longleftrightarrow> \<not> M div \<bar>B\<bar> < \<bar>A\<bar>"
proof -
  have "A * B = - (\<bar>A\<bar> * \<bar>B\<bar>)"
    using assms(1) by (cases "A < 0") auto
  moreover have "0 \<le> \<bar>A\<bar> * \<bar>B\<bar>"
    by simp
  ultimately show ?thesis
    using assms(2,3) by (subst div_less_iff_int) linarith+
qed

lemma c_sdiv_eq:
  fixes x y :: "'a::len word"
  assumes "2 \<le> \<bar>sint y\<bar>"
  shows "\<exists>m. c_sdiv x y = Some m \<and> sint m = sint x sdiv sint y"
proof -
  have y: "y \<noteq> 0"
    using assms by auto
  moreover have "sint y \<noteq> - 1"
    using assms by auto
  then have "y \<noteq> - 1" "sint (word_of_int (sint x sdiv sint y) :: 'a word) = sint x sdiv sint y"
    using sint_sdiv [OF y, of x] by auto
  ultimately show ?thesis
    by (auto simp: c_sdiv_def)
qed

lemma sint_abs_word:
  fixes a :: "'a::len word"
  assumes "sint a \<noteq> - (2 ^ (LENGTH('a) - 1))"
  defines "s \<equiv> signed_drop_bit (LENGTH('a) - 1) a"
  shows "sint ((a XOR s) - s) = \<bar>sint a\<bar>" "sint (- ((a XOR s) - s)) = - \<bar>sint a\<bar>"
proof -
  have "(a XOR s) - s = word_of_int \<bar>sint a\<bar>"
    unfolding s_def signed_drop_bit_sign' xor_sign_word by simp
  moreover from this have "- ((a XOR s) - s) = word_of_int (- \<bar>sint a\<bar>)"
    by simp
  ultimately show "sint ((a XOR s) - s) = \<bar>sint a\<bar>" "sint (- ((a XOR s) - s)) = - \<bar>sint a\<bar>"
    using assms(1) sint_range [of a] by (simp_all only: fits_iff) auto
qed

lemma two_less_max: "2 < LENGTH('a::len) \<Longrightarrow> 2 < (2 :: int) ^ (LENGTH('a) - 1)"
  using power_strict_increasing [of 1 "LENGTH('a) - 1" "2 :: int"] by simp

lemma sint_small_numerals:
  assumes "2 < LENGTH('a::len)"
  shows "sint (1 :: 'a word) = 1" "sint (2 :: 'a word) = 2"
  using fits_iff [of 1, where 'a = 'a] fits_iff [of 2, where 'a = 'a] two_less_max [OF assms] by simp_all

lemma mul_fits_iff:
  "sint (a * b :: 'a::len word) = sint a * sint b \<longleftrightarrow>
    - (2 ^ (LENGTH('a) - 1)) \<le> sint a * sint b \<and> sint a * sint b < 2 ^ (LENGTH('a) - 1)"
proof -
  have "a * b = word_of_int (sint a * sint b)"
    by simp
  then show ?thesis
    by (simp only: fits_iff)
qed

lemma muloXi4_nonmin:
  fixes a b :: "'a::len word"
  assumes "2 < LENGTH('a)" "a \<noteq> push_bit (LENGTH('a) - 1) 1" "b \<noteq> push_bit (LENGTH('a) - 1) 1"
  shows "muloXi4 a b = Some (a * b, if sint (a * b) = sint a * sint b then 0 else 1)"
proof -
  define M :: int where "M = 2 ^ (LENGTH('a) - 1)"
  let ?min = "push_bit (LENGTH('a) - 1) 1 :: 'a word" and ?A = "sint a" and ?B = "sint b"
  note M = two_less_max [OF assms(1), folded M_def] and two = sint_small_numerals(2) [OF assms(1)]
    and ok = mul_fits_iff [of a b, folded M_def]
  define sa sb where "sa = signed_drop_bit (LENGTH('a) - 1) a" and "sb = signed_drop_bit (LENGTH('a) - 1) b"
  define aa ab where "aa = (a XOR sa) - sa" and "ab = (b XOR sb) - sb"
  have nm: "?A \<noteq> - M" "?B \<noteq> - M"
    using assms(2,3) unfolding M_def eq_MIN_iff by simp_all
  then have abs: "sint aa = \<bar>?A\<bar>" "sint ab = \<bar>?B\<bar>" "sint (- ab) = - \<bar>?B\<bar>"
    unfolding aa_def ab_def sa_def sb_def M_def by (simp_all only: sint_abs_word not_False_eq_True)
  have lt: "\<bar>?A\<bar> < M" "\<bar>?B\<bar> < M"
    using nm sint_range [of a] sint_range [of b] unfolding M_def by linarith+
  have sg: "sa = sb \<longleftrightarrow> (?A < 0) = (?B < 0)"
    unfolding sa_def sb_def signed_drop_bit_sign' by auto
  note run = muloXi4_def [of a b, unfolded Let_def, folded sa_def sb_def, folded aa_def ab_def]
  consider "\<bar>?A\<bar> < 2 \<or> \<bar>?B\<bar> < 2" | "\<not> (\<bar>?A\<bar> < 2 \<or> \<bar>?B\<bar> < 2)" "sa = sb"
    | "\<not> (\<bar>?A\<bar> < 2 \<or> \<bar>?B\<bar> < 2)" "sa \<noteq> sb" by blast
  then show ?thesis
  proof cases
    case small: 1
    then show ?thesis
      using assms(2,3) mul_small [OF small lt] unfolding run ok abs two by simp
  next
    case same: 2
    then obtain m where "c_sdiv (NOT ?min) ab = Some m" "sint m = (M - 1) sdiv \<bar>?B\<bar>"
      using c_sdiv_eq [of ab "NOT ?min"] abs unfolding sint_MAX M_def by auto
    moreover have "(M - 1) sdiv \<bar>?B\<bar> = (M - 1) div \<bar>?B\<bar>"
      using M same(1) by (simp add: signed_divide_int_def sgn_if)
    ultimately show ?thesis
      using assms(2,3) same mul_same_sign [of ?A ?B M] sg M unfolding run ok abs two by simp
  next
    case diff: 3
    then obtain m where "c_sdiv ?min (- ab) = Some m" "sint m = (- M) sdiv (- \<bar>?B\<bar>)"
      using c_sdiv_eq [of "- ab" ?min] abs unfolding sint_MIN M_def by auto
    moreover have "(- M) sdiv (- \<bar>?B\<bar>) = M div \<bar>?B\<bar>"
      using M diff(1) by (simp add: signed_divide_int_def sgn_if)
    ultimately show ?thesis
      using assms(2,3) diff mul_diff_sign [of ?A ?B M] sg M unfolding run ok abs two by simp
  qed
qed

lemma muloXi4_correct:
  fixes a b :: "'a::len word"
  assumes "2 < LENGTH('a)"
  shows "muloXi4 a b = Some (a * b, if sint (a * b) = sint a * sint b then 0 else 1)"
proof -
  define M :: int where "M = 2 ^ (LENGTH('a) - 1)"
  let ?min = "push_bit (LENGTH('a) - 1) 1 :: 'a word" and ?A = "sint a" and ?B = "sint b"
  note M = two_less_max [OF assms, folded M_def] and ok = mul_fits_iff [of a b, folded M_def]
  have one: "x = 1 \<longleftrightarrow> sint x = 1" for x :: "'a word"
    using sint_inject_word [of x 1] sint_small_numerals(1) [OF assms] by simp
  consider "a = ?min" | "a \<noteq> ?min" "b = ?min" | "a \<noteq> ?min" "b \<noteq> ?min" by blast
  then show ?thesis
  proof cases
    case 1
    then have "?A = - M"
      unfolding M_def by (simp only: sint_MIN)
    then show ?thesis
      using 1 M mul_by_min [of M ?B] unfolding ok muloXi4_def Let_def
      by (simp only: sint_eq_0 [symmetric] one) auto
  next
    case 2
    then have "?B = - M"
      unfolding M_def by (simp only: sint_MIN)
    then show ?thesis
      using 2 M mul_by_min [of M ?A] unfolding ok muloXi4_def Let_def
      by (simp only: sint_eq_0 [symmetric] one mult.commute [of ?A]) auto
  next
    case 3
    then show ?thesis
      by (rule muloXi4_nonmin [OF assms])
  qed
qed

lemma mulvXi3_muloXi4: "mulvXi3 a b = do { (r, ovf) \<leftarrow> muloXi4 a b; if ovf = 0 then Some r else None }"
  unfolding mulvXi3_def muloXi4_def Let_def
  by (auto simp: bind_assoc split: if_splits option.splits intro!: arg_cong2 [where f = Option.bind])

lemma mulvXi3_correct:
  fixes a b :: "'a::len word"
  assumes "2 < LENGTH('a)"
  shows "mulvXi3 a b = (if sint (a * b) = sint a * sint b then Some (a * b) else None)"
  by (simp add: mulvXi3_muloXi4 muloXi4_correct [OF assms])

section \<open>Comparisons\<close>

lemma lex_less_int:
  fixes h h' l l' B :: int
  assumes "0 \<le> l" "l < B" "0 \<le> l'" "l' < B"
  shows "h * B + l < h' * B + l' \<longleftrightarrow> h < h' \<or> h = h' \<and> l < l'"
proof -
  have less: "x * B + y < x' * B + y'" if "x < x'" "y < B" "0 \<le> y'" for x x' y y' :: int
  proof -
    have "(x + 1) * B \<le> x' * B"
      using that assms(1,2) by (intro mult_right_mono) auto
    then show ?thesis
      using that by (simp add: algebra_simps)
  qed
  show ?thesis
    using less [of h h' l l'] less [of h' h l' l] assms by (cases h h' rule: linorder_cases) auto
qed

lemma ucmpXi2_correct: "ucmpXi2 x y = (if x < y then 0 else if x = y then 1 else 2)"
proof (cases x rule: double_word_cases; cases y rule: double_word_cases)
  fix h l h' l' assume xy: "x = make_tu h l" "y = make_tu h' l'"
  have "make_tu h l < make_tu h' l' \<longleftrightarrow> h < h' \<or> h = h' \<and> l < l'"
    unfolding word_less_def uint_make_tu
    by (subst lex_less_int) (auto simp: word_eq_iff_uint uint_lt_2p)
  then show ?thesis
    unfolding ucmpXi2_def xy by (auto simp: s_low_make_tu s_high_make_tu make_tu_eq_iff)
qed

lemma cmpXi2_correct: "cmpXi2 x y = (if sint x < sint y then 0 else if x = y then 1 else 2)"
proof (cases x rule: double_word_cases; cases y rule: double_word_cases)
  fix h l h' l' assume xy: "x = make_tu h l" "y = make_tu h' l'"
  have "sint (make_tu h l) < sint (make_tu h' l') \<longleftrightarrow> sint h < sint h' \<or> h = h' \<and> l < l'"
    unfolding sint_make_tu word_less_def
    by (subst lex_less_int) (auto simp: sint_inject_word uint_lt_2p)
  then show ?thesis
    unfolding cmpXi2_def xy s_low_make_tu s_high_make_tu make_tu_eq_iff
    by (cases "sint h" "sint h'" rule: linorder_cases) (auto simp: sint_inject_word)
qed

section \<open>Properties\<close>

text \<open>C9: \<^verbatim>\<open>__addv*\<close>, \<^verbatim>\<open>__subv*\<close>, \<^verbatim>\<open>__mulv*\<close>,
  \<^verbatim>\<open>__negv*\<close> and \<^verbatim>\<open>__absv*\<close> at the three widths abort exactly when the
  signed operation overflows, and otherwise return its exact result.\<close>

theorem checked_arithmetic:
  fixes a b :: u32 and c d :: u64 and e f :: u128
  shows "addvsi3 a b = (if sint (a + b) = sint a + sint b then Some (a + b) else None) \<and>
    subvsi3 a b = (if sint (a - b) = sint a - sint b then Some (a - b) else None) \<and>
    mulvsi3 a b = (if sint (a * b) = sint a * sint b then Some (a * b) else None) \<and>
    negvsi2 a = (if sint (- a) = - sint a then Some (- a) else None) \<and>
    absvsi2 a = (let r = word_of_int \<bar>sint a\<bar> in if sint r = \<bar>sint a\<bar> then Some r else None) \<and>
    addvdi3 c d = (if sint (c + d) = sint c + sint d then Some (c + d) else None) \<and>
    subvdi3 c d = (if sint (c - d) = sint c - sint d then Some (c - d) else None) \<and>
    mulvdi3 c d = (if sint (c * d) = sint c * sint d then Some (c * d) else None) \<and>
    negvdi2 c = (if sint (- c) = - sint c then Some (- c) else None) \<and>
    absvdi2 c = (let r = word_of_int \<bar>sint c\<bar> in if sint r = \<bar>sint c\<bar> then Some r else None) \<and>
    addvti3 e f = (if sint (e + f) = sint e + sint f then Some (e + f) else None) \<and>
    subvti3 e f = (if sint (e - f) = sint e - sint f then Some (e - f) else None) \<and>
    mulvti3 e f = (if sint (e * f) = sint e * sint f then Some (e * f) else None) \<and>
    negvti2 e = (if sint (- e) = - sint e then Some (- e) else None) \<and>
    absvti2 e = (let r = word_of_int \<bar>sint e\<bar> in if sint r = \<bar>sint e\<bar> then Some r else None)"
  unfolding addvsi3_def addvdi3_def addvti3_def subvsi3_def subvdi3_def subvti3_def mulvsi3_def mulvdi3_def mulvti3_def negvsi2_def negvdi2_def negvti2_def absvsi2_def absvdi2_def absvti2_def
  by (intro conjI addvXi3_correct subvXi3_correct negvXi2_correct absvXi2_correct mulvXi3_correct) simp_all

text \<open>C10: \<^verbatim>\<open>__mulo*\<close> returns the wrapped product, and its flag is set exactly when the
  product overflows; no division inside it is undefined.\<close>

theorem mulo_correct:
  fixes a b :: u32 and c d :: u64 and e f :: u128
  shows "mulosi4 a b = Some (a * b, if sint (a * b) = sint a * sint b then 0 else 1) \<and>
    mulodi4 c d = Some (c * d, if sint (c * d) = sint c * sint d then 0 else 1) \<and>
    muloti4 e f = Some (e * f, if sint (e * f) = sint e * sint f then 0 else 1)"
  unfolding mulosi4_def mulodi4_def muloti4_def by (intro conjI muloXi4_correct) simp_all

text \<open>C13: \<^verbatim>\<open>__cmp*\<close> and \<^verbatim>\<open>__ucmp*\<close> compare double words by their
  halves as signed and unsigned integers, and \<^verbatim>\<open>__neg*\<close> negates.\<close>

theorem compare_correct:
  fixes c d :: u64 and e f :: u128
  shows "cmpdi2 c d = (if sint c < sint d then 0 else if sint c = sint d then 1 else 2) \<and>
    cmpti2 e f = (if sint e < sint f then 0 else if sint e = sint f then 1 else 2) \<and>
    ucmpdi2 c d = (if uint c < uint d then 0 else if uint c = uint d then 1 else 2) \<and>
    ucmpti2 e f = (if uint e < uint f then 0 else if uint e = uint f then 1 else 2) \<and>
    (sint (negdi2 c) = - sint c \<or> sint c = - (2 ^ 63)) \<and> (sint (negti2 e) = - sint e \<or> sint e = - (2 ^ 127))"
  unfolding cmpdi2_def cmpti2_def ucmpdi2_def ucmpti2_def negdi2_def negti2_def cmpXi2_correct ucmpXi2_correct
    sint_minus_word sint_inject_word word_less_def word_eq_iff_uint [symmetric]
  by simp

end
