(* ===== verification/Int_Bits.thy ===== *)
theory Int_Bits
  imports Int_Count
begin

text \<open>
  Byte order and population counts: \<^verbatim>\<open>__bswap*\<close>, \<^verbatim>\<open>__parity*\<close> and
  \<^verbatim>\<open>__popcount*\<close>.

  Shown: the byte order is reversed; the parity routines return the parity of the number of
  one bits, the population counts that number.  The counts work on all fields of a word at
  once; the proofs show that no field overflows into the next, first for a nibble, by its 16
  values, then for a double word from its halves.
\<close>

section \<open>The code\<close>

definition bswapsi2 :: "u32 \<Rightarrow> u32" where
  "bswapsi2 u =
    drop_bit 24 (u AND 0xff000000) OR drop_bit 8 (u AND 0x00ff0000) OR
    push_bit 8 (u AND 0x0000ff00) OR push_bit 24 (u AND 0x000000ff)"

definition bswapdi2 :: "u64 \<Rightarrow> u64" where
  "bswapdi2 u =
    drop_bit 56 (u AND 0xff00000000000000) OR drop_bit 40 (u AND 0x00ff000000000000) OR
    drop_bit 24 (u AND 0x0000ff0000000000) OR drop_bit 8 (u AND 0x000000ff00000000) OR
    push_bit 8 (u AND 0x00000000ff000000) OR push_bit 24 (u AND 0x0000000000ff0000) OR
    push_bit 40 (u AND 0x000000000000ff00) OR push_bit 56 (u AND 0x00000000000000ff)"

definition paritysi2 :: "u32 \<Rightarrow> u32" where
  "paritysi2 a =
    (let x = a;
         x = x XOR drop_bit 16 x;
         x = x XOR drop_bit 8 x;
         x = x XOR drop_bit 4 x
     in drop_bit (unat (x AND 0xF)) 0x6996 AND 1)"

definition paritydi2 :: "u64 \<Rightarrow> u32" where
  "paritydi2 a =
    (let x2 = s_high a XOR s_low a;
         x2 = x2 XOR drop_bit 16 x2;
         x2 = x2 XOR drop_bit 8 x2;
         x2 = x2 XOR drop_bit 4 x2
     in drop_bit (unat (x2 AND 0xF)) 0x6996 AND 1)"

definition parityti2 :: "u128 \<Rightarrow> u32" where
  "parityti2 a =
    (let x2 = s_high a XOR s_low a;
         x3 = s_high x2 XOR s_low x2;
         x3 = x3 XOR drop_bit 16 x3;
         x3 = x3 XOR drop_bit 8 x3;
         x3 = x3 XOR drop_bit 4 x3
     in drop_bit (unat (x3 AND 0xF)) 0x6996 AND 1)"

definition popcountsi2 :: "u32 \<Rightarrow> u32" where
  "popcountsi2 a =
    (let x = a;
         x = x - (drop_bit 1 x AND 0x55555555);
         x = (drop_bit 2 x AND 0x33333333) + (x AND 0x33333333);
         x = (x + drop_bit 4 x) AND 0x0F0F0F0F;
         x = x + drop_bit 16 x
     in (x + drop_bit 8 x) AND 0x0000003F)"

definition popcountdi2 :: "u64 \<Rightarrow> u32" where
  "popcountdi2 a =
    (let x2 = a;
         x2 = x2 - (drop_bit 1 x2 AND 0x5555555555555555);
         x2 = (drop_bit 2 x2 AND 0x3333333333333333) + (x2 AND 0x3333333333333333);
         x2 = (x2 + drop_bit 4 x2) AND 0x0F0F0F0F0F0F0F0F;
         x = ucast (x2 + drop_bit 32 x2) :: u32;
         x = x + drop_bit 16 x
     in (x + drop_bit 8 x) AND 0x0000007F)"

definition popcountti2 :: "u128 \<Rightarrow> u32" where
  "popcountti2 a =
    (let x3 = a;
         x3 = x3 - (drop_bit 1 x3 AND (push_bit 64 0x5555555555555555 OR 0x5555555555555555));
         x3 = (drop_bit 2 x3 AND (push_bit 64 0x3333333333333333 OR 0x3333333333333333)) +
              (x3 AND (push_bit 64 0x3333333333333333 OR 0x3333333333333333));
         x3 = (x3 + drop_bit 4 x3) AND (push_bit 64 0x0F0F0F0F0F0F0F0F OR 0x0F0F0F0F0F0F0F0F);
         x2 = ucast (x3 + drop_bit 64 x3) :: u64;
         x = ucast (x2 + drop_bit 32 x2) :: u32;
         x = x + drop_bit 16 x
     in (x + drop_bit 8 x) AND 0xFF)"

section \<open>Byte order\<close>

lemma byte_mask: "0xff000000 = (push_bit 24 (mask 8) :: u32)" "0x00ff0000 = (push_bit 16 (mask 8) :: u32)"
  "0x0000ff00 = (push_bit 8 (mask 8) :: u32)" "0x000000ff = (mask 8 :: u32)"
  by (simp_all add: mask_eq_exp_minus_1)

lemma byte_mask64: "0xff00000000000000 = (push_bit 56 (mask 8) :: u64)" "0x00ff000000000000 = (push_bit 48 (mask 8) :: u64)"
  "0x0000ff0000000000 = (push_bit 40 (mask 8) :: u64)" "0x000000ff00000000 = (push_bit 32 (mask 8) :: u64)"
  "0x00000000ff000000 = (push_bit 24 (mask 8) :: u64)" "0x0000000000ff0000 = (push_bit 16 (mask 8) :: u64)"
  "0x000000000000ff00 = (push_bit 8 (mask 8) :: u64)" "0x00000000000000ff = (mask 8 :: u64)"
  by (simp_all add: mask_eq_exp_minus_1)

lemma bit_bswapsi2:
  assumes "q < 4" "r < 8"
  shows "bit (bswapsi2 u) (8 * q + r) \<longleftrightarrow> bit u (8 * (3 - q) + r)"
proof -
  have "q = 0 \<or> q = 1 \<or> q = 2 \<or> q = 3"
    using assms(1) by linarith
  then show ?thesis
    unfolding bswapsi2_def byte_mask using assms(2)
    by (elim disjE) (simp_all add: bit_simps)
qed

lemma bit_bswapdi2:
  assumes "q < 8" "r < 8"
  shows "bit (bswapdi2 u) (8 * q + r) \<longleftrightarrow> bit u (8 * (7 - q) + r)"
proof -
  have "q = 0 \<or> q = 1 \<or> q = 2 \<or> q = 3 \<or> q = 4 \<or> q = 5 \<or> q = 6 \<or> q = 7"
    using assms(1) by linarith
  then show ?thesis
    unfolding bswapdi2_def byte_mask64 using assms(2)
    by (elim disjE) (simp_all add: bit_simps)
qed

section \<open>Parity\<close>

primrec parity_of :: "nat \<Rightarrow> 'a::len word \<Rightarrow> bool" where
  "parity_of 0 x = False"
| "parity_of (Suc k) x = (bit x k \<noteq> parity_of k x)"

lemma parity_of_xor: "parity_of k (x XOR y) \<longleftrightarrow> parity_of k x \<noteq> parity_of k y"
  by (induction k) (auto simp: bit_simps)

lemma parity_of_add: "parity_of (j + k) x \<longleftrightarrow> parity_of j x \<noteq> parity_of k (drop_bit j x)"
  by (induction k) (auto simp: bit_simps add.commute)

lemma parity_of_fold: "parity_of k (x XOR drop_bit k x) \<longleftrightarrow> parity_of (k + k) x"
  by (simp add: parity_of_xor parity_of_add)

definition popc :: "'a::len word \<Rightarrow> nat" where
  "popc w = length (filter (bit w) [0..<LENGTH('a)])"

lemma parity_of_sum: "parity_of k x \<longleftrightarrow> odd (length (filter (bit x) [0..<k]))"
  by (induction k) auto

lemma parity_of_popc: "parity_of LENGTH('a) (x :: 'a::len word) \<longleftrightarrow> odd (popc x)"
  by (simp add: popc_def parity_of_sum)

lemma drop_bit_numeral_and_1: "drop_bit n (w :: 'a::len word) AND 1 = of_bool (bit w n)"
  by (simp add: and_one_eq bit_iff_odd_drop_bit mod2_eq_if)

lemma nibble_cases:
  assumes "n < (16 :: nat)"
  obtains b3 b2 b1 b0 where "n = 8 * of_bool b3 + 4 * of_bool b2 + 2 * of_bool b1 + of_bool b0"
proof
  show "n = 8 * of_bool (odd (n div 8)) + 4 * of_bool (odd (n div 4)) + 2 * of_bool (odd (n div 2)) + of_bool (odd n)"
    using assms unfolding odd_iff_mod_2_eq_one by (auto simp: of_bool_def split: if_splits) presburger+
qed

lemma parity_table: "drop_bit (unat (x AND 0xF)) 0x6996 AND 1 = (of_bool (parity_of 4 (x :: u32)) :: u32)"
proof -
  define n where "n = unat (x AND 0xF)"
  have "x AND 0xF = take_bit 4 x"
    by (simp add: take_bit_eq_mask mask_eq_exp_minus_1)
  then have n: "n = take_bit 4 (unat x)"
    unfolding n_def by (simp only: unsigned_take_bit_eq)
  then have bits: "i < 4 \<Longrightarrow> bit x i \<longleftrightarrow> bit n i" for i
    by (simp add: bit_take_bit_iff bit_unat)
  have par: "parity_of 4 x = (bit n 3 \<noteq> (bit n 2 \<noteq> (bit n 1 \<noteq> bit n 0)))"
    using bits by (simp add: eval_nat_numeral)
  have "n < 16"
    using take_bit_nat_less_exp [of 4 "unat x"] n by simp
  then have "bit (0x6996 :: u32) n = (bit n 3 \<noteq> (bit n 2 \<noteq> (bit n 1 \<noteq> bit n 0)))"
  proof (rule nibble_cases)
    fix b3 b2 b1 b0 :: bool
    assume "n = 8 * of_bool b3 + 4 * of_bool b2 + 2 * of_bool b1 + of_bool b0"
    then show ?thesis
      by (cases b3; cases b2; cases b1; cases b0) (simp_all add: bit_numeral_rec bit_0 flip: numeral_2_eq_2 numeral_3_eq_3)
  qed
  then show ?thesis
    unfolding n_def [symmetric] par drop_bit_numeral_and_1 by simp
qed

lemma paritysi2_of: "paritysi2 a = of_bool (odd (popc a))"
proof -
  have "parity_of 4 (x XOR drop_bit 4 x) = parity_of 8 x" "parity_of 8 (x XOR drop_bit 8 x) = parity_of 16 x"
    "parity_of 16 (x XOR drop_bit 16 x) = parity_of 32 x" for x :: u32
    using parity_of_fold [of 4 x] parity_of_fold [of 8 x] parity_of_fold [of 16 x] by simp_all
  then show ?thesis
    using parity_of_popc [of a] by (simp only: paritysi2_def Let_def parity_table) simp
qed

lemma odd_popc_xor: "odd (popc (x XOR y)) \<longleftrightarrow> odd (popc x) \<noteq> odd (popc y)"
  unfolding parity_of_popc [symmetric] by (rule parity_of_xor)

section \<open>Population counts\<close>

text \<open>The three steps that every routine starts with.\<close>

definition pairs :: "'a::len word \<Rightarrow> 'a word \<Rightarrow> 'a word" where
  "pairs m x = x - (drop_bit 1 x AND m)"

definition nibbles :: "'a::len word \<Rightarrow> 'a word \<Rightarrow> 'a word" where
  "nibbles m x = (drop_bit 2 x AND m) + (x AND m)"

definition bytes :: "'a::len word \<Rightarrow> 'a word \<Rightarrow> 'a word" where
  "bytes m x = (x + drop_bit 4 x) AND m"

lemma drop_and_halves:
  fixes h l m :: "'h::len word"
  assumes "0 < k" "k < LENGTH('h)" "uint m < 2 ^ (LENGTH('h) - k)"
  shows "drop_bit k (make_tu h l) AND make_tu m m = make_tu (drop_bit k h AND m) (drop_bit k l AND m)"
proof -
  have "(push_bit (LENGTH('h) - k) h OR drop_bit k l) AND m = drop_bit k l AND m"
    using bit_less_exp [OF assms(3)] by (intro bit_word_eqI) (force simp: bit_simps)
  then show ?thesis
    using assms(1,2) by (simp add: drop_bit_double_lo s_high_make_tu s_low_make_tu make_tu_and)
qed

lemma pairs_halves:
  fixes h l m :: "'h::len word"
  assumes "1 < LENGTH('h)" "uint m < 2 ^ (LENGTH('h) - 1)"
  shows "pairs (make_tu m m) (make_tu h l) = make_tu (pairs m h) (pairs m l)"
proof -
  have "drop_bit 1 l AND m \<le> drop_bit 1 l"
    by (rule word_and_le2)
  also have "\<dots> \<le> l"
    unfolding word_le_def uint_drop_bit_div
    by (simp add: zdiv_mono2 [of "uint l" 1 2, simplified])
  finally have "drop_bit 1 l AND m \<le> l" .
  then show ?thesis
    unfolding pairs_def using assms by (simp only: drop_and_halves zero_less_one make_tu_diff)
qed

lemma nibbles_halves:
  fixes h l m :: "'h::len word"
  assumes "2 < LENGTH('h)" "uint m < 2 ^ (LENGTH('h) - 2)"
  shows "nibbles (make_tu m m) (make_tu h l) = make_tu (nibbles m h) (nibbles m l)"
proof -
  have "uint (drop_bit 2 l AND m) \<le> uint m" "uint (l AND m) \<le> uint m"
    unfolding word_le_def [symmetric] by (rule word_and_le1)+
  moreover have "(2 :: int) ^ 2 * 2 ^ (LENGTH('h) - 2) = 2 ^ LENGTH('h)"
    using assms(1) by (metis power_add le_add_diff_inverse less_imp_le)
  then have "4 * (2 :: int) ^ (LENGTH('h) - 2) = 2 ^ LENGTH('h)"
    by simp
  then have "2 * uint m < 2 ^ LENGTH('h)"
    using assms(2) uint_ge_0 [of m] by linarith
  ultimately show ?thesis
    unfolding nibbles_def using assms
    by (subst drop_and_halves) (simp_all only: make_tu_and, simp_all add: make_tu_add)
qed

lemma uint_less_half:
  assumes "\<not> bit (w :: 'a::len word) (LENGTH('a) - 1)"
  shows "uint w < 2 ^ (LENGTH('a) - 1)"
  using assms by (metis One_nat_def bit_last_iff not_less sint_eq_if uint_ge_0 diff_ge_0_iff_ge linorder_not_less uint_lt_2p diff_less_0_iff_less)

lemma take_bit_add_word:
  fixes x y :: "'a::len word"
  assumes "n \<le> LENGTH('a)"
  shows "take_bit n (x + y) = take_bit n (take_bit n x + take_bit n y)"
proof -
  have "uint (take_bit n (a + b)) = take_bit n (uint a + uint b)" for a b :: "'a word"
    using assms by (simp add: unsigned_take_bit_eq uint_word_ariths min_absorb1 flip: take_bit_eq_mod)
  then show ?thesis
    by (simp add: word_eq_iff_uint unsigned_take_bit_eq take_bit_add)
qed

lemma bytes_halves:
  fixes h l m :: "'h::len word"
  assumes "4 < LENGTH('h)" "uint m < 2 ^ (LENGTH('h) - 4)"
    and "\<not> bit l (LENGTH('h) - 1)" "\<not> bit h 3"
  shows "bytes (make_tu m m) (make_tu h l) = make_tu (bytes m h) (bytes m l)"
proof -
  let ?g = "push_bit (LENGTH('h) - 4) h" and ?N = "LENGTH('h)"
  let ?t = "?g OR drop_bit 4 l"
  have "\<not> bit ?t (?N - 1)"
    using assms by (auto simp: bit_simps dest: bit_imp_le_length)
  then have "uint l + uint ?t < 2 * 2 ^ (?N - 1)"
    using uint_less_half [OF assms(3)] uint_less_half [of ?t] by linarith
  then have nowrap: "uint l + uint ?t < 2 ^ ?N"
    by (simp flip: power_Suc)
  have "?g AND drop_bit 4 l = 0"
    by (rule bit_word_eqI) (auto simp: bit_simps dest: bit_imp_le_length)
  then have "?t = ?g + drop_bit 4 l"
    by (simp add: disjunctive_add_eq_or)
  then have e: "l + ?t = (l + drop_bit 4 l) + ?g"
    by simp
  have "take_bit (?N - 4) ?g = 0"
    by (simp add: take_bit_push_bit)
  then have t: "take_bit (?N - 4) (l + ?t) = take_bit (?N - 4) (l + drop_bit 4 l)"
    unfolding e using take_bit_add_word [of "?N - 4" "l + drop_bit 4 l" ?g] by (simp only: diff_le_self) simp
  have low: "x AND m = take_bit (?N - 4) x AND m" for x
    using bit_less_exp [OF assms(2)] by (intro bit_word_eqI) (auto simp: bit_simps)
  have "(l + ?t) AND m = (l + drop_bit 4 l) AND m"
    using low [of "l + ?t"] low [of "l + drop_bit 4 l"] t by (simp only:)
  moreover have "drop_bit 4 (make_tu h l) = make_tu (drop_bit 4 h) ?t"
    using drop_bit_double_lo [of 4 "make_tu h l"] assms(1) by (simp add: s_high_make_tu s_low_make_tu)
  ultimately show ?thesis
    unfolding bytes_def using nowrap by (simp add: make_tu_add make_tu_and)
qed

text \<open>A nibble.\<close>

definition nib :: "4 word \<Rightarrow> 4 word" where
  "nib x = nibbles 3 (pairs 5 x)"

lemma popc_make_tu: "popc (make_tu h l :: 'h::len bit0 word) = popc h + popc l"
proof -
  have "[0..<LENGTH('h bit0)] = [0..<LENGTH('h)] @ map (\<lambda>i. i + LENGTH('h)) [0..<LENGTH('h)]"
    by (simp add: mult_2 upt_add_eq_append [of 0] map_add_upt)
  then have "popc (make_tu h l) = length (filter (bit (make_tu h l)) [0..<LENGTH('h)]) +
      length (filter (\<lambda>i. bit (make_tu h l) (i + LENGTH('h))) [0..<LENGTH('h)])"
    by (simp add: popc_def filter_map o_def)
  also have "\<dots> = popc h + popc l"
  proof -
    have "filter (bit (make_tu h l)) [0..<LENGTH('h)] = filter (bit l) [0..<LENGTH('h)]"
      "filter (\<lambda>i. bit (make_tu h l) (i + LENGTH('h))) [0..<LENGTH('h)] = filter (bit h) [0..<LENGTH('h)]"
      by (rule filter_cong; simp add: halves_bits)+
    then show ?thesis
      by (simp add: popc_def)
  qed
  finally show ?thesis .
qed

lemma popc_le: "popc (w :: 'a::len word) \<le> LENGTH('a)"
  unfolding popc_def using length_filter_le [of "bit w" "[0..<LENGTH('a)]"] by simp

lemma nib_popc: "unat (nib x) = popc x"
proof -
  have "unat x < 16"
    using unat_lt_2p [of x] by simp
  then obtain b3 b2 b1 b0 where "unat x = 8 * of_bool b3 + 4 * of_bool b2 + 2 * of_bool b1 + of_bool b0"
    by (rule nibble_cases)
  then have "x = word_of_nat (8 * of_bool b3 + 4 * of_bool b2 + 2 * of_bool b1 + of_bool b0)"
    by (metis unsigned_word_eqI unat_of_nat_small unat_lt_2p)
  moreover have "[0..<4] = [0, 1, 2, 3]"
    by (simp add: eval_nat_numeral)
  ultimately show ?thesis
    by (cases b3; cases b2; cases b1; cases b0)
      (simp_all add: nib_def nibbles_def pairs_def popc_def bit_numeral_rec bit_1_iff)
qed

text \<open>From nibbles to a byte, and from a byte to longer words.\<close>

lemma byte_fields:
  fixes x :: u8
  shows "nibbles 0x33 (pairs 0x55 x) = make_tu (nib (s_high x)) (nib (s_low x))"
proof -
  have "(0x55 :: u8) = make_tu 5 5" "(0x33 :: u8) = make_tu 3 3"
    by (simp_all add: make_tu_def)
  then show ?thesis
    using pairs_halves [of 5 "s_high x" "s_low x"] nibbles_halves [of 3 "pairs 5 (s_high x)" "pairs 5 (s_low x)"]
    by (simp add: make_tu_s_high_s_low nib_def)
qed

lemma nib_top: "\<not> bit (nib x) 3"
proof -
  have "unat (nib x) < 2 ^ 3"
    using nib_popc [of x] popc_le [of x] by simp
  then have "int (unat (nib x)) < int (2 ^ 3)"
    by (simp only: of_nat_less_iff)
  then have "uint (nib x) < 2 ^ 3"
    by simp
  then show ?thesis
    using bit_less_exp [of "nib x" 3 3] by blast
qed

definition count_bytes :: "'a::len word \<Rightarrow> 'a word \<Rightarrow> 'a word \<Rightarrow> 'a word \<Rightarrow> 'a word" where
  "count_bytes m5 m3 mF x = bytes mF (nibbles m3 (pairs m5 x))"

definition tame :: "'a::len word \<Rightarrow> 'a word \<Rightarrow> bool" where
  "tame m5 m3 \<longleftrightarrow> (\<forall>x. \<not> bit (nibbles m3 (pairs m5 x)) 3 \<and> \<not> bit (nibbles m3 (pairs m5 x)) (LENGTH('a) - 1))"

lemma tame_byte: "tame (0x55 :: u8) 0x33"
  unfolding tame_def byte_fields using nib_top by (simp add: halves_bits)

lemma fields_halves:
  fixes m5 m3 :: "'h::len word"
  assumes "4 < LENGTH('h)" "uint m5 < 2 ^ (LENGTH('h) - 1)" "uint m3 < 2 ^ (LENGTH('h) - 2)"
  shows "nibbles (make_tu m3 m3) (pairs (make_tu m5 m5) (make_tu h l)) =
      make_tu (nibbles m3 (pairs m5 h)) (nibbles m3 (pairs m5 l))"
  using pairs_halves [OF _ assms(2)] nibbles_halves [OF _ assms(3)] assms(1) by simp

lemma tame_halves:
  fixes m5 m3 :: "'h::len word"
  assumes "4 < LENGTH('h)" "uint m5 < 2 ^ (LENGTH('h) - 1)" "uint m3 < 2 ^ (LENGTH('h) - 2)" "tame m5 m3"
  shows "tame (make_tu m5 m5) (make_tu m3 m3)"
proof -
  have "\<not> bit (nibbles (make_tu m3 m3) (pairs (make_tu m5 m5) x)) 3 \<and>
      \<not> bit (nibbles (make_tu m3 m3) (pairs (make_tu m5 m5) x)) (LENGTH('h bit0) - 1)" for x
    using assms(1,4) by (cases x rule: double_word_cases) (auto simp: fields_halves [OF assms(1-3)] halves_bits tame_def)
  then show "tame (make_tu m5 m5) (make_tu m3 m3)"
    unfolding tame_def by blast
qed

lemma count_bytes_halves:
  fixes m5 m3 mF :: "'h::len word"
  assumes "4 < LENGTH('h)" "uint m5 < 2 ^ (LENGTH('h) - 1)" "uint m3 < 2 ^ (LENGTH('h) - 2)"
    "tame m5 m3" "uint mF < 2 ^ (LENGTH('h) - 4)"
  shows "count_bytes (make_tu m5 m5) (make_tu m3 m3) (make_tu mF mF) (make_tu h l) =
      make_tu (count_bytes m5 m3 mF h) (count_bytes m5 m3 mF l)"
  using bytes_halves [OF assms(1,5)] assms(4) fields_halves [OF assms(1-3)]
  unfolding count_bytes_def tame_def by simp

lemma count_byte_popc: "unat (count_bytes 0x55 0x33 0x0F x) = popc (x :: u8)"
proof -
  define a b where "a = popc (s_high x)" and "b = popc (s_low x)"
  have ab: "a \<le> 4" "b \<le> 4" "popc x = a + b"
    using popc_le [of "s_high x"] popc_le [of "s_low x"] popc_make_tu [of "s_high x" "s_low x"]
    by (simp_all add: a_def b_def make_tu_s_high_s_low)
  let ?y = "nibbles 0x33 (pairs 0x55 x)"
  have y: "unat ?y = a * 16 + b"
    unfolding byte_fields by (simp add: unat_make_tu nib_popc a_def b_def)
  then have "unat (drop_bit 4 ?y) = a"
    using ab by (simp add: unat_drop_bit_div)
  then have "unat (?y + drop_bit 4 ?y) = a * 16 + b + a"
    using y ab by (subst unat_word_ariths) simp
  moreover have "w AND 0x0F = take_bit 4 w" for w :: u8
    by (simp add: take_bit_eq_mask mask_eq_exp_minus_1)
  moreover have "(a * 16 + b + a) mod 2 ^ 4 = a + b"
  proof -
    have "a * 16 + b + a = (a + b) + a * 2 ^ 4"
      by simp
    then show ?thesis
      using ab by (simp only: mod_mult_self1) simp
  qed
  ultimately show ?thesis
    unfolding count_bytes_def bytes_def ab by (simp only: unsigned_take_bit_eq take_bit_eq_mod [of 4 "_ :: nat"])
qed

lemma masks16: "(0x5555 :: u16) = make_tu 0x55 0x55" "(0x3333 :: u16) = make_tu 0x33 0x33" "(0x0F0F :: u16) = make_tu 0x0F 0x0F"
  by (simp_all add: make_tu_def)
lemma masks32: "(0x55555555 :: u32) = make_tu 0x5555 0x5555" "(0x33333333 :: u32) = make_tu 0x3333 0x3333" "(0x0F0F0F0F :: u32) = make_tu 0x0F0F 0x0F0F"
  by (simp_all add: make_tu_def)
lemma masks64: "(0x5555555555555555 :: u64) = make_tu 0x55555555 0x55555555"
  "(0x3333333333333333 :: u64) = make_tu 0x33333333 0x33333333" "(0x0F0F0F0F0F0F0F0F :: u64) = make_tu 0x0F0F0F0F 0x0F0F0F0F"
  by (simp_all add: make_tu_def)
lemma masks128: "push_bit 64 0x5555555555555555 OR 0x5555555555555555 = (make_tu 0x5555555555555555 0x5555555555555555 :: u128)"
  "push_bit 64 0x3333333333333333 OR 0x3333333333333333 = (make_tu 0x3333333333333333 0x3333333333333333 :: u128)"
  "push_bit 64 0x0F0F0F0F0F0F0F0F OR 0x0F0F0F0F0F0F0F0F = (make_tu 0x0F0F0F0F0F0F0F0F 0x0F0F0F0F0F0F0F0F :: u128)"
  by (simp_all add: make_tu_def)

lemma count16:
  "count_bytes 0x5555 0x3333 0x0F0F (make_tu h l :: u16) =
    make_tu (count_bytes 0x55 0x33 0x0F h) (count_bytes 0x55 0x33 0x0F l)"
  "tame (0x5555 :: u16) 0x3333"
  unfolding masks16 by (rule count_bytes_halves tame_halves; simp add: tame_byte)+

lemma count32:
  "count_bytes 0x55555555 0x33333333 0x0F0F0F0F (make_tu h l :: u32) =
    make_tu (count_bytes 0x5555 0x3333 0x0F0F h) (count_bytes 0x5555 0x3333 0x0F0F l)"
  "tame (0x55555555 :: u32) 0x33333333"
  unfolding masks32 by (rule count_bytes_halves tame_halves; simp add: count16)+

lemma count64:
  "count_bytes 0x5555555555555555 0x3333333333333333 0x0F0F0F0F0F0F0F0F (make_tu h l :: u64) =
    make_tu (count_bytes 0x55555555 0x33333333 0x0F0F0F0F h) (count_bytes 0x55555555 0x33333333 0x0F0F0F0F l)"
  "tame (0x5555555555555555 :: u64) 0x3333333333333333"
  unfolding masks64 by (rule count_bytes_halves tame_halves; simp add: count32)+

lemma count128:
  "count_bytes (push_bit 64 0x5555555555555555 OR 0x5555555555555555) (push_bit 64 0x3333333333333333 OR 0x3333333333333333)
     (push_bit 64 0x0F0F0F0F0F0F0F0F OR 0x0F0F0F0F0F0F0F0F) (make_tu h l :: u128) =
    make_tu (count_bytes 0x5555555555555555 0x3333333333333333 0x0F0F0F0F0F0F0F0F h)
      (count_bytes 0x5555555555555555 0x3333333333333333 0x0F0F0F0F0F0F0F0F l)"
  unfolding masks128 by (rule count_bytes_halves; simp add: count64)

text \<open>A word of four byte sums, each at most \<open>k\<close>, that add up to \<open>n\<close>.\<close>

definition four_sums :: "u32 \<Rightarrow> nat \<Rightarrow> nat \<Rightarrow> bool" where
  "four_sums w n k \<longleftrightarrow> (\<exists>c0 c1 c2 c3. c0 \<le> k \<and> c1 \<le> k \<and> c2 \<le> k \<and> c3 \<le> k \<and> n = c0 + c1 + c2 + c3 \<and>
     unat w = c0 + 256 * c1 + 65536 * c2 + 16777216 * c3)"

lemma four_sumsI:
  "c0 \<le> k \<Longrightarrow> c1 \<le> k \<Longrightarrow> c2 \<le> k \<Longrightarrow> c3 \<le> k \<Longrightarrow> n = c0 + c1 + c2 + c3 \<Longrightarrow>
    unat w = c0 + 256 * c1 + 65536 * c2 + 16777216 * c3 \<Longrightarrow> four_sums w n k"
  unfolding four_sums_def by blast

lemma four_sums_count: "four_sums (count_bytes 0x55555555 0x33333333 0x0F0F0F0F x) (popc x) 8"
proof (cases x rule: double_word_cases)
  case (1 h l)
  have two: "\<exists>c0 c1. c0 \<le> 8 \<and> c1 \<le> 8 \<and> popc y = c0 + c1 \<and>
      unat (count_bytes 0x5555 0x3333 0x0F0F y) = c0 + 256 * c1" for y :: u16
  proof (cases y rule: double_word_cases)
    case (1 a b)
    then show ?thesis
      using popc_le [of a] popc_le [of b]
      by (intro exI [of _ "popc b"] exI [of _ "popc a"])
        (simp add: count16 unat_make_tu count_byte_popc popc_make_tu)
  qed
  obtain c0 c1 c2 c3 where "c0 \<le> 8" "c1 \<le> 8" "c2 \<le> 8" "c3 \<le> 8" "popc l = c0 + c1" "popc h = c2 + c3"
    "unat (count_bytes 0x5555 0x3333 0x0F0F l) = c0 + 256 * c1" "unat (count_bytes 0x5555 0x3333 0x0F0F h) = c2 + 256 * c3"
    using two [of l] two [of h] by blast
  then show ?thesis
    unfolding 1 count32 popc_make_tu
    by (intro four_sumsI [of c0 _ c1 c2 c3]) (simp_all add: unat_make_tu)
qed

lemma four_sums_add:
  assumes "four_sums v m j" "four_sums w n k" "j \<le> 16" "k \<le> 16"
  shows "four_sums (v + w) (m + n) (j + k)" "uint v + uint w < 2 ^ 32"
proof -
  obtain c0 c1 c2 c3 where
    c: "c0 \<le> j" "c1 \<le> j" "c2 \<le> j" "c3 \<le> j" "m = c0 + c1 + c2 + c3" "unat v = c0 + 256 * c1 + 65536 * c2 + 16777216 * c3"
    using assms(1) unfolding four_sums_def by (elim exE conjE)
  obtain d0 d1 d2 d3 where
    d: "d0 \<le> k" "d1 \<le> k" "d2 \<le> k" "d3 \<le> k" "n = d0 + d1 + d2 + d3" "unat w = d0 + 256 * d1 + 65536 * d2 + 16777216 * d3"
    using assms(2) unfolding four_sums_def by (elim exE conjE)
  have "unat v \<le> 16843009 * 16" "unat w \<le> 16843009 * 16"
    using c d assms(3,4) by linarith+
  then have lt: "unat v + unat w < 2 ^ 32"
    by simp
  then have "int (unat v + unat w) < int (2 ^ 32)"
    by (simp only: of_nat_less_iff)
  then show "uint v + uint w < 2 ^ 32"
    by simp
  have "unat (v + w) = unat v + unat w"
    using lt by (simp add: unat_word_ariths)
  then show "four_sums (v + w) (m + n) (j + k)"
    using c d by (intro four_sumsI [of "c0 + d0" _ "c1 + d1" "c2 + d2" "c3 + d3"]) (simp_all add: add_mono)
qed

lemma four_sums_fold:
  assumes "four_sums w n k" "k \<le> 32" "n < 2 ^ j" "j \<le> 8"
  defines "y \<equiv> w + drop_bit 16 w"
  shows "unat ((y + drop_bit 8 y) AND mask j) = n"
proof -
  obtain c0 c1 c2 c3 where c: "c0 \<le> k" "c1 \<le> k" "c2 \<le> k" "c3 \<le> k" "n = c0 + c1 + c2 + c3"
    "unat w = c0 + 256 * c1 + 65536 * c2 + 16777216 * c3"
    using assms(1) unfolding four_sums_def by (elim exE conjE)
  have "unat (drop_bit 16 w) = c2 + 256 * c3"
    unfolding unat_drop_bit_div using c assms(2) by (intro div_nat_eqI) simp_all
  then have y: "unat y = c0 + c2 + 256 * (c1 + c3) + 65536 * c2 + 16777216 * c3"
    unfolding y_def using c assms(2) by (subst unat_word_ariths) simp
  then have "unat (drop_bit 8 y) = c1 + c3 + 256 * c2 + 65536 * c3"
    unfolding unat_drop_bit_div using c assms(2) by (intro div_nat_eqI) simp_all
  then have z: "unat (y + drop_bit 8 y) = n + 256 * (c1 + c3 + 256 * c2 + 65536 * c3 + c2 + 256 * c3)"
    using c y assms(2) by (subst unat_word_ariths) simp
  have "unat ((y + drop_bit 8 y) AND mask j) = unat (y + drop_bit 8 y) mod 2 ^ j"
    by (simp only: take_bit_eq_mask [symmetric] unsigned_take_bit_eq) (simp only: take_bit_eq_mod)
  also have "\<dots> = n mod 2 ^ j"
  proof -
    have "(256 :: nat) = 2 ^ j * 2 ^ (8 - j)"
      using assms(4) by (simp flip: power_add)
    then show ?thesis
      unfolding z by (simp only: mult.assoc mod_mult_self2)
  qed
  finally show ?thesis
    using assms(3) by simp
qed

lemma popcountsi2_correct: "unat (popcountsi2 a) = popc a"
proof -
  have "popcountsi2 a = (let x = count_bytes 0x55555555 0x33333333 0x0F0F0F0F a; y = x + drop_bit 16 x
      in (y + drop_bit 8 y) AND mask 6)"
    by (simp only: popcountsi2_def count_bytes_def bytes_def nibbles_def pairs_def Let_def) (simp add: mask_eq_exp_minus_1)
  then show ?thesis
    using four_sums_fold [OF four_sums_count, of a 6] popc_le [of a] by (simp add: Let_def)
qed

lemma fold_halves:
  fixes h l :: "'h::len word"
  assumes "uint l + uint h < 2 ^ LENGTH('h)"
  shows "ucast (make_tu h l + drop_bit LENGTH('h) (make_tu h l)) = l + h"
proof -
  have "drop_bit LENGTH('h) (make_tu h l) = make_tu 0 h"
    using drop_bit_double_hi [of 0 "make_tu h l"] by (simp add: s_high_make_tu)
  then show ?thesis
    using assms by (simp add: make_tu_add s_low_make_tu flip: s_low_def)
qed

lemma popcountdi2_correct: "unat (popcountdi2 a) = popc a"
proof (cases a rule: double_word_cases)
  case (1 h l)
  let ?c = "count_bytes 0x55555555 0x33333333 0x0F0F0F0F"
  note s = four_sums_add [OF four_sums_count [of l] four_sums_count [of h], simplified]
  have "ucast (make_tu (?c h) (?c l) + drop_bit 32 (make_tu (?c h) (?c l))) = ?c l + ?c h"
    using fold_halves [of "?c l" "?c h"] s(2) by simp
  then have "popcountdi2 a = (let x = ?c l + ?c h; y = x + drop_bit 16 x in (y + drop_bit 8 y) AND mask 7)"
    using count64(1) [of h l] unfolding 1
    by (simp only: popcountdi2_def count_bytes_def bytes_def nibbles_def pairs_def Let_def) (simp add: mask_eq_exp_minus_1)
  then show ?thesis
    using four_sums_fold [OF s(1), of 7] popc_le [of a] popc_le [of h] popc_le [of l] unfolding 1
    by (simp add: Let_def popc_make_tu add.commute)
qed

lemma popcountti2_correct: "unat (popcountti2 a) = popc a"
proof (cases a rule: double_word_cases)
  case (1 h l)
  obtain h1 h0 l1 l0 where hl: "h = make_tu h1 h0" "l = make_tu l1 l0"
    by (metis make_tu_s_high_s_low)
  let ?c = "count_bytes 0x55555555 0x33333333 0x0F0F0F0F"
  let ?C = "count_bytes 0x5555555555555555 0x3333333333333333 0x0F0F0F0F0F0F0F0F"
  have C: "?C h = make_tu (?c h1) (?c h0)" "?C l = make_tu (?c l1) (?c l0)"
    unfolding hl by (rule count64(1))+
  note s0 = four_sums_add [OF four_sums_count [of l0] four_sums_count [of h0], simplified]
  note s1 = four_sums_add [OF four_sums_count [of l1] four_sums_count [of h1], simplified]
  note s = four_sums_add [OF s0(1) s1(1), simplified]
  have low: "?C l + ?C h = make_tu (?c l1 + ?c h1) (?c l0 + ?c h0)"
    unfolding C using s0(2) by (simp add: make_tu_add)
  have "uint (?C l) + uint (?C h) < 2 ^ 64"
    unfolding C uint_make_tu using s0(2) s1(2) by simp
  then have "ucast (make_tu (?C h) (?C l) + drop_bit 64 (make_tu (?C h) (?C l))) = ?C l + ?C h"
    using fold_halves [of "?C l" "?C h"] by simp
  moreover have "ucast ((?C l + ?C h) + drop_bit 32 (?C l + ?C h)) = (?c l0 + ?c h0) + (?c l1 + ?c h1)"
    unfolding low using fold_halves [of "?c l0 + ?c h0" "?c l1 + ?c h1"] s(2) by simp
  ultimately have "popcountti2 a = (let x = (?c l0 + ?c h0) + (?c l1 + ?c h1); y = x + drop_bit 16 x
      in (y + drop_bit 8 y) AND mask 8)"
    using count128 [of h l] unfolding 1
    by (simp only: popcountti2_def count_bytes_def bytes_def nibbles_def pairs_def Let_def) (simp add: mask_eq_exp_minus_1)
  then show ?thesis
    using four_sums_fold [OF s(1), of 8] popc_le [of h1] popc_le [of h0] popc_le [of l1] popc_le [of l0] unfolding 1 hl
    by (simp add: Let_def popc_make_tu ac_simps)
qed
section \<open>Properties\<close>

lemma paritydi2_of: "paritydi2 a = of_bool (odd (popc a))"
proof -
  have "paritydi2 a = paritysi2 (s_high a XOR s_low a)"
    by (simp only: paritydi2_def paritysi2_def Let_def)
  then show ?thesis
    using popc_make_tu [of "s_high a" "s_low a"] by (simp add: paritysi2_of odd_popc_xor make_tu_s_high_s_low)
qed

lemma parityti2_of: "parityti2 a = of_bool (odd (popc a))"
proof -
  have "parityti2 a = paritydi2 (s_high a XOR s_low a)"
    by (simp only: parityti2_def paritydi2_def Let_def)
  then show ?thesis
    using popc_make_tu [of "s_high a" "s_low a"] by (simp add: paritydi2_of odd_popc_xor make_tu_s_high_s_low)
qed

text \<open>C11: \<^verbatim>\<open>__popcount*\<close> returns the number of one bits of its argument and
  \<^verbatim>\<open>__parity*\<close> the parity of that number, at the three widths.\<close>

theorem popcount_parity_correct:
  fixes a :: u32 and c :: u64 and e :: u128
  shows "unat (popcountsi2 a) = popc a \<and> unat (popcountdi2 c) = popc c \<and> unat (popcountti2 e) = popc e \<and>
    unat (paritysi2 a) = popc a mod 2 \<and> unat (paritydi2 c) = popc c mod 2 \<and> unat (parityti2 e) = popc e mod 2"
  by (simp add: popcountsi2_correct popcountdi2_correct popcountti2_correct paritysi2_of paritydi2_of parityti2_of
      odd_iff_mod_2_eq_one)

text \<open>C12: \<^verbatim>\<open>__bswapsi2\<close> and \<^verbatim>\<open>__bswapdi2\<close> reverse the bytes of their
  argument, and are their own inverses.\<close>

theorem bswap_correct:
  fixes u :: u32 and v :: u64
  shows "map (\<lambda>i. take_bit 8 (drop_bit (8 * i) (bswapsi2 u))) [0..<4] =
      rev (map (\<lambda>i. take_bit 8 (drop_bit (8 * i) u)) [0..<4]) \<and>
    map (\<lambda>i. take_bit 8 (drop_bit (8 * i) (bswapdi2 v))) [0..<8] =
      rev (map (\<lambda>i. take_bit 8 (drop_bit (8 * i) v)) [0..<8]) \<and>
    bswapsi2 (bswapsi2 u) = u \<and> bswapdi2 (bswapdi2 v) = v"
proof (intro conjI)
  have b32: "take_bit 8 (drop_bit (8 * q) (bswapsi2 u)) = take_bit 8 (drop_bit (8 * (3 - q)) u)" if "q < 4" for q
    using that bit_bswapsi2 [of q _ u] by (intro bit_word_eqI) (auto simp: bit_simps)
  have b64: "take_bit 8 (drop_bit (8 * q) (bswapdi2 v)) = take_bit 8 (drop_bit (8 * (7 - q)) v)" if "q < 8" for q
    using that bit_bswapdi2 [of q _ v] by (intro bit_word_eqI) (auto simp: bit_simps)
  show "map (\<lambda>i. take_bit 8 (drop_bit (8 * i) (bswapsi2 u))) [0..<4] =
      rev (map (\<lambda>i. take_bit 8 (drop_bit (8 * i) u)) [0..<4])"
    using b32 [of 0] b32 [of 1] b32 [of 2] b32 [of 3] by (simp add: upt_conv_Cons eval_nat_numeral)
  show "map (\<lambda>i. take_bit 8 (drop_bit (8 * i) (bswapdi2 v))) [0..<8] =
      rev (map (\<lambda>i. take_bit 8 (drop_bit (8 * i) v)) [0..<8])"
    using b64 [of 0] b64 [of 1] b64 [of 2] b64 [of 3] b64 [of 4] b64 [of 5] b64 [of 6] b64 [of 7]
    by (simp add: upt_conv_Cons eval_nat_numeral)
  show "bswapsi2 (bswapsi2 u) = u"
  proof (rule bit_word_eqI)
    fix n assume "n < LENGTH(32)"
    then have "n div 8 < 4" "n mod 8 < 8" by simp_all
    then show "bit (bswapsi2 (bswapsi2 u)) n = bit u n"
      using bit_bswapsi2 [of "n div 8" "n mod 8" "bswapsi2 u"] bit_bswapsi2 [of "3 - n div 8" "n mod 8" u]
      by simp
  qed
  show "bswapdi2 (bswapdi2 v) = v"
  proof (rule bit_word_eqI)
    fix n assume "n < LENGTH(64)"
    then have "n div 8 < 8" "n mod 8 < 8" by simp_all
    then show "bit (bswapdi2 (bswapdi2 v)) n = bit v n"
      using bit_bswapdi2 [of "n div 8" "n mod 8" "bswapdi2 v"] bit_bswapdi2 [of "7 - n div 8" "n mod 8" v]
      by simp
  qed
qed

end
