(* ===== verification/Bit_Vector.thy ===== *)
theory Bit_Vector
  imports Int_Count
begin

text \<open>
  The bit vectors of \<^verbatim>\<open>sanitizer_bitvector.h\<close>: the interface that
  \<^verbatim>\<open>BVGraph\<close> and \<^verbatim>\<open>TwoLevelBitVector\<close> expect from their template argument
  \<^verbatim>\<open>BV\<close>, and the class \<^verbatim>\<open>BasicBitVector\<close> that implements it on one integer.

  A template argument is a record of its methods (\<open>bv_ops\<close>, \<open>bv_it_ops\<close> for the nested class
  \<^verbatim>\<open>Iterator\<close>), which the definitions of the client take as an argument.  A method that
  changes the object returns the new object with its result.  Indices (\<^verbatim>\<open>usize\<close>) are
  natural numbers: nothing here computes an index that is not below the size of a vector.

  The locale \<open>bit_vector\<close> states what a client relies on: a vector stands for a set of indices,
  and every method is the set operation it names.  It is interpreted here for
  \<^verbatim>\<open>BasicBitVector\<close> at any width, and in \<open>Two_Level_BV\<close> for \<^verbatim>\<open>TwoLevelBitVector\<close>.
\<close>

section \<open>The interface\<close>

record 'bv bv_ops =
  bv_size :: nat
  bv_clear :: "'bv \<Rightarrow> 'bv"
  bv_setAll :: "'bv \<Rightarrow> 'bv option"
  bv_empty :: "'bv \<Rightarrow> bool"
  bv_setBit :: "'bv \<Rightarrow> nat \<Rightarrow> ('bv \<times> bool) option"
  bv_clearBit :: "'bv \<Rightarrow> nat \<Rightarrow> ('bv \<times> bool) option"
  bv_getBit :: "'bv \<Rightarrow> nat \<Rightarrow> bool option"
  bv_getAndClearFirstOne :: "'bv \<Rightarrow> ('bv \<times> nat) option"
  bv_setUnion :: "'bv \<Rightarrow> 'bv \<Rightarrow> ('bv \<times> bool) option"
  bv_setIntersection :: "'bv \<Rightarrow> 'bv \<Rightarrow> ('bv \<times> bool) option"
  bv_setDifference :: "'bv \<Rightarrow> 'bv \<Rightarrow> ('bv \<times> bool) option"
  bv_copyFrom :: "'bv \<Rightarrow> 'bv \<Rightarrow> 'bv option"
  bv_intersectsWith :: "'bv \<Rightarrow> 'bv \<Rightarrow> bool option"

record ('bv, 'it) bv_it_ops =
  it_new :: "'bv \<Rightarrow> 'it"
  it_hasNext :: "'it \<Rightarrow> bool"
  it_next :: "'it \<Rightarrow> ('it \<times> nat) option"
  it_cleared :: "'it"

text \<open>
  The loop \<^verbatim>\<open>while (!t.empty()) { idx = t.getAndClearFirstOne(); ... }\<close> whose body works
  on a state \<open>s\<close> and leaves \<open>t\<close> alone.
\<close>

partial_function (option) bv_drain ::
  "'bv bv_ops \<Rightarrow> (nat \<Rightarrow> 's \<Rightarrow> 's option) \<Rightarrow> 'bv \<Rightarrow> 's \<Rightarrow> ('bv \<times> 's) option" where
  "bv_drain ops body t s =
     (if bv_empty ops t then Some (t, s)
      else do {
        (t, i) \<leftarrow> bv_getAndClearFirstOne ops t;
        s \<leftarrow> body i s;
        bv_drain ops body t s
      })"

text \<open>The same for a local vector \<open>t\<close> that is not used afterwards.\<close>

definition bv_foreach ::
  "'bv bv_ops \<Rightarrow> (nat \<Rightarrow> 's \<Rightarrow> 's option) \<Rightarrow> 'bv \<Rightarrow> 's \<Rightarrow> 's option" where
  "bv_foreach ops body t s = map_option snd (bv_drain ops body t s)"

section \<open>BasicBitVector\<close>

definition basic_mask :: "nat \<Rightarrow> 'a::len word option" where
  "basic_mask idx = do { check (idx < LENGTH('a)); Some (push_bit idx 1) }"

definition basic_setBit :: "'a::len word \<Rightarrow> nat \<Rightarrow> ('a word \<times> bool) option" where
  "basic_setBit bits idx = do {
     m \<leftarrow> basic_mask idx;
     let bits' = bits OR m;
     Some (bits', bits' \<noteq> bits) }"

definition basic_clearBit :: "'a::len word \<Rightarrow> nat \<Rightarrow> ('a word \<times> bool) option" where
  "basic_clearBit bits idx = do {
     m \<leftarrow> basic_mask idx;
     let bits' = bits AND NOT m;
     Some (bits', bits' \<noteq> bits) }"

definition basic_getBit :: "'a::len word \<Rightarrow> nat \<Rightarrow> bool option" where
  "basic_getBit bits idx = do { m \<leftarrow> basic_mask idx; Some (bits AND m \<noteq> 0) }"

definition basic_getAndClearFirstOne :: "'a::len word \<Rightarrow> ('a word \<times> nat) option" where
  "basic_getAndClearFirstOne bits = do {
     check (bits \<noteq> 0);
     let idx = builtin_ctz bits;
     (bits, _) \<leftarrow> basic_clearBit bits idx;
     Some (bits, idx) }"

definition basic_setUnion :: "'a::len word \<Rightarrow> 'a word \<Rightarrow> ('a word \<times> bool) option" where
  "basic_setUnion bits v = (let bits' = bits OR v in Some (bits', bits' \<noteq> bits))"

definition basic_setIntersection :: "'a::len word \<Rightarrow> 'a word \<Rightarrow> ('a word \<times> bool) option" where
  "basic_setIntersection bits v = (let bits' = bits AND v in Some (bits', bits' \<noteq> bits))"

definition basic_setDifference :: "'a::len word \<Rightarrow> 'a word \<Rightarrow> ('a word \<times> bool) option" where
  "basic_setDifference bits v = (let bits' = bits AND NOT v in Some (bits', bits' \<noteq> bits))"

definition basic_intersectsWith :: "'a::len word \<Rightarrow> 'a word \<Rightarrow> bool option" where
  "basic_intersectsWith bits v = Some (bits AND v \<noteq> 0)"

definition basic_ops :: "'a::len word bv_ops" where
  "basic_ops = \<lparr>
     bv_size = LENGTH('a),
     bv_clear = (\<lambda>_. 0),
     bv_setAll = (\<lambda>_. Some (NOT 0)),
     bv_empty = (\<lambda>bits. bits = 0),
     bv_setBit = basic_setBit,
     bv_clearBit = basic_clearBit,
     bv_getBit = basic_getBit,
     bv_getAndClearFirstOne = basic_getAndClearFirstOne,
     bv_setUnion = basic_setUnion,
     bv_setIntersection = basic_setIntersection,
     bv_setDifference = basic_setDifference,
     bv_copyFrom = (\<lambda>_ v. Some v),
     bv_intersectsWith = basic_intersectsWith \<rparr>"

definition basic_it_ops :: "('a::len word, 'a word) bv_it_ops" where
  "basic_it_ops = \<lparr>
     it_new = (\<lambda>bv. bv),
     it_hasNext = (\<lambda>bv. \<not> bv_empty basic_ops bv),
     it_next = bv_getAndClearFirstOne basic_ops,
     it_cleared = 0 \<rparr>"

section \<open>The contract\<close>

text \<open>
  \<open>shape\<close> holds of any object of the class, also one whose memory was never initialised (the
  class has no constructor); \<open>inv\<close> holds once \<^verbatim>\<open>clear\<close>, \<^verbatim>\<open>setAll\<close> or
  \<^verbatim>\<open>copyFrom\<close> has run; \<open>abs\<close> is the set of indices the vector stands for.
\<close>

locale bit_vector =
  fixes ops :: "'bv bv_ops"
    and shape :: "'bv \<Rightarrow> bool"
    and inv :: "'bv \<Rightarrow> bool"
    and abs :: "'bv \<Rightarrow> nat set"
  assumes size_pos: "0 < bv_size ops"
    and inv_shape: "inv bv \<Longrightarrow> shape bv"
    and abs_bound: "inv bv \<Longrightarrow> abs bv \<subseteq> {..<bv_size ops}"
    and clear_ok: "shape bv \<Longrightarrow> inv (bv_clear ops bv) \<and> abs (bv_clear ops bv) = {}"
    and setAll_ok: "shape bv \<Longrightarrow>
      \<exists>bv'. bv_setAll ops bv = Some bv' \<and> inv bv' \<and> abs bv' = {..<bv_size ops}"
    and empty_ok: "inv bv \<Longrightarrow> bv_empty ops bv \<longleftrightarrow> abs bv = {}"
    and setBit_ok: "\<lbrakk> inv bv; i < bv_size ops \<rbrakk> \<Longrightarrow>
      \<exists>bv'. bv_setBit ops bv i = Some (bv', i \<notin> abs bv) \<and> inv bv' \<and> abs bv' = insert i (abs bv)"
    and clearBit_ok: "\<lbrakk> inv bv; i < bv_size ops \<rbrakk> \<Longrightarrow>
      \<exists>bv'. bv_clearBit ops bv i = Some (bv', i \<in> abs bv) \<and> inv bv' \<and> abs bv' = abs bv - {i}"
    and getBit_ok: "\<lbrakk> inv bv; i < bv_size ops \<rbrakk> \<Longrightarrow> bv_getBit ops bv i = Some (i \<in> abs bv)"
    and first_ok: "\<lbrakk> inv bv; abs bv \<noteq> {} \<rbrakk> \<Longrightarrow>
      \<exists>bv'. bv_getAndClearFirstOne ops bv = Some (bv', Min (abs bv)) \<and> inv bv' \<and>
        abs bv' = abs bv - {Min (abs bv)}"
    and setUnion_ok: "\<lbrakk> inv bv; inv w \<rbrakk> \<Longrightarrow>
      \<exists>bv'. bv_setUnion ops bv w = Some (bv', \<not> abs w \<subseteq> abs bv) \<and> inv bv' \<and>
        abs bv' = abs bv \<union> abs w"
    and setIntersection_ok: "\<lbrakk> inv bv; inv w \<rbrakk> \<Longrightarrow>
      \<exists>bv'. bv_setIntersection ops bv w = Some (bv', \<not> abs bv \<subseteq> abs w) \<and> inv bv' \<and>
        abs bv' = abs bv \<inter> abs w"
    and setDifference_ok: "\<lbrakk> inv bv; inv w \<rbrakk> \<Longrightarrow>
      \<exists>bv'. bv_setDifference ops bv w = Some (bv', abs bv \<inter> abs w \<noteq> {}) \<and> inv bv' \<and>
        abs bv' = abs bv - abs w"
    and copyFrom_ok: "\<lbrakk> shape bv; inv w \<rbrakk> \<Longrightarrow>
      \<exists>bv'. bv_copyFrom ops bv w = Some bv' \<and> inv bv' \<and> abs bv' = abs w"
    and intersectsWith_ok: "\<lbrakk> inv bv; inv w \<rbrakk> \<Longrightarrow>
      bv_intersectsWith ops bv w = Some (abs bv \<inter> abs w \<noteq> {})"
begin

lemma finite_abs: "inv bv \<Longrightarrow> finite (abs bv)"
  using abs_bound finite_subset by blast

lemma abs_less: "\<lbrakk> inv bv; i \<in> abs bv \<rbrakk> \<Longrightarrow> i < bv_size ops"
  using abs_bound by blast

text \<open>The loop runs its body once for every index of the vector, in increasing order.\<close>

lemma drain_ok:
  assumes "inv t"
  shows "\<exists>t'. inv t' \<and> abs t' = {} \<and>
    (\<forall>s. bv_drain ops body t s = map_option (Pair t') (foldM body (sorted_list_of_set (abs t)) s))"
  using assms
proof (induction "card (abs t)" arbitrary: t)
  case 0
  then have "abs t = {}"
    using finite_abs by simp
  with 0 show ?case
    by (intro exI [of _ t]) (subst bv_drain.simps, simp add: empty_ok)
next
  case (Suc n)
  then have ne: "abs t \<noteq> {}"
    by auto
  obtain t' where t': "bv_getAndClearFirstOne ops t = Some (t', Min (abs t))" "inv t'"
    "abs t' = abs t - {Min (abs t)}"
    using first_ok [OF Suc.prems ne] by blast
  have "card (abs t') = n"
    using Suc.hyps(2) ne finite_abs [OF Suc.prems] t'(3) by simp
  then obtain t'' where t'': "inv t''" "abs t'' = {}"
    "\<And>s. bv_drain ops body t' s = map_option (Pair t'') (foldM body (sorted_list_of_set (abs t')) s)"
    using Suc.hyps(1) t'(2) by blast
  have "sorted_list_of_set (abs t) = Min (abs t) # sorted_list_of_set (abs t')"
    using sorted_list_of_set_nonempty [OF finite_abs [OF Suc.prems] ne] t'(3) by simp
  then have "bv_drain ops body t s = map_option (Pair t'') (foldM body (sorted_list_of_set (abs t)) s)" for s
    using ne Suc.prems
    by (subst bv_drain.simps) (simp add: empty_ok t'(1) t''(3) map_option_bind comp_def cong: Option.bind_cong)
  with t''(1,2) show ?case
    by blast
qed

lemma foreach_ok:
  "inv t \<Longrightarrow> bv_foreach ops body t s = foldM body (sorted_list_of_set (abs t)) s"
  using drain_ok [of t body] by (auto simp: bv_foreach_def option.map_comp comp_def option.map_ident)

lemma drain_invariant:
  assumes "inv t" and "I {} s"
    and "\<And>P i s. \<lbrakk> P \<subseteq> abs t; i \<in> abs t; i \<notin> P; I P s \<rbrakk> \<Longrightarrow>
      \<exists>s'. body i s = Some s' \<and> I (insert i P) s'"
  shows "\<exists>t' s'. bv_drain ops body t s = Some (t', s') \<and> inv t' \<and> abs t' = {} \<and> I (abs t) s'"
  using foldM_invariant [of "sorted_list_of_set (abs t)" I s body] assms finite_abs [of t]
    drain_ok [OF assms(1), of body] by force

lemma foreach_invariant:
  assumes "inv t" and "I {} s"
    and "\<And>P i s. \<lbrakk> P \<subseteq> abs t; i \<in> abs t; i \<notin> P; I P s \<rbrakk> \<Longrightarrow>
      \<exists>s'. body i s = Some s' \<and> I (insert i P) s'"
  shows "\<exists>s'. bv_foreach ops body t s = Some s' \<and> I (abs t) s'"
  using foldM_invariant [of "sorted_list_of_set (abs t)" I s body] assms finite_abs [of t]
  by (simp add: foreach_ok)

end

locale bv_iterator = bit_vector ops shape inv abs
  for ops :: "'bv bv_ops" and shape inv abs +
  fixes its :: "('bv, 'it) bv_it_ops"
    and it_inv :: "'it \<Rightarrow> bool"
    and it_abs :: "'it \<Rightarrow> nat set"
  assumes it_new_ok: "inv bv \<Longrightarrow> it_inv (it_new its bv) \<and> it_abs (it_new its bv) = abs bv"
    and it_bound: "it_inv it \<Longrightarrow> it_abs it \<subseteq> {..<bv_size ops}"
    and it_hasNext_ok: "it_inv it \<Longrightarrow> it_hasNext its it \<longleftrightarrow> it_abs it \<noteq> {}"
    and it_next_ok: "\<lbrakk> it_inv it; it_abs it \<noteq> {} \<rbrakk> \<Longrightarrow>
      \<exists>it'. it_next its it = Some (it', Min (it_abs it)) \<and> it_inv it' \<and>
        it_abs it' = it_abs it - {Min (it_abs it)}"
begin

lemma finite_it_abs: "it_inv it \<Longrightarrow> finite (it_abs it)"
  using it_bound finite_subset by blast

end

text \<open>An iterator that \<^verbatim>\<open>clear()\<close> makes exhausted, as \<^verbatim>\<open>TwoLevelBitVector\<close> needs it.\<close>

locale bv_clear_iterator = bv_iterator +
  assumes it_cleared_ok: "it_inv (it_cleared its) \<and> it_abs (it_cleared its) = {}"

section \<open>BasicBitVector implements it\<close>

definition basic_abs :: "'a::len word \<Rightarrow> nat set" where
  "basic_abs w = {i. bit w i}"

lemma basic_mask_in: "i < LENGTH('a) \<Longrightarrow> (basic_mask i :: 'a::len word option) = Some (push_bit i 1)"
  by (simp add: basic_mask_def)

lemma bit_mask_basic: "bit (push_bit i 1 :: 'a::len word) j \<longleftrightarrow> i = j \<and> i < LENGTH('a)"
  by (auto simp: bit_simps)

lemma word_neq_iff_bits: "(a :: 'a::len word) \<noteq> b \<longleftrightarrow> (\<exists>i. bit a i \<noteq> bit b i)"
  by (auto simp: bit_eq_iff) (metis bit_imp_le_length)+

lemma basic_abs_empty: "basic_abs w = {} \<longleftrightarrow> w = 0"
  by (auto simp: basic_abs_def word_eq_0_iff_bits)

lemma basic_first:
  assumes "w \<noteq> 0"
  shows "Min (basic_abs w) = builtin_ctz w" and "builtin_ctz w \<in> basic_abs w"
proof -
  have fin: "finite (basic_abs (w :: 'a::len word))"
    by (rule finite_subset [of _ "{..<LENGTH('a)}"]) (auto simp: basic_abs_def dest: bit_imp_le_length)
  obtain i where i: "bit w i" and "i < LENGTH('a)"
    using assms by (auto simp: word_eq_0_iff_bits dest: bit_imp_le_length)
  define n where "n = (LEAST i. bit w i)"
  have n: "bit w n" "\<And>j. j < n \<Longrightarrow> \<not> bit w j"
    using i not_less_Least unfolding n_def by (auto intro: LeastI)
  then have "n < LENGTH('a)"
    by (auto dest: bit_imp_le_length)
  then have "builtin_ctz w = n"
    unfolding builtin_ctz_def using n by (intro length_takeWhile_unique) auto
  moreover have "Min (basic_abs w) = n"
    using fin n by (intro Min_eqI) (auto simp: basic_abs_def not_less [symmetric])
  ultimately show "Min (basic_abs w) = builtin_ctz w" "builtin_ctz w \<in> basic_abs w"
    using n by (simp_all add: basic_abs_def)
qed

lemma basic_clearBit_ok:
  fixes w :: "'a::len word"
  assumes "i < LENGTH('a)"
  shows "\<exists>w'. basic_clearBit w i = Some (w', i \<in> basic_abs w) \<and> basic_abs w' = basic_abs w - {i}"
  using assms
  by (auto simp: basic_clearBit_def basic_mask_in basic_abs_def bit_simps bit_mask_basic
      word_neq_iff_bits dest: bit_imp_le_length)

lemma basic_bit_vector:
  "bit_vector (basic_ops :: 'a::len word bv_ops) (\<lambda>_. True) (\<lambda>_. True) basic_abs"
proof (unfold_locales, goal_cases)
  case (6 bv)
  then show ?case
    by (simp add: basic_ops_def basic_abs_empty)
next
  case (8 bv i)
  then show ?case
    using basic_clearBit_ok [of i bv] by (simp add: basic_ops_def)
next
  case (10 bv)
  then have nz: "bv \<noteq> 0"
    by (simp add: basic_abs_empty)
  then have "builtin_ctz bv < LENGTH('a)"
    using basic_first [of bv] by (auto simp: basic_abs_def dest: bit_imp_le_length)
  then show ?case
    using basic_first [OF nz] basic_clearBit_ok [of "builtin_ctz bv" bv] nz
    by (auto simp: basic_ops_def basic_getAndClearFirstOne_def)
qed (auto simp: basic_ops_def basic_abs_def basic_setBit_def basic_getBit_def basic_mask_in
    bit_simps bit_mask_basic word_neq_iff_bits basic_setUnion_def basic_setIntersection_def
    basic_setDifference_def basic_intersectsWith_def
    dest: bit_imp_le_length)

interpretation basic: bit_vector "basic_ops :: 'a::len word bv_ops" "\<lambda>_. True" "\<lambda>_. True" basic_abs
  by (rule basic_bit_vector)

interpretation basic_it: bv_clear_iterator "basic_ops :: 'a::len word bv_ops" "\<lambda>_. True" "\<lambda>_. True"
  basic_abs basic_it_ops "\<lambda>_. True" basic_abs
  by unfold_locales
    (simp_all add: basic_it_ops_def basic.abs_bound [simplified] basic.empty_ok [simplified]
      basic.first_ok [simplified] basic_abs_empty)

end
