(* ===== verification/Two_Level_BV.thy ===== *)
theory Two_Level_BV
  imports Bit_Vector
begin

text \<open>
  \<^verbatim>\<open>TwoLevelBitVector\<close> of \<^verbatim>\<open>sanitizer_bitvector.h\<close>, over any bit vector
  \<^verbatim>\<open>BV\<close> (the argument \<open>ops\<close>) and any \<^verbatim>\<open>kLevel1Size\<close> (the argument \<open>k\<close>).
  Bit \<open>i1\<close> of \<open>l1_[i0]\<close> tells whether \<open>l2_[i0][i1]\<close> holds anything; where it is clear
  the second level is garbage.

  The invariant \<open>tl_inv\<close> says that a set bit of the first level has a non-empty second level.
  \<open>tl_cell\<close> is the set of a second-level vector as the first level lets it be seen; every
  operation is shown to be the set operation it names on each cell, which gives the contract
  \<open>bit_vector\<close>, and the iterator the contract \<open>bv_iterator\<close>.
\<close>

section \<open>The class\<close>

record 'bv two_level =
  lev1 :: "'bv list"
  lev2 :: "'bv list list"

definition arr2_get :: "'a list list \<Rightarrow> nat \<Rightarrow> nat \<Rightarrow> 'a option" where
  "arr2_get xss i j = do { xs \<leftarrow> arr_get xss i; arr_get xs j }"

definition arr2_set :: "'a list list \<Rightarrow> nat \<Rightarrow> nat \<Rightarrow> 'a \<Rightarrow> 'a list list option" where
  "arr2_set xss i j v = do { xs \<leftarrow> arr_get xss i; xs \<leftarrow> arr_set xs j v; arr_set xss i xs }"

definition tl_size :: "'bv bv_ops \<Rightarrow> nat \<Rightarrow> nat" where
  "tl_size ops k = bv_size ops * bv_size ops * k"

definition tl_check :: "'bv bv_ops \<Rightarrow> nat \<Rightarrow> nat \<Rightarrow> unit option" where
  "tl_check ops k idx = check (idx \<le> tl_size ops k)"

definition tl_idx0 :: "'bv bv_ops \<Rightarrow> nat \<Rightarrow> nat \<Rightarrow> nat option" where
  "tl_idx0 ops k idx = (let res = idx div (bv_size ops * bv_size ops) in
     do { check (res \<le> k); Some res })"

definition tl_idx1 :: "'bv bv_ops \<Rightarrow> nat \<Rightarrow> nat option" where
  "tl_idx1 ops idx = (let res = (idx div bv_size ops) mod bv_size ops in
     do { check (res \<le> bv_size ops); Some res })"

definition tl_idx2 :: "'bv bv_ops \<Rightarrow> nat \<Rightarrow> nat option" where
  "tl_idx2 ops idx = (let res = idx mod bv_size ops in
     do { check (res \<le> bv_size ops); Some res })"

definition tl_clear :: "'bv bv_ops \<Rightarrow> 'bv two_level \<Rightarrow> 'bv two_level" where
  "tl_clear ops bv = bv\<lparr>lev1 := map (bv_clear ops) (lev1 bv)\<rparr>"

definition tl_setAll_row :: "'bv bv_ops \<Rightarrow> nat \<Rightarrow> 'bv two_level \<Rightarrow> 'bv two_level option" where
  "tl_setAll_row ops i0 bv = do {
     v1 \<leftarrow> arr_get (lev1 bv) i0;
     v1 \<leftarrow> bv_setAll ops v1;
     l1 \<leftarrow> arr_set (lev1 bv) i0 v1;
     l2 \<leftarrow> foldM (\<lambda>i1 l2. do {
         v2 \<leftarrow> arr2_get l2 i0 i1;
         v2 \<leftarrow> bv_setAll ops v2;
         arr2_set l2 i0 i1 v2 }) [0..<bv_size ops] (lev2 bv);
     Some (bv\<lparr>lev1 := l1, lev2 := l2\<rparr>) }"

definition tl_setAll :: "'bv bv_ops \<Rightarrow> nat \<Rightarrow> 'bv two_level \<Rightarrow> 'bv two_level option" where
  "tl_setAll ops k bv = foldM (tl_setAll_row ops) [0..<k] bv"

definition tl_empty :: "'bv bv_ops \<Rightarrow> 'bv two_level \<Rightarrow> bool" where
  "tl_empty ops bv = list_all (bv_empty ops) (lev1 bv)"

definition tl_setBit :: "'bv bv_ops \<Rightarrow> nat \<Rightarrow> 'bv two_level \<Rightarrow> nat \<Rightarrow> ('bv two_level \<times> bool) option" where
  "tl_setBit ops k bv idx = do {
     tl_check ops k idx;
     i0 \<leftarrow> tl_idx0 ops k idx;
     i1 \<leftarrow> tl_idx1 ops idx;
     i2 \<leftarrow> tl_idx2 ops idx;
     v1 \<leftarrow> arr_get (lev1 bv) i0;
     b \<leftarrow> bv_getBit ops v1 i1;
     bv \<leftarrow> (if \<not> b then do {
         (v1, _) \<leftarrow> bv_setBit ops v1 i1;
         l1 \<leftarrow> arr_set (lev1 bv) i0 v1;
         v2 \<leftarrow> arr2_get (lev2 bv) i0 i1;
         l2 \<leftarrow> arr2_set (lev2 bv) i0 i1 (bv_clear ops v2);
         Some (bv\<lparr>lev1 := l1, lev2 := l2\<rparr>) }
       else Some bv);
     v2 \<leftarrow> arr2_get (lev2 bv) i0 i1;
     (v2, res) \<leftarrow> bv_setBit ops v2 i2;
     l2 \<leftarrow> arr2_set (lev2 bv) i0 i1 v2;
     Some (bv\<lparr>lev2 := l2\<rparr>, res) }"

definition tl_clear_if_empty :: "'bv bv_ops \<Rightarrow> nat \<Rightarrow> nat \<Rightarrow> 'bv two_level \<Rightarrow> 'bv two_level option" where
  "tl_clear_if_empty ops i0 i1 bv = do {
     v2 \<leftarrow> arr2_get (lev2 bv) i0 i1;
     if bv_empty ops v2 then do {
       v1 \<leftarrow> arr_get (lev1 bv) i0;
       (v1, _) \<leftarrow> bv_clearBit ops v1 i1;
       l1 \<leftarrow> arr_set (lev1 bv) i0 v1;
       Some (bv\<lparr>lev1 := l1\<rparr>) }
     else Some bv }"

definition tl_clearBit :: "'bv bv_ops \<Rightarrow> nat \<Rightarrow> 'bv two_level \<Rightarrow> nat \<Rightarrow> ('bv two_level \<times> bool) option" where
  "tl_clearBit ops k bv idx = do {
     tl_check ops k idx;
     i0 \<leftarrow> tl_idx0 ops k idx;
     i1 \<leftarrow> tl_idx1 ops idx;
     i2 \<leftarrow> tl_idx2 ops idx;
     v1 \<leftarrow> arr_get (lev1 bv) i0;
     b \<leftarrow> bv_getBit ops v1 i1;
     if b then do {
       v2 \<leftarrow> arr2_get (lev2 bv) i0 i1;
       (v2, res) \<leftarrow> bv_clearBit ops v2 i2;
       l2 \<leftarrow> arr2_set (lev2 bv) i0 i1 v2;
       bv \<leftarrow> tl_clear_if_empty ops i0 i1 (bv\<lparr>lev2 := l2\<rparr>);
       Some (bv, res) }
     else Some (bv, False) }"

definition tl_getBit :: "'bv bv_ops \<Rightarrow> nat \<Rightarrow> 'bv two_level \<Rightarrow> nat \<Rightarrow> bool option" where
  "tl_getBit ops k bv idx = do {
     tl_check ops k idx;
     i0 \<leftarrow> tl_idx0 ops k idx;
     i1 \<leftarrow> tl_idx1 ops idx;
     i2 \<leftarrow> tl_idx2 ops idx;
     v1 \<leftarrow> arr_get (lev1 bv) i0;
     b \<leftarrow> bv_getBit ops v1 i1;
     if b then do {
       v2 \<leftarrow> arr2_get (lev2 bv) i0 i1;
       bv_getBit ops v2 i2 }
     else Some False }"

text \<open>The loop over \<open>i0\<close> of \<^verbatim>\<open>getAndClearFirstOne\<close>; \<^verbatim>\<open>CHECK(0)\<close> after the last round.\<close>

fun tl_first_from :: "'bv bv_ops \<Rightarrow> nat list \<Rightarrow> 'bv two_level \<Rightarrow> ('bv two_level \<times> nat) option" where
  "tl_first_from ops [] bv = None"
| "tl_first_from ops (i0 # is) bv = do {
     v1 \<leftarrow> arr_get (lev1 bv) i0;
     if bv_empty ops v1 then tl_first_from ops is bv
     else do {
       (v1, i1) \<leftarrow> bv_getAndClearFirstOne ops v1;
       v2 \<leftarrow> arr2_get (lev2 bv) i0 i1;
       (v2, i2) \<leftarrow> bv_getAndClearFirstOne ops v2;
       l2 \<leftarrow> arr2_set (lev2 bv) i0 i1 v2;
       v1 \<leftarrow> (if \<not> bv_empty ops v2 then map_option fst (bv_setBit ops v1 i1) else Some v1);
       l1 \<leftarrow> arr_set (lev1 bv) i0 v1;
       Some (bv\<lparr>lev1 := l1, lev2 := l2\<rparr>, i0 * bv_size ops * bv_size ops + i1 * bv_size ops + i2) } }"

definition tl_getAndClearFirstOne ::
  "'bv bv_ops \<Rightarrow> nat \<Rightarrow> 'bv two_level \<Rightarrow> ('bv two_level \<times> nat) option" where
  "tl_getAndClearFirstOne ops k bv = tl_first_from ops [0..<k] bv"

definition tl_union_cell :: "'bv bv_ops \<Rightarrow> 'bv two_level \<Rightarrow> nat \<Rightarrow> nat \<Rightarrow>
    'bv two_level \<times> bool \<Rightarrow> ('bv two_level \<times> bool) option" where
  "tl_union_cell ops v i0 i1 = (\<lambda>(bv, res). do {
     v1 \<leftarrow> arr_get (lev1 bv) i0;
     (v1, new) \<leftarrow> bv_setBit ops v1 i1;
     l1 \<leftarrow> arr_set (lev1 bv) i0 v1;
     v2 \<leftarrow> arr2_get (lev2 bv) i0 i1;
     let v2 = (if new then bv_clear ops v2 else v2);
     w2 \<leftarrow> arr2_get (lev2 v) i0 i1;
     (v2, changed) \<leftarrow> bv_setUnion ops v2 w2;
     l2 \<leftarrow> arr2_set (lev2 bv) i0 i1 v2;
     Some (bv\<lparr>lev1 := l1, lev2 := l2\<rparr>, if changed then True else res) })"

definition tl_setUnion ::
  "'bv bv_ops \<Rightarrow> nat \<Rightarrow> 'bv two_level \<Rightarrow> 'bv two_level \<Rightarrow> ('bv two_level \<times> bool) option" where
  "tl_setUnion ops k bv v =
     foldM (\<lambda>i0 s. do { t \<leftarrow> arr_get (lev1 v) i0; bv_foreach ops (tl_union_cell ops v i0) t s })
       [0..<k] (bv, False)"

definition tl_intersect_cell :: "'bv bv_ops \<Rightarrow> 'bv two_level \<Rightarrow> nat \<Rightarrow> nat \<Rightarrow>
    'bv two_level \<times> bool \<Rightarrow> ('bv two_level \<times> bool) option" where
  "tl_intersect_cell ops v i0 i1 = (\<lambda>(bv, res). do {
     v2 \<leftarrow> arr2_get (lev2 bv) i0 i1;
     w2 \<leftarrow> arr2_get (lev2 v) i0 i1;
     (v2, changed) \<leftarrow> bv_setIntersection ops v2 w2;
     l2 \<leftarrow> arr2_set (lev2 bv) i0 i1 v2;
     bv \<leftarrow> tl_clear_if_empty ops i0 i1 (bv\<lparr>lev2 := l2\<rparr>);
     Some (bv, if changed then True else res) })"

definition tl_intersect_row :: "'bv bv_ops \<Rightarrow> 'bv two_level \<Rightarrow> nat \<Rightarrow>
    'bv two_level \<times> bool \<Rightarrow> ('bv two_level \<times> bool) option" where
  "tl_intersect_row ops v i0 = (\<lambda>(bv, res). do {
     v1 \<leftarrow> arr_get (lev1 bv) i0;
     w1 \<leftarrow> arr_get (lev1 v) i0;
     (v1, changed) \<leftarrow> bv_setIntersection ops v1 w1;
     l1 \<leftarrow> arr_set (lev1 bv) i0 v1;
     let bv = bv\<lparr>lev1 := l1\<rparr>;
     let res = (if changed then True else res);
     if \<not> bv_empty ops v1 then bv_foreach ops (tl_intersect_cell ops v i0) v1 (bv, res)
     else Some (bv, res) })"

definition tl_setIntersection ::
  "'bv bv_ops \<Rightarrow> nat \<Rightarrow> 'bv two_level \<Rightarrow> 'bv two_level \<Rightarrow> ('bv two_level \<times> bool) option" where
  "tl_setIntersection ops k bv v = foldM (tl_intersect_row ops v) [0..<k] (bv, False)"

definition tl_difference_cell :: "'bv bv_ops \<Rightarrow> 'bv two_level \<Rightarrow> nat \<Rightarrow> nat \<Rightarrow>
    'bv two_level \<times> bool \<Rightarrow> ('bv two_level \<times> bool) option" where
  "tl_difference_cell ops v i0 i1 = (\<lambda>(bv, res). do {
     v2 \<leftarrow> arr2_get (lev2 bv) i0 i1;
     w2 \<leftarrow> arr2_get (lev2 v) i0 i1;
     (v2, changed) \<leftarrow> bv_setDifference ops v2 w2;
     l2 \<leftarrow> arr2_set (lev2 bv) i0 i1 v2;
     bv \<leftarrow> tl_clear_if_empty ops i0 i1 (bv\<lparr>lev2 := l2\<rparr>);
     Some (bv, if changed then True else res) })"

definition tl_difference_row :: "'bv bv_ops \<Rightarrow> 'bv two_level \<Rightarrow> nat \<Rightarrow>
    'bv two_level \<times> bool \<Rightarrow> ('bv two_level \<times> bool) option" where
  "tl_difference_row ops v i0 = (\<lambda>(bv, res). do {
     t \<leftarrow> arr_get (lev1 bv) i0;
     w1 \<leftarrow> arr_get (lev1 v) i0;
     (t, _) \<leftarrow> bv_setIntersection ops t w1;
     bv_foreach ops (tl_difference_cell ops v i0) t (bv, res) })"

definition tl_setDifference ::
  "'bv bv_ops \<Rightarrow> nat \<Rightarrow> 'bv two_level \<Rightarrow> 'bv two_level \<Rightarrow> ('bv two_level \<times> bool) option" where
  "tl_setDifference ops k bv v = foldM (tl_difference_row ops v) [0..<k] (bv, False)"

definition tl_copyFrom ::
  "'bv bv_ops \<Rightarrow> nat \<Rightarrow> 'bv two_level \<Rightarrow> 'bv two_level \<Rightarrow> 'bv two_level option" where
  "tl_copyFrom ops k bv v = map_option fst (tl_setUnion ops k (tl_clear ops bv) v)"

text \<open>The two loops of \<^verbatim>\<open>intersectsWith\<close>; \<^verbatim>\<open>return true\<close> leaves both.\<close>

partial_function (option) tl_intersects_cells ::
  "'bv bv_ops \<Rightarrow> 'bv two_level \<Rightarrow> 'bv two_level \<Rightarrow> nat \<Rightarrow> 'bv \<Rightarrow> bool option" where
  "tl_intersects_cells ops bv v i0 t =
     (if bv_empty ops t then Some False
      else do {
        (t, i1) \<leftarrow> bv_getAndClearFirstOne ops t;
        w1 \<leftarrow> arr_get (lev1 v) i0;
        b \<leftarrow> bv_getBit ops w1 i1;
        if \<not> b then tl_intersects_cells ops bv v i0 t
        else do {
          v2 \<leftarrow> arr2_get (lev2 bv) i0 i1;
          w2 \<leftarrow> arr2_get (lev2 v) i0 i1;
          found \<leftarrow> bv_intersectsWith ops v2 w2;
          if found then Some True else tl_intersects_cells ops bv v i0 t
        }
      })"

fun tl_intersects_from ::
  "'bv bv_ops \<Rightarrow> 'bv two_level \<Rightarrow> 'bv two_level \<Rightarrow> nat list \<Rightarrow> bool option" where
  "tl_intersects_from ops bv v [] = Some False"
| "tl_intersects_from ops bv v (i0 # is) = do {
     t \<leftarrow> arr_get (lev1 bv) i0;
     w1 \<leftarrow> arr_get (lev1 v) i0;
     (t, _) \<leftarrow> bv_setIntersection ops t w1;
     found \<leftarrow> tl_intersects_cells ops bv v i0 t;
     if found then Some True else tl_intersects_from ops bv v is }"

definition tl_intersectsWith ::
  "'bv bv_ops \<Rightarrow> nat \<Rightarrow> 'bv two_level \<Rightarrow> 'bv two_level \<Rightarrow> bool option" where
  "tl_intersectsWith ops k bv v = tl_intersects_from ops bv v [0..<k]"

definition two_level_ops :: "'bv bv_ops \<Rightarrow> nat \<Rightarrow> 'bv two_level bv_ops" where
  "two_level_ops ops k = \<lparr>
     bv_size = tl_size ops k,
     bv_clear = tl_clear ops,
     bv_setAll = tl_setAll ops k,
     bv_empty = tl_empty ops,
     bv_setBit = tl_setBit ops k,
     bv_clearBit = tl_clearBit ops k,
     bv_getBit = tl_getBit ops k,
     bv_getAndClearFirstOne = tl_getAndClearFirstOne ops k,
     bv_setUnion = tl_setUnion ops k,
     bv_setIntersection = tl_setIntersection ops k,
     bv_setDifference = tl_setDifference ops k,
     bv_copyFrom = tl_copyFrom ops k,
     bv_intersectsWith = tl_intersectsWith ops k \<rparr>"

section \<open>The iterator\<close>

record ('bv, 'it) tl_iterator =
  it_bv :: "'bv two_level"
  it_i0 :: nat
  it_i1 :: nat
  it_1 :: 'it
  it_2 :: 'it

definition tl_it_new :: "('bv, 'it) bv_it_ops \<Rightarrow> 'bv two_level \<Rightarrow> ('bv, 'it) tl_iterator" where
  "tl_it_new its bv = \<lparr> it_bv = bv, it_i0 = 0, it_i1 = 0, it_1 = it_cleared its, it_2 = it_cleared its \<rparr>"

definition tl_it_hasNext ::
  "'bv bv_ops \<Rightarrow> ('bv, 'it) bv_it_ops \<Rightarrow> nat \<Rightarrow> ('bv, 'it) tl_iterator \<Rightarrow> bool" where
  "tl_it_hasNext ops its k it = (it_hasNext its (it_1 it) \<or>
     list_ex (\<lambda>i. \<not> bv_empty ops (lev1 (it_bv it) ! i)) [it_i0 it..<k])"

text \<open>The loop of \<^verbatim>\<open>next\<close> that looks for the next non-empty row.\<close>

fun tl_it_row ::
  "'bv bv_ops \<Rightarrow> ('bv, 'it) bv_it_ops \<Rightarrow> nat \<Rightarrow> nat list \<Rightarrow> ('bv, 'it) tl_iterator \<Rightarrow>
     ('bv, 'it) tl_iterator option" where
  "tl_it_row ops its k [] it = Some (it\<lparr>it_i0 := k\<rparr>)"
| "tl_it_row ops its k (i # is) it = do {
     v1 \<leftarrow> arr_get (lev1 (it_bv it)) i;
     if bv_empty ops v1 then tl_it_row ops its k is it
     else Some (it\<lparr>it_i0 := i, it_1 := it_new its v1\<rparr>) }"

text \<open>The second and the third part of \<^verbatim>\<open>next\<close>: open the next cell of the row, take a bit.\<close>

definition tl_it_open :: "('bv, 'it) bv_it_ops \<Rightarrow> ('bv, 'it) tl_iterator \<Rightarrow> ('bv, 'it) tl_iterator option" where
  "tl_it_open its it = do {
     check (it_hasNext its (it_1 it));
     (it1, i1) \<leftarrow> it_next its (it_1 it);
     v2 \<leftarrow> arr2_get (lev2 (it_bv it)) (it_i0 it) i1;
     Some (it\<lparr>it_1 := it1, it_i1 := i1, it_2 := it_new its v2\<rparr>) }"

definition tl_it_take :: "'bv bv_ops \<Rightarrow> ('bv, 'it) bv_it_ops \<Rightarrow> ('bv, 'it) tl_iterator \<Rightarrow>
    (('bv, 'it) tl_iterator \<times> nat) option" where
  "tl_it_take ops its it = do {
     check (it_hasNext its (it_2 it));
     (it2, i2) \<leftarrow> it_next its (it_2 it);
     let it = it\<lparr>it_2 := it2\<rparr>;
     let res = it_i0 it * bv_size ops * bv_size ops + it_i1 it * bv_size ops + i2;
     Some (if \<not> it_hasNext its (it_1 it) \<and> \<not> it_hasNext its (it_2 it)
       then it\<lparr>it_i0 := it_i0 it + 1\<rparr> else it, res) }"

definition tl_it_next :: "'bv bv_ops \<Rightarrow> ('bv, 'it) bv_it_ops \<Rightarrow> nat \<Rightarrow> ('bv, 'it) tl_iterator \<Rightarrow>
    (('bv, 'it) tl_iterator \<times> nat) option" where
  "tl_it_next ops its k it = do {
     it \<leftarrow> (if \<not> it_hasNext its (it_1 it) \<and> \<not> it_hasNext its (it_2 it) \<and> it_i0 it < k
       then tl_it_row ops its k [it_i0 it..<k] it else Some it);
     it \<leftarrow> (if \<not> it_hasNext its (it_2 it) then tl_it_open its it else Some it);
     tl_it_take ops its it }"

definition tl_it_ops ::
  "'bv bv_ops \<Rightarrow> ('bv, 'it) bv_it_ops \<Rightarrow> nat \<Rightarrow> ('bv two_level, ('bv, 'it) tl_iterator) bv_it_ops" where
  "tl_it_ops ops its k = \<lparr>
     it_new = tl_it_new its,
     it_hasNext = tl_it_hasNext ops its k,
     it_next = tl_it_next ops its k,
     it_cleared = tl_it_new its \<lparr> lev1 = [], lev2 = [] \<rparr> \<rparr>"

section \<open>Well-formedness and the set a vector stands for\<close>

definition tl_shape :: "'bv bv_ops \<Rightarrow> ('bv \<Rightarrow> bool) \<Rightarrow> nat \<Rightarrow> 'bv two_level \<Rightarrow> bool" where
  "tl_shape ops shape k bv \<longleftrightarrow> length (lev1 bv) = k \<and> length (lev2 bv) = k \<and>
     (\<forall>i<k. shape (lev1 bv ! i) \<and> length (lev2 bv ! i) = bv_size ops \<and>
       (\<forall>j<bv_size ops. shape (lev2 bv ! i ! j)))"

definition tl_inv :: "'bv bv_ops \<Rightarrow> ('bv \<Rightarrow> bool) \<Rightarrow> ('bv \<Rightarrow> bool) \<Rightarrow> ('bv \<Rightarrow> nat set) \<Rightarrow> nat \<Rightarrow>
    'bv two_level \<Rightarrow> bool" where
  "tl_inv ops shape ok \<alpha> k bv \<longleftrightarrow> tl_shape ops shape k bv \<and>
     (\<forall>i<k. ok (lev1 bv ! i) \<and>
       (\<forall>j\<in>\<alpha> (lev1 bv ! i). ok (lev2 bv ! i ! j) \<and> \<alpha> (lev2 bv ! i ! j) \<noteq> {}))"

definition tl_cell :: "('bv \<Rightarrow> nat set) \<Rightarrow> 'bv two_level \<Rightarrow> nat \<Rightarrow> nat \<Rightarrow> nat set" where
  "tl_cell \<alpha> bv i j =
     (if i < length (lev1 bv) \<and> j \<in> \<alpha> (lev1 bv ! i) then \<alpha> (lev2 bv ! i ! j) else {})"

definition tl_abs :: "'bv bv_ops \<Rightarrow> ('bv \<Rightarrow> nat set) \<Rightarrow> 'bv two_level \<Rightarrow> nat set" where
  "tl_abs ops \<alpha> bv = {x. x mod bv_size ops \<in>
     tl_cell \<alpha> bv (x div (bv_size ops * bv_size ops)) (x div bv_size ops mod bv_size ops)}"

section \<open>Indices\<close>

definition tl_enc :: "nat \<Rightarrow> nat \<Rightarrow> nat \<Rightarrow> nat \<Rightarrow> nat" where
  "tl_enc s i j l = i * s * s + j * s + l"

lemma tl_enc_inverse:
  assumes "j < s" and "l < s"
  shows "tl_enc s i j l div (s * s) = i" and "tl_enc s i j l div s mod s = j"
    and "tl_enc s i j l mod s = l"
proof -
  have e: "tl_enc s i j l = (i * s + j) * s + l"
    by (simp add: tl_enc_def algebra_simps)
  show "tl_enc s i j l mod s = l"
    using assms by (simp add: e)
  have d: "tl_enc s i j l div s = i * s + j"
    using assms by (simp add: e)
  then show "tl_enc s i j l div s mod s = j"
    using assms by simp
  show "tl_enc s i j l div (s * s) = i"
    using assms by (simp add: div_mult2_eq d)
qed

lemma tl_enc_eta: "tl_enc s (x div (s * s)) (x div s mod s) (x mod s) = x"
  unfolding tl_enc_def div_mult2_eq by (metis div_mult_mod_eq distrib_right)

lemma tl_enc_mono:
  assumes "j < s" and "l < s" and "i < i' \<or> i = i' \<and> (j < j' \<or> j = j' \<and> l \<le> l')"
  shows "tl_enc s i j l \<le> tl_enc s i' j' l'"
proof -
  have step: "a * s + b \<le> a' * s + b'" if "b < s" "a < a' \<or> a = a' \<and> b \<le> b'" for a b a' b' :: nat
  proof (cases "a < a'")
    case True
    then have "Suc a * s \<le> a' * s"
      by (intro mult_right_mono) auto
    then show ?thesis
      using that(1) by simp
  next
    case False
    then show ?thesis using that(2) by auto
  qed
  have lt: "i * s + j < i' * s + j'" if "i < i' \<or> i = i' \<and> j < j'"
    using that step [of "Suc j" i i' j'] assms(1) mult_le_mono1 [of "Suc i" i' s] by auto
  show ?thesis
    using step [of l "i * s + j" "i' * s + j'" l'] assms(2,3) lt
    by (auto simp: tl_enc_def algebra_simps)
qed

lemma dropWhile_upt:
  "m \<le> k \<Longrightarrow> \<exists>n. m \<le> n \<and> n \<le> k \<and> dropWhile P [m..<k] = [n..<k] \<and> (\<forall>i. m \<le> i \<longrightarrow> i < n \<longrightarrow> P i) \<and>
     (n < k \<longrightarrow> \<not> P n)"
proof (induction "k - m" arbitrary: m)
  case 0
  then show ?case by auto
next
  case (Suc d)
  then have m: "m < k" "[m..<k] = m # [Suc m..<k]"
    by (simp_all add: upt_conv_Cons)
  show ?case
  proof (cases "P m")
    case True
    have "d = k - Suc m"
      using Suc.hyps(2) by simp
    from Suc.hyps(1) [OF this] m(1)
    obtain n where n: "Suc m \<le> n" "n \<le> k" "dropWhile P [Suc m..<k] = [n..<k]"
      "\<And>i. Suc m \<le> i \<Longrightarrow> i < n \<Longrightarrow> P i" "n < k \<longrightarrow> \<not> P n"
      by auto
    have "P i" if "m \<le> i" "i < n" for i
      using n(4) [of i] True that by (cases "i = m") auto
    then show ?thesis
      using True m(2) n by (intro exI [of _ n]) auto
  next
    case False
    then show ?thesis
      using m by (intro exI [of _ m]) auto
  qed
qed

lemma arr2_in [simp]:
  "\<lbrakk> i < length xss; j < length (xss ! i) \<rbrakk> \<Longrightarrow> arr2_get xss i j = Some (xss ! i ! j)"
  "\<lbrakk> i < length xss; j < length (xss ! i) \<rbrakk> \<Longrightarrow> arr2_set xss i j v = Some (xss[i := (xss ! i)[j := v]])"
  by (simp_all add: arr2_get_def arr2_set_def)

locale two_level = bit_vector ops shape inv abs
  for ops :: "'bv bv_ops" and shape inv abs +
  fixes k :: nat
  assumes k_pos: "0 < k"
begin

abbreviation "sz \<equiv> bv_size ops"
abbreviation "Tshape \<equiv> tl_shape ops shape k"
abbreviation "Tinv \<equiv> tl_inv ops shape inv abs k"
abbreviation "cell \<equiv> tl_cell abs"
abbreviation "Tabs \<equiv> tl_abs ops abs"

lemma TinvD:
  assumes "Tinv bv"
  shows "length (lev1 bv) = k" and "length (lev2 bv) = k"
    and "i < k \<Longrightarrow> inv (lev1 bv ! i)" and "i < k \<Longrightarrow> length (lev2 bv ! i) = sz"
    and "i < k \<Longrightarrow> j < sz \<Longrightarrow> shape (lev2 bv ! i ! j)"
    and "i < k \<Longrightarrow> j \<in> abs (lev1 bv ! i) \<Longrightarrow> inv (lev2 bv ! i ! j) \<and> abs (lev2 bv ! i ! j) \<noteq> {}"
  using assms by (simp_all add: tl_inv_def tl_shape_def)

lemma TinvI:
  assumes "length (lev1 bv) = k" and "length (lev2 bv) = k"
    and "\<And>i. i < k \<Longrightarrow> inv (lev1 bv ! i)" and "\<And>i. i < k \<Longrightarrow> length (lev2 bv ! i) = sz"
    and "\<And>i j. i < k \<Longrightarrow> j < sz \<Longrightarrow> shape (lev2 bv ! i ! j)"
    and "\<And>i j. i < k \<Longrightarrow> j \<in> abs (lev1 bv ! i) \<Longrightarrow> inv (lev2 bv ! i ! j) \<and> abs (lev2 bv ! i ! j) \<noteq> {}"
  shows "Tinv bv"
  using assms inv_shape by (simp add: tl_inv_def tl_shape_def)

lemma cell_bound:
  assumes "Tinv bv" and "l \<in> cell bv i j"
  shows "i < k \<and> j < sz \<and> l < sz"
proof -
  note D = TinvD [OF assms(1)]
  have i: "i < k" and j: "j \<in> abs (lev1 bv ! i)" and l: "l \<in> abs (lev2 bv ! i ! j)"
    using assms(2) D(1) by (auto simp: tl_cell_def split: if_splits)
  then show ?thesis
    using abs_less [OF D(3) [OF i] j] abs_less [of "lev2 bv ! i ! j" l] D(6) [OF i j] by simp
qed

lemma Tabs_enc: "j < sz \<Longrightarrow> l < sz \<Longrightarrow> tl_enc sz i j l \<in> Tabs bv \<longleftrightarrow> l \<in> cell bv i j"
  by (simp add: tl_abs_def tl_enc_inverse)

lemma Tabs_cases:
  assumes "Tinv bv" and "x \<in> Tabs bv"
  obtains i j l where "x = tl_enc sz i j l" "i < k" "j < sz" "l < sz" "l \<in> cell bv i j"
proof -
  let ?i = "x div (sz * sz)" and ?j = "x div sz mod sz" and ?l = "x mod sz"
  have "x = tl_enc sz ?i ?j ?l" "?l \<in> cell bv ?i ?j"
    using assms(2) by (simp_all add: tl_enc_eta tl_abs_def)
  with cell_bound [OF assms(1)] that show ?thesis
    by metis
qed

lemma Tabs_subset_iff:
  assumes "Tinv a"
  shows "Tabs a \<subseteq> Tabs b \<longleftrightarrow> (\<forall>i j. cell a i j \<subseteq> cell b i j)"
proof
  assume sub: "Tabs a \<subseteq> Tabs b"
  show "\<forall>i j. cell a i j \<subseteq> cell b i j"
  proof (intro allI subsetI)
    fix i j l assume l: "l \<in> cell a i j"
    then have "j < sz" "l < sz"
      using cell_bound [OF assms] by auto
    then show "l \<in> cell b i j"
      using l sub Tabs_enc [of j l i a] Tabs_enc [of j l i b] by auto
  qed
qed (auto simp: tl_abs_def)

lemma Tabs_disjoint_iff:
  assumes "Tinv a"
  shows "Tabs a \<inter> Tabs b = {} \<longleftrightarrow> (\<forall>i j. cell a i j \<inter> cell b i j = {})"
proof
  assume sub: "Tabs a \<inter> Tabs b = {}"
  show "\<forall>i j. cell a i j \<inter> cell b i j = {}"
  proof (intro allI equals0I)
    fix i j l assume l: "l \<in> cell a i j \<inter> cell b i j"
    then have "j < sz" "l < sz"
      using cell_bound [OF assms] by auto
    then show False
      using l sub Tabs_enc [of j l i a] Tabs_enc [of j l i b] by auto
  qed
qed (auto simp: tl_abs_def)

lemma Tabs_empty_iff: "Tinv bv \<Longrightarrow> Tabs bv = {} \<longleftrightarrow> (\<forall>i j. cell bv i j = {})"
  using Tabs_disjoint_iff [of bv bv] by simp

text \<open>Replacing one cell.\<close>

lemma set_cell:
  assumes "Tinv bv" and "i < k" and "j < sz" and "inv x1" and "abs x1 = insert j (abs (lev1 bv ! i))"
    and "inv x2" and "abs x2 \<noteq> {}"
  defines "bv' \<equiv> bv\<lparr>lev1 := (lev1 bv)[i := x1], lev2 := (lev2 bv)[i := (lev2 bv ! i)[j := x2]]\<rparr>"
  shows "Tinv bv'" and "cell bv' = (cell bv)(i := (cell bv i)(j := abs x2))"
proof -
  note D = TinvD [OF assms(1)]
  show "Tinv bv'"
    by (rule TinvI)
       (use D assms(2-7) in \<open>auto simp: bv'_def nth_list_update inv_shape split: if_splits\<close>)
  show "cell bv' = (cell bv)(i := (cell bv i)(j := abs x2))"
    using D(1,2) D(4) [of i] assms(2,3,5) by (auto simp: bv'_def tl_cell_def nth_list_update fun_eq_iff)
qed

lemma set_cell_same:
  assumes "Tinv bv" and "i < k" and "j \<in> abs (lev1 bv ! i)" and "inv x2" and "abs x2 \<noteq> {}"
  defines "bv' \<equiv> bv\<lparr>lev2 := (lev2 bv)[i := (lev2 bv ! i)[j := x2]]\<rparr>"
  shows "Tinv bv'" and "cell bv' = (cell bv)(i := (cell bv i)(j := abs x2))"
proof -
  have "bv' = bv\<lparr>lev1 := (lev1 bv)[i := lev1 bv ! i], lev2 := (lev2 bv)[i := (lev2 bv ! i)[j := x2]]\<rparr>"
    by (simp add: bv'_def)
  moreover have "j < sz"
    using abs_less TinvD(3) assms(1-3) by blast
  ultimately show "Tinv bv'" "cell bv' = (cell bv)(i := (cell bv i)(j := abs x2))"
    using set_cell [of bv i j "lev1 bv ! i" x2] assms TinvD(3) [of bv i] by (simp_all add: insert_absorb)
qed

lemma drop_cell:
  assumes "Tinv bv" and "i < k" and "j < sz" and "inv x1" and "abs x1 = abs (lev1 bv ! i) - {j}"
    and "shape x2"
  defines "bv' \<equiv> bv\<lparr>lev1 := (lev1 bv)[i := x1], lev2 := (lev2 bv)[i := (lev2 bv ! i)[j := x2]]\<rparr>"
  shows "Tinv bv'" and "cell bv' = (cell bv)(i := (cell bv i)(j := {}))"
proof -
  note D = TinvD [OF assms(1)]
  show "Tinv bv'"
    by (rule TinvI)
       (use D assms(2-6) in \<open>auto simp: bv'_def nth_list_update inv_shape split: if_splits\<close>)
  show "cell bv' = (cell bv)(i := (cell bv i)(j := {}))"
    using D(1,2) D(4) [of i] assms(2,3,5) by (auto simp: bv'_def tl_cell_def nth_list_update fun_eq_iff)
qed

lemma lev_update_commute: "bv\<lparr>lev2 := b, lev1 := a\<rparr> = bv\<lparr>lev1 := a, lev2 := b\<rparr>"
  by simp

lemma cell_in: "Tinv bv \<Longrightarrow> i < k \<Longrightarrow> j \<in> abs (lev1 bv ! i) \<Longrightarrow> cell bv i j = abs (lev2 bv ! i ! j)"
  by (simp add: tl_cell_def TinvD(1))

lemma cell_out: "j \<notin> abs (lev1 bv ! i) \<Longrightarrow> cell bv i j = {}"
  by (simp add: tl_cell_def)

lemma cell_empty_iff:
  "Tinv bv \<Longrightarrow> i < k \<Longrightarrow> cell bv i j = {} \<longleftrightarrow> j \<notin> abs (lev1 bv ! i)"
  using TinvD(6) [of bv i j] cell_in [of bv i j] cell_out [of j bv i] by blast

text \<open>
  The second level of a cell is replaced by \<open>x2\<close>, and the bit of the first level is cleared when
  nothing is left.
\<close>

lemma clear_if_empty_ok:
  assumes "Tinv bv" and "i < k" and "j \<in> abs (lev1 bv ! i)" and "inv x2"
  defines "bv1 \<equiv> bv\<lparr>lev2 := (lev2 bv)[i := (lev2 bv ! i)[j := x2]]\<rparr>"
  shows "\<exists>bv'. tl_clear_if_empty ops i j bv1 = Some bv' \<and> Tinv bv' \<and>
    cell bv' = (cell bv)(i := (cell bv i)(j := abs x2))"
proof -
  note D = TinvD [OF assms(1)]
  have j: "j < sz"
    using abs_less D(3) assms(2,3) by blast
  have get: "arr2_get (lev2 bv1) i j = Some x2" "arr_get (lev1 bv1) i = Some (lev1 bv ! i)"
    using D(1,2) D(4) [of i] j assms(2) by (simp_all add: bv1_def)
  show ?thesis
  proof (cases "abs x2 = {}")
    case False
    then show ?thesis
      using set_cell_same [OF assms(1-4)] empty_ok [OF assms(4)] get
      by (simp add: tl_clear_if_empty_def bv1_def)
  next
    case True
    obtain x1 where x1: "bv_clearBit ops (lev1 bv ! i) j = Some (x1, True)" "inv x1"
      "abs x1 = abs (lev1 bv ! i) - {j}"
      using clearBit_ok [OF D(3) [OF assms(2)] j] assms(3) by auto
    show ?thesis
      using drop_cell [OF assms(1,2) j x1(2,3) inv_shape [OF assms(4)]] True x1(1) get
        empty_ok [OF assms(4)] D(1) assms(2)
      by (simp add: tl_clear_if_empty_def bv1_def lev_update_commute)
  qed
qed

lemma idx_ok:
  assumes "idx < tl_size ops k"
  shows "tl_check ops k idx = Some ()" "tl_idx0 ops k idx = Some (idx div (sz * sz))"
    "tl_idx1 ops idx = Some (idx div sz mod sz)" "tl_idx2 ops idx = Some (idx mod sz)"
    "idx div (sz * sz) < k" "idx div sz mod sz < sz" "idx mod sz < sz"
proof -
  show k: "idx div (sz * sz) < k"
    using assms by (simp add: tl_size_def less_mult_imp_div_less mult.commute)
  then show "tl_check ops k idx = Some ()" "tl_idx0 ops k idx = Some (idx div (sz * sz))"
    "tl_idx1 ops idx = Some (idx div sz mod sz)" "tl_idx2 ops idx = Some (idx mod sz)"
    "idx div sz mod sz < sz" "idx mod sz < sz"
    using assms size_pos
    by (simp_all add: tl_check_def tl_idx0_def tl_idx1_def tl_idx2_def check_def Let_def
        less_imp_le)
qed

lemma idx_eq_iff:
  "x = y \<longleftrightarrow> x div (sz * sz) = y div (sz * sz) \<and> x div sz mod sz = y div sz mod sz \<and> x mod sz = y mod sz"
  by (metis tl_enc_eta)

lemma Tabs_insert:
  assumes "cell bv' = (cell bv)(i := (cell bv i)(j := insert l (cell bv i j)))"
    and "i = idx div (sz * sz)" "j = idx div sz mod sz" "l = idx mod sz"
  shows "Tabs bv' = insert idx (Tabs bv)"
proof (rule set_eqI)
  show "x \<in> Tabs bv' \<longleftrightarrow> x \<in> insert idx (Tabs bv)" for x
    using assms idx_eq_iff [of x idx] by (cases "x = idx") (auto simp: tl_abs_def)
qed

lemma Tabs_remove:
  assumes "cell bv' = (cell bv)(i := (cell bv i)(j := cell bv i j - {l}))"
    and "i = idx div (sz * sz)" "j = idx div sz mod sz" "l = idx mod sz"
  shows "Tabs bv' = Tabs bv - {idx}"
proof (rule set_eqI)
  show "x \<in> Tabs bv' \<longleftrightarrow> x \<in> Tabs bv - {idx}" for x
    using assms idx_eq_iff [of x idx] by (cases "x = idx") (auto simp: tl_abs_def)
qed

end

context two_level
begin

lemma Tabs_bound:
  assumes "Tinv bv"
  shows "Tabs bv \<subseteq> {..<tl_size ops k}"
proof
  fix x assume "x \<in> Tabs bv"
  then have "x div (sz * sz) < k"
    using cell_bound [OF assms] by (auto simp: tl_abs_def)
  then show "x \<in> {..<tl_size ops k}"
    using size_pos by (simp add: tl_size_def div_less_iff_less_mult mult.commute)
qed

lemma tl_setBit_ok:
  assumes "Tinv bv" and "idx < tl_size ops k"
  shows "\<exists>bv'. tl_setBit ops k bv idx = Some (bv', idx \<notin> Tabs bv) \<and> Tinv bv' \<and>
    Tabs bv' = insert idx (Tabs bv)"
proof -
  note D = TinvD [OF assms(1)] and idx = idx_ok [OF assms(2)]
  define i j l where ijl: "i = idx div (sz * sz)" "j = idx div sz mod sz" "l = idx mod sz"
  have b: "i < k" "j < sz" "l < sz"
    using idx by (simp_all add: ijl)
  have mem: "idx \<in> Tabs bv \<longleftrightarrow> l \<in> cell bv i j"
    by (simp add: tl_abs_def ijl)
  have "\<exists>bv'. tl_setBit ops k bv idx = Some (bv', l \<notin> cell bv i j) \<and> Tinv bv' \<and>
    cell bv' = (cell bv)(i := (cell bv i)(j := insert l (cell bv i j)))"
  proof (cases "j \<in> abs (lev1 bv ! i)")
    case True
    obtain x2 where "bv_setBit ops (lev2 bv ! i ! j) l = Some (x2, l \<notin> abs (lev2 bv ! i ! j))"
      "inv x2" "abs x2 = insert l (abs (lev2 bv ! i ! j))"
      using setBit_ok [of "lev2 bv ! i ! j" l] D(6) [OF b(1) True] b(3) by auto
    then show ?thesis
      using set_cell_same [OF assms(1) b(1) True, of x2] D(1,2) D(3,4) [OF b(1)] b True
        cell_in [OF assms(1) b(1) True]
      by (simp add: tl_setBit_def idx ijl [symmetric] getBit_ok)
  next
    case False
    obtain x1 where x1: "bv_setBit ops (lev1 bv ! i) j = Some (x1, True)"
      "inv x1" "abs x1 = insert j (abs (lev1 bv ! i))"
      using setBit_ok [of "lev1 bv ! i" j] D(3) [OF b(1)] b(2) False by auto
    let ?c = "bv_clear ops (lev2 bv ! i ! j)"
    have c: "inv ?c" "abs ?c = {}"
      using clear_ok D(5) [OF b(1,2)] by auto
    obtain x2 where "bv_setBit ops ?c l = Some (x2, True)" "inv x2" "abs x2 = {l}"
      using setBit_ok [OF c(1) b(3)] c(2) by auto
    then show ?thesis
      using set_cell [OF assms(1) b(1,2) x1(2,3), of x2] D(1,2) D(3,4) [OF b(1)] b False
        cell_out [OF False] x1(1)
      by (simp add: tl_setBit_def idx ijl [symmetric] getBit_ok)
  qed
  then show ?thesis
    using Tabs_insert [OF _ ijl] mem by auto
qed

lemma tl_clearBit_ok:
  assumes "Tinv bv" and "idx < tl_size ops k"
  shows "\<exists>bv'. tl_clearBit ops k bv idx = Some (bv', idx \<in> Tabs bv) \<and> Tinv bv' \<and>
    Tabs bv' = Tabs bv - {idx}"
proof -
  note D = TinvD [OF assms(1)] and idx = idx_ok [OF assms(2)]
  define i j l where ijl: "i = idx div (sz * sz)" "j = idx div sz mod sz" "l = idx mod sz"
  have b: "i < k" "j < sz" "l < sz"
    using idx by (simp_all add: ijl)
  have mem: "idx \<in> Tabs bv \<longleftrightarrow> l \<in> cell bv i j"
    by (simp add: tl_abs_def ijl)
  have "\<exists>bv'. tl_clearBit ops k bv idx = Some (bv', l \<in> cell bv i j) \<and> Tinv bv' \<and>
    cell bv' = (cell bv)(i := (cell bv i)(j := cell bv i j - {l}))"
  proof (cases "j \<in> abs (lev1 bv ! i)")
    case True
    obtain x2 where x2: "bv_clearBit ops (lev2 bv ! i ! j) l = Some (x2, l \<in> abs (lev2 bv ! i ! j))"
      "inv x2" "abs x2 = abs (lev2 bv ! i ! j) - {l}"
      using clearBit_ok [of "lev2 bv ! i ! j" l] D(6) [OF b(1) True] b(3) by auto
    obtain bv' where "tl_clear_if_empty ops i j
        (bv\<lparr>lev2 := (lev2 bv)[i := (lev2 bv ! i)[j := x2]]\<rparr>) = Some bv'" "Tinv bv'"
      "cell bv' = (cell bv)(i := (cell bv i)(j := abs x2))"
      using clear_if_empty_ok [OF assms(1) b(1) True x2(2)] by blast
    then show ?thesis
      using D(1,2) D(3,4) [OF b(1)] b True cell_in [OF assms(1) b(1) True] x2
      by (simp add: tl_clearBit_def idx ijl [symmetric] getBit_ok)
  next
    case False
    then show ?thesis
      using D(1,2) D(3) [OF b(1)] b cell_out [OF False] assms(1)
      by (simp add: tl_clearBit_def idx ijl [symmetric] getBit_ok fun_eq_iff)
  qed
  then show ?thesis
    using Tabs_remove [OF _ ijl] mem by auto
qed

lemma tl_getBit_ok:
  assumes "Tinv bv" and "idx < tl_size ops k"
  shows "tl_getBit ops k bv idx = Some (idx \<in> Tabs bv)"
proof -
  note D = TinvD [OF assms(1)] and idx = idx_ok [OF assms(2)]
  define i j l where ijl: "i = idx div (sz * sz)" "j = idx div sz mod sz" "l = idx mod sz"
  have b: "i < k" "j < sz" "l < sz"
    using idx by (simp_all add: ijl)
  show ?thesis
    using D(1,2) D(3,4,6) [OF b(1)] b
    by (simp add: tl_getBit_def tl_abs_def tl_cell_def idx ijl [symmetric] getBit_ok)
qed

lemma tl_empty_ok:
  assumes "Tinv bv"
  shows "tl_empty ops bv \<longleftrightarrow> Tabs bv = {}"
proof -
  note D = TinvD [OF assms]
  have "tl_empty ops bv \<longleftrightarrow> (\<forall>i<k. abs (lev1 bv ! i) = {})"
    using D(1,3) empty_ok by (auto simp: tl_empty_def list_all_length)
  also have "\<dots> \<longleftrightarrow> (\<forall>i j. cell bv i j = {})"
    using cell_empty_iff [OF assms] cell_bound [OF assms] by blast
  finally show ?thesis
    by (simp add: Tabs_empty_iff [OF assms])
qed

lemma tl_clear_ok:
  assumes "Tshape bv"
  shows "Tinv (tl_clear ops bv)" and "cell (tl_clear ops bv) = (\<lambda>_ _. {})"
  using assms clear_ok
  by (auto simp: tl_clear_def tl_inv_def tl_shape_def tl_cell_def fun_eq_iff inv_shape)

lemma tl_first_from_dropWhile:
  assumes "Tinv bv" and "\<forall>i\<in>set is. i < k"
  shows "tl_first_from ops is bv = tl_first_from ops (dropWhile (\<lambda>i. abs (lev1 bv ! i) = {}) is) bv"
  using assms(2) TinvD [OF assms(1)] empty_ok by (induction "is") auto

text \<open>The first row that holds anything, the first cell in it and the first bit of that give the minimum.\<close>

lemma first_bit:
  assumes "Tinv bv" and "i < k" and "\<And>i'. i' < i \<Longrightarrow> abs (lev1 bv ! i') = {}"
    and "abs (lev1 bv ! i) \<noteq> {}"
  defines "j \<equiv> Min (abs (lev1 bv ! i))"
  defines "l \<equiv> Min (abs (lev2 bv ! i ! j))"
  shows "j \<in> abs (lev1 bv ! i)" and "l \<in> cell bv i j" and "Min (Tabs bv) = tl_enc sz i j l"
proof -
  note D = TinvD [OF assms(1)]
  show j: "j \<in> abs (lev1 bv ! i)"
    using finite_abs [OF D(3) [OF assms(2)]] assms(4) by (auto simp: j_def)
  have jmin: "j \<le> j'" if "j' \<in> abs (lev1 bv ! i)" for j'
    using finite_abs [OF D(3) [OF assms(2)]] that by (auto simp: j_def)
  show l: "l \<in> cell bv i j"
    using finite_abs [of "lev2 bv ! i ! j"] D(6) [OF assms(2) j] cell_in [OF assms(1,2) j]
    by (auto simp: l_def)
  have lmin: "l \<le> l'" if "l' \<in> cell bv i j" for l'
    using finite_abs [of "lev2 bv ! i ! j"] D(6) [OF assms(2) j] cell_in [OF assms(1,2) j] that
    by (auto simp: l_def)
  have b: "j < sz" "l < sz"
    using cell_bound [OF assms(1) l] by auto
  show "Min (Tabs bv) = tl_enc sz i j l"
  proof (rule Min_eqI)
    have "Tabs bv \<subseteq> {..<tl_size ops k}"
      by (rule Tabs_bound [OF assms(1)])
    then show "finite (Tabs bv)"
      by (rule finite_subset) simp
    show "tl_enc sz i j l \<in> Tabs bv"
      using Tabs_enc [OF b] l by simp
  next
    fix y assume "y \<in> Tabs bv"
    then obtain i' j' l' where y: "y = tl_enc sz i' j' l'" and l': "l' \<in> cell bv i' j'"
      using Tabs_cases [OF assms(1)] by metis
    then have j': "j' \<in> abs (lev1 bv ! i')"
      using cell_out by blast
    have "i \<le> i'"
      using assms(3) [of i'] j' by (cases "i' < i") auto
    then show "tl_enc sz i j l \<le> y"
      unfolding y using b jmin [of j'] j' lmin [of l'] l'
      by (intro tl_enc_mono) (auto simp: le_less)
  qed
qed

lemma first_row:
  assumes "Tinv bv" and "m \<le> k" and "\<And>i. i < m \<Longrightarrow> abs (lev1 bv ! i) = {}" and "Tabs bv \<noteq> {}"
  obtains i where "m \<le> i" "i < k" "\<And>i'. i' < i \<Longrightarrow> abs (lev1 bv ! i') = {}" "abs (lev1 bv ! i) \<noteq> {}"
    "dropWhile (\<lambda>i. abs (lev1 bv ! i) = {}) [m..<k] = i # [Suc i..<k]"
proof -
  obtain i where i: "m \<le> i" "i \<le> k" "dropWhile (\<lambda>i. abs (lev1 bv ! i) = {}) [m..<k] = [i..<k]"
    "\<And>i'. m \<le> i' \<Longrightarrow> i' < i \<Longrightarrow> abs (lev1 bv ! i') = {}" "i < k \<Longrightarrow> abs (lev1 bv ! i) \<noteq> {}"
    using dropWhile_upt [OF assms(2), of "\<lambda>i. abs (lev1 bv ! i) = {}"] by auto
  have below: "abs (lev1 bv ! i') = {}" if "i' < i" for i'
    using that i(4) [of i'] assms(3) [of i'] by (cases "m \<le> i'") auto
  obtain i' j' l' where "l' \<in> cell bv i' j'" "i' < k"
    using Tabs_cases [OF assms(1)] assms(4) by blast
  then have "i < k"
    using i(2) below [of i'] cell_out [of j' bv i'] by (cases "i = k") auto
  then show thesis
    using that [of i] i below by (simp add: upt_conv_Cons)
qed

lemma tl_first_ok:
  assumes "Tinv bv" and "Tabs bv \<noteq> {}"
  shows "\<exists>bv'. tl_getAndClearFirstOne ops k bv = Some (bv', Min (Tabs bv)) \<and> Tinv bv' \<and>
    Tabs bv' = Tabs bv - {Min (Tabs bv)}"
proof -
  note D = TinvD [OF assms(1)]
  obtain i where i: "i < k" "\<And>i'. i' < i \<Longrightarrow> abs (lev1 bv ! i') = {}" "abs (lev1 bv ! i) \<noteq> {}"
    "dropWhile (\<lambda>i. abs (lev1 bv ! i) = {}) [0..<k] = i # [Suc i..<k]"
    using first_row [OF assms(1) _ _ assms(2), of 0] by auto
  define j l where "j = Min (abs (lev1 bv ! i))" and "l = Min (abs (lev2 bv ! i ! j))"
  note F = first_bit [OF assms(1) i(1-3), folded j_def, folded l_def]
  note b = cell_bound [OF assms(1) F(2)] and D6 = D(6) [OF i(1) F(1)]
  obtain x1 where x1: "bv_getAndClearFirstOne ops (lev1 bv ! i) = Some (x1, j)" "inv x1"
    "abs x1 = abs (lev1 bv ! i) - {j}"
    using first_ok [OF D(3) [OF i(1)] i(3)] j_def by auto
  obtain x1' where x1': "bv_setBit ops x1 j = Some (x1', True)" "inv x1'" "abs x1' = insert j (abs (lev1 bv ! i))"
    using setBit_ok [OF x1(2), of j] b x1(3) by auto
  obtain x2 where x2: "bv_getAndClearFirstOne ops (lev2 bv ! i ! j) = Some (x2, l)" "inv x2"
    "abs x2 = cell bv i j - {l}"
    using first_ok [of "lev2 bv ! i ! j"] D6 cell_in [OF assms(1) i(1) F(1)] l_def by auto
  have "\<exists>bv'. tl_getAndClearFirstOne ops k bv = Some (bv', tl_enc sz i j l) \<and> Tinv bv' \<and>
    cell bv' = (cell bv)(i := (cell bv i)(j := abs x2))"
    using D(1,2) D(4) [OF i(1)] i(1,3) b x1(1) x2(1,2) empty_ok [OF D(3) [OF i(1)]] empty_ok [OF x2(2)]
      tl_first_from_dropWhile [OF assms(1), of "[0..<k]", unfolded i(4)] x1'(1)
      set_cell [OF assms(1) i(1) _ x1'(2,3) x2(2)] drop_cell [OF assms(1) i(1) _ x1(2,3) inv_shape [OF x2(2)]]
    by (cases "abs x2 = {}") (simp_all add: tl_getAndClearFirstOne_def tl_enc_def)
  then show ?thesis
    unfolding x2(3) using Tabs_remove [of _ bv i j l "tl_enc sz i j l"] tl_enc_inverse [of j sz l i] b F(3) by auto
qed

end

context two_level
begin

text \<open>
  The shape of the set operations: the outer loop visits every row once, the inner one the cells
  of a row; \<open>f\<close> is what happens to a cell and \<open>c\<close> whether that is reported as a change.
\<close>

lemma cells_foreach:
  assumes "inv t" and "Tinv bv"
    and step: "\<And>j bv1 res. \<lbrakk> j \<in> abs t; Tinv bv1; cell bv1 i j = cell bv i j \<rbrakk> \<Longrightarrow>
      \<exists>bv'. body j (bv1, res) = Some (bv', res \<or> c j (cell bv i j)) \<and> Tinv bv' \<and>
        cell bv' = (cell bv1)(i := (cell bv1 i)(j := f j (cell bv i j)))"
  shows "\<exists>bv'. bv_foreach ops body t (bv, res) = Some (bv', res \<or> (\<exists>j\<in>abs t. c j (cell bv i j))) \<and>
    Tinv bv' \<and> cell bv' = (cell bv)(i := (\<lambda>j. if j \<in> abs t then f j (cell bv i j) else cell bv i j))"
proof -
  define I where "I P = (\<lambda>(bv', res'). (res' \<longleftrightarrow> res \<or> (\<exists>j\<in>P. c j (cell bv i j))) \<and> Tinv bv' \<and>
    cell bv' = (cell bv)(i := (\<lambda>j. if j \<in> P then f j (cell bv i j) else cell bv i j)))" for P
  have "\<exists>s'. bv_foreach ops body t (bv, res) = Some s' \<and> I (abs t) s'"
  proof (rule foreach_invariant [OF assms(1)])
    show "I {} (bv, res)"
      using assms(2) by (simp add: I_def)
  next
    fix P j and s :: "'bv two_level \<times> bool"
    assume j: "P \<subseteq> abs t" "j \<in> abs t" "j \<notin> P" "I P s"
    obtain bv1 res1 where s: "s = (bv1, res1)"
      by fastforce
    have I: "res1 \<longleftrightarrow> res \<or> (\<exists>j\<in>P. c j (cell bv i j))" "Tinv bv1"
      "cell bv1 = (cell bv)(i := (\<lambda>j. if j \<in> P then f j (cell bv i j) else cell bv i j))"
      using j(4) by (simp_all add: I_def s)
    obtain bv' where "body j (bv1, res1) = Some (bv', res1 \<or> c j (cell bv i j))" "Tinv bv'"
      "cell bv' = (cell bv1)(i := (cell bv1 i)(j := f j (cell bv i j)))"
      using step [OF j(2) I(2), of res1] I(3) j(3) by auto
    then show "\<exists>s'. body j s = Some s' \<and> I (insert j P) s'"
      using I by (auto simp: s I_def fun_eq_iff)
  qed
  then show ?thesis
    by (auto simp: I_def)
qed

lemma rows_foldM:
  assumes "Tinv bv"
    and step: "\<And>i bv res. \<lbrakk> i < k; Tinv bv \<rbrakk> \<Longrightarrow>
      \<exists>bv'. row i (bv, res) = Some (bv', res \<or> (\<exists>j. c i j (cell bv i j))) \<and> Tinv bv' \<and>
        cell bv' = (cell bv)(i := (\<lambda>j. f i j (cell bv i j)))"
  shows "\<exists>bv'. foldM row [0..<k] (bv, False) = Some (bv', \<exists>i<k. \<exists>j. c i j (cell bv i j)) \<and>
    Tinv bv' \<and> (\<forall>i<k. cell bv' i = (\<lambda>j. f i j (cell bv i j)))"
proof -
  define I where "I n = (\<lambda>(bv', res'). (res' \<longleftrightarrow> (\<exists>i<n. \<exists>j. c i j (cell bv i j))) \<and> Tinv bv' \<and>
    (\<forall>i. cell bv' i = (if i < n then (\<lambda>j. f i j (cell bv i j)) else cell bv i)))" for n :: nat
  have "\<exists>s'. foldM row [0..<k] (bv, False) = Some s' \<and> I k s'"
  proof (rule foldM_upt_invariant)
    show "I 0 (bv, False)"
      using assms(1) by (simp add: I_def)
  next
    fix n and s :: "'bv two_level \<times> bool"
    assume n: "n < k" "I n s"
    obtain bv1 res1 where s: "s = (bv1, res1)"
      by fastforce
    have I: "res1 \<longleftrightarrow> (\<exists>i<n. \<exists>j. c i j (cell bv i j))" "Tinv bv1"
      "\<And>i. cell bv1 i = (if i < n then (\<lambda>j. f i j (cell bv i j)) else cell bv i)"
      using n(2) by (simp_all add: I_def s)
    obtain bv' where "row n (bv1, res1) = Some (bv', res1 \<or> (\<exists>j. c n j (cell bv n j)))" "Tinv bv'"
      "cell bv' = (cell bv1)(n := (\<lambda>j. f n j (cell bv n j)))"
      using step [OF n(1) I(2), of res1] unfolding I(3) [of n] by auto
    then show "\<exists>s'. row n s = Some s' \<and> I (Suc n) s'"
      using I by (auto simp: s I_def less_Suc_eq)
  qed simp
  then show ?thesis
    by (auto simp: I_def)
qed

lemma union_cell_ok:
  assumes "Tinv v" and "i < k" and "j \<in> abs (lev1 v ! i)" and "Tinv bv"
  shows "\<exists>bv'. tl_union_cell ops v i j (bv, res) = Some (bv', res \<or> \<not> cell v i j \<subseteq> cell bv i j) \<and>
    Tinv bv' \<and> cell bv' = (cell bv)(i := (cell bv i)(j := cell bv i j \<union> cell v i j))"
proof -
  note D = TinvD [OF assms(4)] and V = TinvD [OF assms(1)]
  have j: "j < sz"
    using abs_less [OF V(3)] assms(2,3) by blast
  obtain x1 where x1: "bv_setBit ops (lev1 bv ! i) j = Some (x1, j \<notin> abs (lev1 bv ! i))" "inv x1"
    "abs x1 = insert j (abs (lev1 bv ! i))"
    using setBit_ok [OF D(3) [OF assms(2)] j] by blast
  define y where "y = (if j \<notin> abs (lev1 bv ! i) then bv_clear ops (lev2 bv ! i ! j) else lev2 bv ! i ! j)"
  have y: "inv y" "abs y = cell bv i j"
    using clear_ok [OF D(5) [OF assms(2) j]] D(6) [OF assms(2), of j] D(1) assms(2)
    by (auto simp: y_def tl_cell_def)
  have w: "inv (lev2 v ! i ! j)" "abs (lev2 v ! i ! j) = cell v i j" "cell v i j \<noteq> {}"
    using V(6) [OF assms(2,3)] cell_in [OF assms(1-3)] by auto
  obtain x2 where x2: "bv_setUnion ops y (lev2 v ! i ! j) = Some (x2, \<not> cell v i j \<subseteq> cell bv i j)"
    "inv x2" "abs x2 = cell bv i j \<union> cell v i j"
    using setUnion_ok [OF y(1) w(1)] y(2) w(2) by auto
  show ?thesis
    using set_cell [OF assms(4,2) j x1(2,3) x2(2)] x2(1,3) w(3) D(1,2) D(4) [OF assms(2)] V(2)
      V(4) [OF assms(2)] assms(2) j x1(1)
    by (simp add: tl_union_cell_def Let_def y_def)
qed

lemma union_row_ok:
  assumes "Tinv v" and "i < k" and "Tinv bv"
  shows "\<exists>bv'. arr_get (lev1 v) i \<bind> (\<lambda>t. bv_foreach ops (tl_union_cell ops v i) t (bv, res)) =
      Some (bv', res \<or> (\<exists>j. \<not> cell v i j \<subseteq> cell bv i j)) \<and> Tinv bv' \<and>
    cell bv' = (cell bv)(i := (\<lambda>j. cell bv i j \<union> cell v i j))"
proof -
  note V = TinvD [OF assms(1)]
  have out: "cell v i j = {}" if "j \<notin> abs (lev1 v ! i)" for j
    using that by (rule cell_out)
  have flag: "(\<exists>j\<in>abs (lev1 v ! i). \<not> cell v i j \<subseteq> cell bv i j) \<longleftrightarrow> (\<exists>j. \<not> cell v i j \<subseteq> cell bv i j)"
    using out by blast
  have result: "(\<lambda>j. if j \<in> abs (lev1 v ! i) then cell bv i j \<union> cell v i j else cell bv i j) =
      (\<lambda>j. cell bv i j \<union> cell v i j)"
    using out by (auto simp: fun_eq_iff)
  have "\<exists>bv'. bv_foreach ops (tl_union_cell ops v i) (lev1 v ! i) (bv, res) =
      Some (bv', res \<or> (\<exists>j\<in>abs (lev1 v ! i). \<not> cell v i j \<subseteq> cell bv i j)) \<and> Tinv bv' \<and>
    cell bv' = (cell bv)(i := (\<lambda>j. if j \<in> abs (lev1 v ! i) then cell bv i j \<union> cell v i j else cell bv i j))"
  proof (rule cells_foreach [OF V(3) [OF assms(2)] assms(3)])
    fix j bv1 res
    assume "j \<in> abs (lev1 v ! i)" "Tinv bv1" "cell bv1 i j = cell bv i j"
    then show "\<exists>bv'. tl_union_cell ops v i j (bv1, res) = Some (bv', res \<or> \<not> cell v i j \<subseteq> cell bv i j) \<and>
        Tinv bv' \<and> cell bv' = (cell bv1)(i := (cell bv1 i)(j := cell bv i j \<union> cell v i j))"
      using union_cell_ok [OF assms(1,2), of j bv1 res] by simp
  qed
  then show ?thesis
    unfolding flag result using V(1) assms(2) by simp
qed

text \<open>The cell step that intersection and difference share.\<close>

lemma shrink_cell_ok:
  assumes "Tinv v" and "i < k" and "j \<in> abs (lev1 v ! i)" and "Tinv bv" and "cell bv i j \<noteq> {}"
    and "\<And>x. \<lbrakk> inv x; inv (lev2 v ! i ! j) \<rbrakk> \<Longrightarrow> \<exists>x'. op x (lev2 v ! i ! j) = Some (x', c (abs x)) \<and>
      inv x' \<and> abs x' = f (abs x)"
  shows "\<exists>bv'. (do {
      v2 \<leftarrow> arr2_get (lev2 bv) i j;
      w2 \<leftarrow> arr2_get (lev2 v) i j;
      (v2, changed) \<leftarrow> op v2 w2;
      l2 \<leftarrow> arr2_set (lev2 bv) i j v2;
      bv \<leftarrow> tl_clear_if_empty ops i j (bv\<lparr>lev2 := l2\<rparr>);
      Some (bv, if changed then True else res) }) = Some (bv', res \<or> c (cell bv i j)) \<and> Tinv bv' \<and>
    cell bv' = (cell bv)(i := (cell bv i)(j := f (cell bv i j)))"
proof -
  note D = TinvD [OF assms(4)] and V = TinvD [OF assms(1)]
  have j: "j \<in> abs (lev1 bv ! i)" "j < sz"
    using assms(5) cell_out [of j bv i] abs_less [OF V(3) [OF assms(2)] assms(3)] by auto
  obtain x2 where x2: "op (lev2 bv ! i ! j) (lev2 v ! i ! j) = Some (x2, c (cell bv i j))" "inv x2"
    "abs x2 = f (cell bv i j)"
    using assms(6) [of "lev2 bv ! i ! j"] D(6) [OF assms(2) j(1)] V(6) [OF assms(2,3)]
      cell_in [OF assms(4,2) j(1)] by auto
  obtain bv' where "tl_clear_if_empty ops i j (bv\<lparr>lev2 := (lev2 bv)[i := (lev2 bv ! i)[j := x2]]\<rparr>) =
      Some bv'" "Tinv bv'" "cell bv' = (cell bv)(i := (cell bv i)(j := abs x2))"
    using clear_if_empty_ok [OF assms(4,2) j(1) x2(2)] by blast
  then show ?thesis
    using x2 D(2) D(4) [OF assms(2)] V(2) V(4) [OF assms(2)] assms(2) j(2) by simp
qed

lemma intersect_cell_ok:
  assumes "Tinv v" and "i < k" and "j \<in> abs (lev1 v ! i)" and "Tinv bv" and "cell bv i j \<noteq> {}"
  shows "\<exists>bv'. tl_intersect_cell ops v i j (bv, res) = Some (bv', res \<or> \<not> cell bv i j \<subseteq> cell v i j) \<and>
    Tinv bv' \<and> cell bv' = (cell bv)(i := (cell bv i)(j := cell bv i j \<inter> cell v i j))"
  unfolding tl_intersect_cell_def prod.case cell_in [OF assms(1-3)]
  using setIntersection_ok by (intro shrink_cell_ok [OF assms]) blast

lemma difference_cell_ok:
  assumes "Tinv v" and "i < k" and "j \<in> abs (lev1 v ! i)" and "Tinv bv" and "cell bv i j \<noteq> {}"
  shows "\<exists>bv'. tl_difference_cell ops v i j (bv, res) = Some (bv', res \<or> cell bv i j \<inter> cell v i j \<noteq> {}) \<and>
    Tinv bv' \<and> cell bv' = (cell bv)(i := (cell bv i)(j := cell bv i j - cell v i j))"
  unfolding tl_difference_cell_def prod.case cell_in [OF assms(1-3)]
  using setDifference_ok by (intro shrink_cell_ok [OF assms]) blast

lemma shrink_foreach:
  assumes "inv t" and "Tinv bv" and "\<And>j. j \<in> abs t \<Longrightarrow> j \<in> B \<and> cell bv i j \<noteq> {}"
    and step: "\<And>j bv res. \<lbrakk> j \<in> B; Tinv bv; cell bv i j \<noteq> {} \<rbrakk> \<Longrightarrow>
      \<exists>bv'. body j (bv, res) = Some (bv', res \<or> c j (cell bv i j)) \<and> Tinv bv' \<and>
        cell bv' = (cell bv)(i := (cell bv i)(j := f j (cell bv i j)))"
  shows "\<exists>bv'. bv_foreach ops body t (bv, res) = Some (bv', res \<or> (\<exists>j\<in>abs t. c j (cell bv i j))) \<and>
    Tinv bv' \<and> cell bv' = (cell bv)(i := (\<lambda>j. if j \<in> abs t then f j (cell bv i j) else cell bv i j))"
proof (rule cells_foreach [OF assms(1,2)])
  fix j bv1 res
  assume j: "j \<in> abs t" and bv1: "Tinv bv1" and eq: "cell bv1 i j = cell bv i j"
  show "\<exists>bv'. body j (bv1, res) = Some (bv', res \<or> c j (cell bv i j)) \<and> Tinv bv' \<and>
      cell bv' = (cell bv1)(i := (cell bv1 i)(j := f j (cell bv i j)))"
    using step [of j bv1 res] assms(3) [OF j] bv1 eq by simp
qed

lemma row_intersect:
  assumes "Tinv bv" and "i < k" and "inv x1" and "abs x1 \<subseteq> abs (lev1 bv ! i)"
  defines "bv' \<equiv> bv\<lparr>lev1 := (lev1 bv)[i := x1]\<rparr>"
  shows "Tinv bv'" and "cell bv' = (cell bv)(i := (\<lambda>j. if j \<in> abs x1 then cell bv i j else {}))"
proof -
  note D = TinvD [OF assms(1)]
  show "Tinv bv'"
    by (rule TinvI) (use D assms(2-4) in \<open>auto simp: bv'_def nth_list_update split: if_splits\<close>)
  show "cell bv' = (cell bv)(i := (\<lambda>j. if j \<in> abs x1 then cell bv i j else {}))"
    using D(1,2) assms(2,4) by (auto simp: bv'_def tl_cell_def nth_list_update fun_eq_iff)
qed

lemma intersect_row_ok:
  assumes "Tinv v" and "i < k" and "Tinv bv"
  shows "\<exists>bv'. tl_intersect_row ops v i (bv, res) =
      Some (bv', res \<or> (\<exists>j. \<not> cell bv i j \<subseteq> cell v i j)) \<and> Tinv bv' \<and>
    cell bv' = (cell bv)(i := (\<lambda>j. cell bv i j \<inter> cell v i j))"
proof -
  note D = TinvD [OF assms(3)] and V = TinvD [OF assms(1)]
  let ?A = "abs (lev1 bv ! i)" and ?B = "abs (lev1 v ! i)"
  obtain x1 where x1: "bv_setIntersection ops (lev1 bv ! i) (lev1 v ! i) = Some (x1, \<not> ?A \<subseteq> ?B)"
    "inv x1" "abs x1 = ?A \<inter> ?B"
    using setIntersection_ok [OF D(3) [OF assms(2)] V(3) [OF assms(2)]] by blast
  define bv1 where "bv1 = bv\<lparr>lev1 := (lev1 bv)[i := x1]\<rparr>"
  have bv1: "Tinv bv1" "cell bv1 = (cell bv)(i := (\<lambda>j. if j \<in> ?A \<inter> ?B then cell bv i j else {}))"
    using row_intersect [OF assms(3,2) x1(2)] x1(3) by (simp_all add: bv1_def)
  have ne: "cell bv i j \<noteq> {} \<longleftrightarrow> j \<in> ?A" "cell v i j \<noteq> {} \<longleftrightarrow> j \<in> ?B" for j
    using cell_empty_iff [OF assms(3,2)] cell_empty_iff [OF assms(1,2)] by blast+
  have flag: "\<not> ?A \<subseteq> ?B \<or> (\<exists>j\<in>?A \<inter> ?B. \<not> cell bv i j \<subseteq> cell v i j) \<longleftrightarrow>
      (\<exists>j. \<not> cell bv i j \<subseteq> cell v i j)"
    using ne by blast
  have result: "(\<lambda>j. if j \<in> ?A \<inter> ?B then cell bv i j \<inter> cell v i j else {}) = (\<lambda>j. cell bv i j \<inter> cell v i j)"
    using ne by (auto simp: fun_eq_iff)
  have each: "\<exists>bv'. bv_foreach ops (tl_intersect_cell ops v i) x1 (bv1, res1) =
      Some (bv', res1 \<or> (\<exists>j\<in>abs x1. \<not> cell bv1 i j \<subseteq> cell v i j)) \<and> Tinv bv' \<and>
    cell bv' = (cell bv1)(i := (\<lambda>j. if j \<in> abs x1 then cell bv1 i j \<inter> cell v i j else cell bv1 i j))"
    for res1
    by (rule shrink_foreach [OF x1(2) bv1(1) _ intersect_cell_ok [OF assms(1,2)]])
       (use ne in \<open>simp_all add: x1(3) bv1(2)\<close>)
  have flag': "(res \<or> \<not> ?A \<subseteq> ?B) \<or> (\<exists>j\<in>abs x1. \<not> cell bv1 i j \<subseteq> cell v i j) \<longleftrightarrow>
      res \<or> (\<exists>j. \<not> cell bv i j \<subseteq> cell v i j)"
    unfolding flag [symmetric] by (simp add: x1(3) bv1(2) disj_assoc)
  have result': "(cell bv1)(i := (\<lambda>j. if j \<in> abs x1 then cell bv1 i j \<inter> cell v i j else cell bv1 i j)) =
      (cell bv)(i := (\<lambda>j. cell bv i j \<inter> cell v i j))"
    unfolding result [symmetric] by (simp add: x1(3) bv1(2) fun_eq_iff)
  obtain bv' where bv': "bv_foreach ops (tl_intersect_cell ops v i) x1
      (bv1, res \<or> \<not> ?A \<subseteq> ?B) = Some (bv', res \<or> (\<exists>j. \<not> cell bv i j \<subseteq> cell v i j))" "Tinv bv'"
    "cell bv' = (cell bv)(i := (\<lambda>j. cell bv i j \<inter> cell v i j))"
    using each [of "res \<or> \<not> ?A \<subseteq> ?B"] unfolding flag' result' by blast
  show ?thesis
  proof (cases "abs x1 = {}")
    case False
    then show ?thesis
      using bv' x1(1) D(1) V(1) assms(2) empty_ok [OF x1(2)]
      by (cases "?A \<subseteq> ?B") (simp_all add: tl_intersect_row_def Let_def bv1_def)
  next
    case True
    then have "bv_foreach ops (tl_intersect_cell ops v i) x1 (bv1, res \<or> \<not> ?A \<subseteq> ?B) =
        Some (bv1, res \<or> \<not> ?A \<subseteq> ?B)"
      by (simp add: foreach_ok [OF x1(2)])
    with True show ?thesis
      using bv' x1(1) D(1) V(1) assms(2) empty_ok [OF x1(2)]
      by (cases "?A \<subseteq> ?B") (simp_all add: tl_intersect_row_def Let_def bv1_def)
  qed
qed

lemma difference_row_ok:
  assumes "Tinv v" and "i < k" and "Tinv bv"
  shows "\<exists>bv'. tl_difference_row ops v i (bv, res) =
      Some (bv', res \<or> (\<exists>j. cell bv i j \<inter> cell v i j \<noteq> {})) \<and> Tinv bv' \<and>
    cell bv' = (cell bv)(i := (\<lambda>j. cell bv i j - cell v i j))"
proof -
  note D = TinvD [OF assms(3)] and V = TinvD [OF assms(1)]
  let ?A = "abs (lev1 bv ! i)" and ?B = "abs (lev1 v ! i)"
  obtain x1 where x1: "bv_setIntersection ops (lev1 bv ! i) (lev1 v ! i) = Some (x1, \<not> ?A \<subseteq> ?B)"
    "inv x1" "abs x1 = ?A \<inter> ?B"
    using setIntersection_ok [OF D(3) [OF assms(2)] V(3) [OF assms(2)]] by blast
  have ne: "cell bv i j \<noteq> {} \<longleftrightarrow> j \<in> ?A" "cell v i j \<noteq> {} \<longleftrightarrow> j \<in> ?B" for j
    using cell_empty_iff [OF assms(3,2)] cell_empty_iff [OF assms(1,2)] by blast+
  have flag: "(\<exists>j\<in>?A \<inter> ?B. cell bv i j \<inter> cell v i j \<noteq> {}) \<longleftrightarrow> (\<exists>j. cell bv i j \<inter> cell v i j \<noteq> {})"
    using ne by blast
  have result: "(\<lambda>j. if j \<in> ?A \<inter> ?B then cell bv i j - cell v i j else cell bv i j) =
      (\<lambda>j. cell bv i j - cell v i j)"
    using ne by (auto simp: fun_eq_iff)
  have "\<exists>bv'. bv_foreach ops (tl_difference_cell ops v i) x1 (bv, res) =
      Some (bv', res \<or> (\<exists>j\<in>abs x1. cell bv i j \<inter> cell v i j \<noteq> {})) \<and> Tinv bv' \<and>
    cell bv' = (cell bv)(i := (\<lambda>j. if j \<in> abs x1 then cell bv i j - cell v i j else cell bv i j))"
    by (rule shrink_foreach [OF x1(2) assms(3) _ difference_cell_ok [OF assms(1,2)]])
       (use ne in \<open>simp_all add: x1(3)\<close>)
  then show ?thesis
    unfolding x1(3) flag result
    using x1(1) D(1) V(1) assms(2) by (simp add: tl_difference_row_def)
qed

lemma Tabs_eqI:
  assumes "Tinv a" and "Tinv b" and "Tinv v" and "\<not> P False False"
    and "\<And>i j l. i < k \<Longrightarrow> l \<in> cell a i j \<longleftrightarrow> P (l \<in> cell b i j) (l \<in> cell v i j)"
  shows "x \<in> Tabs a \<longleftrightarrow> P (x \<in> Tabs b) (x \<in> Tabs v)"
proof (cases "x div (sz * sz) < k")
  case True
  then show ?thesis
    using assms(5) by (simp add: tl_abs_def)
next
  case False
  then have "x \<notin> Tabs a" "x \<notin> Tabs b" "x \<notin> Tabs v"
    using cell_bound assms(1-3) by (auto simp: tl_abs_def)
  with assms(4) show ?thesis by simp
qed

lemma ex_rows:
  assumes "Tinv v"
  shows "(\<exists>i<k. \<exists>j. \<not> cell v i j \<subseteq> X i j) \<longleftrightarrow> \<not> (\<forall>i j. cell v i j \<subseteq> X i j)"
    and "(\<exists>i<k. \<exists>j. cell v i j \<inter> X i j \<noteq> {}) \<longleftrightarrow> \<not> (\<forall>i j. cell v i j \<inter> X i j = {})"
  using cell_bound [OF assms] by blast+

lemma tl_setUnion_ok:
  assumes "Tinv bv" and "Tinv v"
  shows "\<exists>bv'. tl_setUnion ops k bv v = Some (bv', \<not> Tabs v \<subseteq> Tabs bv) \<and> Tinv bv' \<and>
    Tabs bv' = Tabs bv \<union> Tabs v"
proof -
  have "\<exists>bv'. tl_setUnion ops k bv v = Some (bv', \<exists>i<k. \<exists>j. \<not> cell v i j \<subseteq> cell bv i j) \<and> Tinv bv' \<and>
      (\<forall>i<k. cell bv' i = (\<lambda>j. cell bv i j \<union> cell v i j))"
    unfolding tl_setUnion_def by (rule rows_foldM [OF assms(1)]) (rule union_row_ok [OF assms(2)])
  then obtain bv' where r: "tl_setUnion ops k bv v = Some (bv', \<exists>i<k. \<exists>j. \<not> cell v i j \<subseteq> cell bv i j)"
    and bv': "Tinv bv'" "\<And>i. i < k \<Longrightarrow> cell bv' i = (\<lambda>j. cell bv i j \<union> cell v i j)"
    by blast
  have "Tabs bv' = Tabs bv \<union> Tabs v"
    by (rule set_eqI, unfold Un_iff, rule Tabs_eqI [OF bv'(1) assms]) (simp_all add: bv'(2))
  moreover have "(\<exists>i<k. \<exists>j. \<not> cell v i j \<subseteq> cell bv i j) \<longleftrightarrow> \<not> Tabs v \<subseteq> Tabs bv"
    by (simp only: ex_rows(1) [OF assms(2)] Tabs_subset_iff [OF assms(2)])
  ultimately show ?thesis
    using r bv'(1) by simp
qed

lemma tl_setIntersection_ok:
  assumes "Tinv bv" and "Tinv v"
  shows "\<exists>bv'. tl_setIntersection ops k bv v = Some (bv', \<not> Tabs bv \<subseteq> Tabs v) \<and> Tinv bv' \<and>
    Tabs bv' = Tabs bv \<inter> Tabs v"
proof -
  have "\<exists>bv'. tl_setIntersection ops k bv v = Some (bv', \<exists>i<k. \<exists>j. \<not> cell bv i j \<subseteq> cell v i j) \<and> Tinv bv' \<and>
      (\<forall>i<k. cell bv' i = (\<lambda>j. cell bv i j \<inter> cell v i j))"
    unfolding tl_setIntersection_def by (rule rows_foldM [OF assms(1)]) (rule intersect_row_ok [OF assms(2)])
  then obtain bv' where r: "tl_setIntersection ops k bv v = Some (bv', \<exists>i<k. \<exists>j. \<not> cell bv i j \<subseteq> cell v i j)"
    and bv': "Tinv bv'" "\<And>i. i < k \<Longrightarrow> cell bv' i = (\<lambda>j. cell bv i j \<inter> cell v i j)"
    by blast
  have "Tabs bv' = Tabs bv \<inter> Tabs v"
    by (rule set_eqI, unfold Int_iff, rule Tabs_eqI [OF bv'(1) assms]) (simp_all add: bv'(2))
  moreover have "(\<exists>i<k. \<exists>j. \<not> cell bv i j \<subseteq> cell v i j) \<longleftrightarrow> \<not> Tabs bv \<subseteq> Tabs v"
    by (simp only: ex_rows(1) [OF assms(1)] Tabs_subset_iff [OF assms(1)])
  ultimately show ?thesis
    using r bv'(1) by simp
qed

lemma tl_setDifference_ok:
  assumes "Tinv bv" and "Tinv v"
  shows "\<exists>bv'. tl_setDifference ops k bv v = Some (bv', Tabs bv \<inter> Tabs v \<noteq> {}) \<and> Tinv bv' \<and>
    Tabs bv' = Tabs bv - Tabs v"
proof -
  have "\<exists>bv'. tl_setDifference ops k bv v = Some (bv', \<exists>i<k. \<exists>j. cell bv i j \<inter> cell v i j \<noteq> {}) \<and> Tinv bv' \<and>
      (\<forall>i<k. cell bv' i = (\<lambda>j. cell bv i j - cell v i j))"
    unfolding tl_setDifference_def by (rule rows_foldM [OF assms(1)]) (rule difference_row_ok [OF assms(2)])
  then obtain bv' where r: "tl_setDifference ops k bv v = Some (bv', \<exists>i<k. \<exists>j. cell bv i j \<inter> cell v i j \<noteq> {})"
    and bv': "Tinv bv'" "\<And>i. i < k \<Longrightarrow> cell bv' i = (\<lambda>j. cell bv i j - cell v i j)"
    by blast
  have "Tabs bv' = Tabs bv - Tabs v"
    by (rule set_eqI, unfold Diff_iff, rule Tabs_eqI [OF bv'(1) assms]) (simp_all add: bv'(2))
  moreover have "(\<exists>i<k. \<exists>j. cell bv i j \<inter> cell v i j \<noteq> {}) \<longleftrightarrow> Tabs bv \<inter> Tabs v \<noteq> {}"
    by (simp only: ex_rows(2) [OF assms(1)] Tabs_disjoint_iff [OF assms(1)])
  ultimately show ?thesis
    using r bv'(1) by simp
qed

end

context two_level
begin

lemma tl_copyFrom_ok:
  assumes "Tshape bv" and "Tinv v"
  shows "\<exists>bv'. tl_copyFrom ops k bv v = Some bv' \<and> Tinv bv' \<and> Tabs bv' = Tabs v"
proof -
  have "Tabs (tl_clear ops bv) = {}"
    using tl_clear_ok(2) [OF assms(1)] by (simp add: tl_abs_def)
  then show ?thesis
    using tl_setUnion_ok [OF tl_clear_ok(1) [OF assms(1)] assms(2)] by (auto simp: tl_copyFrom_def)
qed

lemma intersects_cells_ok:
  assumes "Tinv bv" and "Tinv v" and "i < k" and "inv t"
    and "abs t \<subseteq> abs (lev1 bv ! i) \<inter> abs (lev1 v ! i)"
  shows "tl_intersects_cells ops bv v i t = Some (\<exists>j\<in>abs t. cell bv i j \<inter> cell v i j \<noteq> {})"
  using assms(4,5)
proof (induction "card (abs t)" arbitrary: t)
  case 0
  then have "abs t = {}"
    using finite_abs by simp
  with 0 show ?case
    by (subst tl_intersects_cells.simps) (simp add: empty_ok)
next
  case (Suc n)
  note D = TinvD [OF assms(1)] and V = TinvD [OF assms(2)]
  have ne: "abs t \<noteq> {}"
    using Suc.hyps(2) by auto
  define j where "j = Min (abs t)"
  obtain t' where t': "bv_getAndClearFirstOne ops t = Some (t', j)" "inv t'" "abs t' = abs t - {j}"
    using first_ok [OF Suc.prems(1) ne] by (auto simp: j_def)
  have jt: "j \<in> abs t"
    using ne finite_abs [OF Suc.prems(1)] by (simp add: j_def)
  then have j: "j \<in> abs (lev1 bv ! i)" "j \<in> abs (lev1 v ! i)" "j < sz"
    using Suc.prems abs_less by auto
  have IH: "tl_intersects_cells ops bv v i t' = Some (\<exists>j\<in>abs t'. cell bv i j \<inter> cell v i j \<noteq> {})"
    using Suc.hyps Suc.prems jt t' finite_abs [OF Suc.prems(1)] by (intro Suc.hyps(1)) auto
  have "(\<exists>j\<in>abs t. cell bv i j \<inter> cell v i j \<noteq> {}) \<longleftrightarrow>
      cell bv i j \<inter> cell v i j \<noteq> {} \<or> (\<exists>j\<in>abs t'. cell bv i j \<inter> cell v i j \<noteq> {})"
    using jt t'(3) by blast
  then show ?case
    using ne j D(2) D(4) [OF assms(3)] V(1,2) V(3,4) [OF assms(3)] assms(3) empty_ok [OF Suc.prems(1)]
      intersectsWith_ok [of "lev2 bv ! i ! j" "lev2 v ! i ! j"] D(6) [OF assms(3) j(1)]
      V(6) [OF assms(3) j(2)] cell_in [OF assms(1,3) j(1)] cell_in [OF assms(2,3) j(2)]
    by (subst tl_intersects_cells.simps) (simp add: t'(1) IH getBit_ok)
qed

lemma intersects_from_ok:
  assumes "Tinv bv" and "Tinv v" and "\<forall>i\<in>set is. i < k"
  shows "tl_intersects_from ops bv v is = Some (\<exists>i\<in>set is. \<exists>j. cell bv i j \<inter> cell v i j \<noteq> {})"
  using assms(3)
proof (induction "is")
  case Nil
  then show ?case by simp
next
  case (Cons i "is")
  note D = TinvD [OF assms(1)] and V = TinvD [OF assms(2)]
  have i: "i < k"
    using Cons.prems by simp
  let ?A = "abs (lev1 bv ! i)" and ?B = "abs (lev1 v ! i)"
  obtain x1 where x1: "bv_setIntersection ops (lev1 bv ! i) (lev1 v ! i) = Some (x1, \<not> ?A \<subseteq> ?B)"
    "inv x1" "abs x1 = ?A \<inter> ?B"
    using setIntersection_ok [OF D(3) [OF i] V(3) [OF i]] by blast
  have "cell bv i j \<inter> cell v i j = {}" if "j \<notin> ?A \<inter> ?B" for j
    using that cell_out [of j bv i] cell_out [of j v i] by auto
  then have "(\<exists>j\<in>?A \<inter> ?B. cell bv i j \<inter> cell v i j \<noteq> {}) \<longleftrightarrow> (\<exists>j. cell bv i j \<inter> cell v i j \<noteq> {})"
    by blast
  then show ?case
    using intersects_cells_ok [OF assms(1,2) i x1(2)] x1(1,3) D(1) V(1) i Cons by simp
qed

lemma tl_intersectsWith_ok:
  assumes "Tinv bv" and "Tinv v"
  shows "tl_intersectsWith ops k bv v = Some (Tabs bv \<inter> Tabs v \<noteq> {})"
proof -
  have "(\<exists>i\<in>set [0..<k]. P i) \<longleftrightarrow> (\<exists>i<k. P i)" for P
    by auto
  then have "tl_intersectsWith ops k bv v = Some (\<exists>i<k. \<exists>j. cell bv i j \<inter> cell v i j \<noteq> {})"
    using intersects_from_ok [OF assms, of "[0..<k]"] by (simp add: tl_intersectsWith_def)
  then show ?thesis
    by (simp only: ex_rows(2) [OF assms(1)] Tabs_disjoint_iff [OF assms(1)])
qed

definition full_row :: "'bv two_level \<Rightarrow> nat \<Rightarrow> bool" where
  "full_row bv i \<longleftrightarrow> inv (lev1 bv ! i) \<and> abs (lev1 bv ! i) = {..<sz} \<and>
     (\<forall>j < sz. inv (lev2 bv ! i ! j) \<and> abs (lev2 bv ! i ! j) = {..<sz})"

lemma setAll_row_ok:
  assumes "Tshape bv" and "i < k"
  shows "\<exists>bv'. tl_setAll_row ops i bv = Some bv' \<and> Tshape bv' \<and> full_row bv' i \<and>
    (\<forall>i'. i' \<noteq> i \<longrightarrow> lev1 bv' ! i' = lev1 bv ! i' \<and> lev2 bv' ! i' = lev2 bv ! i')"
proof -
  have len: "length (lev1 bv) = k" "length (lev2 bv) = k" "length (lev2 bv ! i) = sz"
    using assms by (auto simp: tl_shape_def)
  obtain x1 where x1: "bv_setAll ops (lev1 bv ! i) = Some x1" "inv x1" "abs x1 = {..<sz}"
    using setAll_ok [of "lev1 bv ! i"] assms by (auto simp: tl_shape_def)
  define step where "step = (\<lambda>i1 l2. do {
      v2 \<leftarrow> arr2_get l2 i i1; v2 \<leftarrow> bv_setAll ops v2; arr2_set l2 i i1 v2 })"
  define I where "I n l2 \<longleftrightarrow> length l2 = k \<and> length (l2 ! i) = sz \<and>
      (\<forall>i'. i' \<noteq> i \<longrightarrow> l2 ! i' = lev2 bv ! i') \<and>
      (\<forall>j < sz. if j < n then inv (l2 ! i ! j) \<and> abs (l2 ! i ! j) = {..<sz} else shape (l2 ! i ! j))"
    for n :: nat and l2
  have "\<exists>l2. foldM step [0..<sz] (lev2 bv) = Some l2 \<and> I sz l2"
  proof (rule foldM_upt_invariant)
    show "I 0 (lev2 bv)"
      using assms len by (auto simp: I_def tl_shape_def)
  next
    fix j l2 assume j: "j < sz" and I: "I j l2"
    obtain x2 where "bv_setAll ops (l2 ! i ! j) = Some x2" "inv x2" "abs x2 = {..<sz}"
      using setAll_ok [of "l2 ! i ! j"] I j by (auto simp: I_def)
    then show "\<exists>l2'. step j l2 = Some l2' \<and> I (Suc j) l2'"
      using I j assms(2) by (auto simp: I_def step_def nth_list_update less_Suc_eq)
  qed simp
  then obtain l2 where l2: "foldM step [0..<sz] (lev2 bv) = Some l2" "I sz l2"
    by blast
  then show ?thesis
    using x1 len assms
    by (auto simp: tl_setAll_row_def step_def [symmetric] I_def tl_shape_def full_row_def
        nth_list_update inv_shape)
qed

lemma tl_setAll_ok:
  assumes "Tshape bv"
  shows "\<exists>bv'. tl_setAll ops k bv = Some bv' \<and> Tinv bv' \<and> Tabs bv' = {..<tl_size ops k}"
proof -
  define I where "I n bv \<longleftrightarrow> Tshape bv \<and> (\<forall>i<n. full_row bv i)" for n bv
  have "\<exists>bv'. tl_setAll ops k bv = Some bv' \<and> I k bv'"
    unfolding tl_setAll_def
  proof (rule foldM_upt_invariant)
    fix n bv1 assume "n < k" "I n bv1"
    then show "\<exists>bv2. tl_setAll_row ops n bv1 = Some bv2 \<and> I (Suc n) bv2"
      using setAll_row_ok [of bv1 n] by (fastforce simp: I_def full_row_def less_Suc_eq)
  qed (simp_all add: I_def assms)
  then obtain bv' where bv': "tl_setAll ops k bv = Some bv'" "Tshape bv'" "\<And>i. i < k \<Longrightarrow> full_row bv' i"
    by (auto simp: I_def)
  have inv: "Tinv bv'"
    using bv'(2,3) size_pos by (auto simp: tl_inv_def full_row_def lessThan_empty_iff)
  have "x \<in> Tabs bv'" if "x < tl_size ops k" for x
    using bv'(2,3) idx_ok [OF that]
    by (auto simp: tl_abs_def tl_cell_def full_row_def tl_shape_def)
  then have "Tabs bv' = {..<tl_size ops k}"
    using Tabs_bound [OF inv] by auto
  then show ?thesis
    using bv'(1) inv by blast
qed

lemma tl_clear_abs:
  assumes "Tshape bv"
  shows "Tinv (tl_clear ops bv) \<and> Tabs (tl_clear ops bv) = {}"
  using tl_clear_ok [OF assms] by (simp add: tl_abs_def)

lemma tl_inv_shape: "Tinv bv \<Longrightarrow> Tshape bv"
  by (simp add: tl_inv_def)

end

sublocale two_level \<subseteq> tl: bit_vector "two_level_ops ops k" "tl_shape ops shape k"
  "tl_inv ops shape inv abs k" "tl_abs ops abs"
  by unfold_locales
    (simp_all add: two_level_ops_def tl_size_def size_pos k_pos tl_inv_shape
      Tabs_bound [unfolded tl_size_def] tl_clear_abs tl_setAll_ok [unfolded tl_size_def] tl_empty_ok
      tl_setBit_ok [unfolded tl_size_def] tl_clearBit_ok [unfolded tl_size_def]
      tl_getBit_ok [unfolded tl_size_def] tl_first_ok tl_setUnion_ok tl_setIntersection_ok
      tl_setDifference_ok tl_copyFrom_ok tl_intersectsWith_ok)

interpretation dd_bv: two_level "basic_ops :: 64 word bv_ops" "\<lambda>_. True" "\<lambda>_. True" basic_abs 1
  by unfold_locales simp

section \<open>The iterator implements its contract\<close>

text \<open>
  An iterator is either between rows (both inner iterators are exhausted) and the rows from
  \<open>it_i0\<close> on remain, or inside row \<open>it_i0\<close>: what remains is the rest of cell \<open>it_i1\<close>, the
  cells that the first inner iterator still holds, and the later rows.
\<close>

definition tl_it_active :: "('it \<Rightarrow> nat set) \<Rightarrow> ('bv, 'it) tl_iterator \<Rightarrow> bool" where
  "tl_it_active ia it \<longleftrightarrow> ia (it_1 it) \<noteq> {} \<or> ia (it_2 it) \<noteq> {}"

definition tl_it_inv :: "'bv bv_ops \<Rightarrow> ('bv \<Rightarrow> bool) \<Rightarrow> ('bv \<Rightarrow> bool) \<Rightarrow> ('bv \<Rightarrow> nat set) \<Rightarrow> nat \<Rightarrow>
    ('it \<Rightarrow> bool) \<Rightarrow> ('it \<Rightarrow> nat set) \<Rightarrow> ('bv, 'it) tl_iterator \<Rightarrow> bool" where
  "tl_it_inv ops shape ok \<alpha> k ii ia it \<longleftrightarrow>
     tl_inv ops shape ok \<alpha> k (it_bv it) \<and> ii (it_1 it) \<and> ii (it_2 it) \<and> it_i0 it \<le> k \<and>
     (tl_it_active ia it \<longrightarrow> it_i0 it < k \<and> ia (it_1 it) \<subseteq> \<alpha> (lev1 (it_bv it) ! it_i0 it)) \<and>
     ia (it_2 it) \<subseteq> tl_cell \<alpha> (it_bv it) (it_i0 it) (it_i1 it) \<and>
     (ia (it_2 it) \<noteq> {} \<longrightarrow> (\<forall>j\<in>ia (it_1 it). it_i1 it < j))"

definition tl_it_left :: "('bv \<Rightarrow> nat set) \<Rightarrow> ('it \<Rightarrow> nat set) \<Rightarrow> ('bv, 'it) tl_iterator \<Rightarrow>
    nat \<Rightarrow> nat \<Rightarrow> nat set" where
  "tl_it_left \<alpha> ia it i j =
     (if it_i0 it < i \<or> it_i0 it = i \<and> (j \<in> ia (it_1 it) \<or> \<not> tl_it_active ia it)
      then tl_cell \<alpha> (it_bv it) i j
      else if it_i0 it = i \<and> it_i1 it = j then ia (it_2 it) else {})"

definition tl_it_abs :: "'bv bv_ops \<Rightarrow> ('bv \<Rightarrow> nat set) \<Rightarrow> ('it \<Rightarrow> nat set) \<Rightarrow>
    ('bv, 'it) tl_iterator \<Rightarrow> nat set" where
  "tl_it_abs ops \<alpha> ia it = {x. x mod bv_size ops \<in>
     tl_it_left \<alpha> ia it (x div (bv_size ops * bv_size ops)) (x div bv_size ops mod bv_size ops)}"

locale two_level_iterator = two_level ops shape inv abs k +
  bv_clear_iterator ops shape inv abs its it_inv it_abs
  for ops :: "'bv bv_ops" and shape inv abs k and its :: "('bv, 'it) bv_it_ops" and it_inv it_abs
begin

abbreviation "Iinv \<equiv> tl_it_inv ops shape inv abs k it_inv it_abs"
abbreviation "left \<equiv> tl_it_left abs it_abs"
abbreviation "Iabs \<equiv> tl_it_abs ops abs it_abs"

lemma IinvD:
  assumes "Iinv it"
  shows "Tinv (it_bv it)" "it_inv (it_1 it)" "it_inv (it_2 it)" "it_i0 it \<le> k"
    "tl_it_active it_abs it \<Longrightarrow> it_i0 it < k"
    "tl_it_active it_abs it \<Longrightarrow> it_abs (it_1 it) \<subseteq> abs (lev1 (it_bv it) ! it_i0 it)"
    "it_abs (it_2 it) \<subseteq> cell (it_bv it) (it_i0 it) (it_i1 it)"
    "it_abs (it_2 it) \<noteq> {} \<Longrightarrow> j \<in> it_abs (it_1 it) \<Longrightarrow> it_i1 it < j"
  using assms by (auto simp: tl_it_inv_def)

lemma left_cell: "Iinv it \<Longrightarrow> left it i j \<subseteq> cell (it_bv it) i j"
  using IinvD(7) [of it] by (auto simp: tl_it_left_def)

lemma left_bound: "Iinv it \<Longrightarrow> l \<in> left it i j \<Longrightarrow> i < k \<and> j < sz \<and> l < sz"
  using left_cell cell_bound IinvD(1) by blast

lemma Iabs_enc: "j < sz \<Longrightarrow> l < sz \<Longrightarrow> tl_enc sz i j l \<in> Iabs it \<longleftrightarrow> l \<in> left it i j"
  by (simp add: tl_it_abs_def tl_enc_inverse)

lemma Iabs_cases:
  assumes "Iinv it" and "x \<in> Iabs it"
  obtains i j l where "x = tl_enc sz i j l" "i < k" "j < sz" "l < sz" "l \<in> left it i j"
proof -
  let ?i = "x div (sz * sz)" and ?j = "x div sz mod sz" and ?l = "x mod sz"
  have "x = tl_enc sz ?i ?j ?l" "?l \<in> left it ?i ?j"
    using assms(2) by (simp_all add: tl_enc_eta tl_it_abs_def)
  with left_bound [OF assms(1) this(2)] that show ?thesis
    by blast
qed

lemma Iabs_subset: "Iinv it \<Longrightarrow> Iabs it \<subseteq> Tabs (it_bv it)"
  using left_cell by (auto simp: tl_it_abs_def tl_abs_def)

lemma Iabs_empty_iff:
  assumes "Iinv it"
  shows "Iabs it = {} \<longleftrightarrow> (\<forall>i j. left it i j = {})"
proof
  assume e: "Iabs it = {}"
  show "\<forall>i j. left it i j = {}"
  proof (intro allI equals0I)
    fix i j l assume "l \<in> left it i j"
    then show False
      using left_bound [OF assms] Iabs_enc [of j l i it] e by blast
  qed
qed (auto simp: tl_it_abs_def)

lemma it_new_two_level:
  assumes "Tinv bv"
  shows "Iinv (tl_it_new its bv) \<and> Iabs (tl_it_new its bv) = Tabs bv"
  using assms it_cleared_ok
  by (auto simp: tl_it_inv_def tl_it_new_def tl_it_active_def tl_it_abs_def tl_abs_def tl_it_left_def)

lemma it_hasNext_two_level:
  assumes "Iinv it"
  shows "tl_it_hasNext ops its k it \<longleftrightarrow> Iabs it \<noteq> {}"
proof -
  note I = IinvD [OF assms] and D = TinvD [OF IinvD(1) [OF assms]]
  have has: "tl_it_hasNext ops its k it \<longleftrightarrow>
      it_abs (it_1 it) \<noteq> {} \<or> (\<exists>i. it_i0 it \<le> i \<and> i < k \<and> abs (lev1 (it_bv it) ! i) \<noteq> {})"
    using I(2) it_hasNext_ok D(3) empty_ok by (auto simp: tl_it_hasNext_def list_ex_iff)
  have ne: "cell (it_bv it) i j \<noteq> {} \<longleftrightarrow> i < k \<and> j \<in> abs (lev1 (it_bv it) ! i)" for i j
    using cell_empty_iff [OF I(1)] cell_bound [OF I(1)] by blast
  show ?thesis
  proof (cases "tl_it_active it_abs it")
    case False
    then have "left it i j \<noteq> {} \<longleftrightarrow> it_i0 it \<le> i \<and> cell (it_bv it) i j \<noteq> {}" for i j
      by (auto simp: tl_it_left_def tl_it_active_def)
    then show ?thesis
      unfolding has using False ne by (auto simp: Iabs_empty_iff [OF assms] tl_it_active_def)
  next
    case True
    have "\<exists>i j. left it i j \<noteq> {}"
    proof (cases "it_abs (it_2 it) = {}")
      case True
      then obtain j where "j \<in> it_abs (it_1 it)"
        using \<open>tl_it_active it_abs it\<close> by (auto simp: tl_it_active_def)
      then have "left it (it_i0 it) j \<noteq> {}"
        using I(5,6) \<open>tl_it_active it_abs it\<close> ne by (auto simp: tl_it_left_def)
      then show ?thesis by blast
    next
      case False
      then have "left it (it_i0 it) (it_i1 it) \<noteq> {}"
        using I(7) by (auto simp: tl_it_left_def)
      then show ?thesis by blast
    qed
    moreover have "tl_it_hasNext ops its k it"
    proof (cases "it_abs (it_1 it) = {}")
      case True
      then have "cell (it_bv it) (it_i0 it) (it_i1 it) \<noteq> {}"
        using I(7) \<open>tl_it_active it_abs it\<close> by (auto simp: tl_it_active_def)
      then show ?thesis
        unfolding has ne by blast
    qed (simp add: has)
    ultimately show ?thesis
      by (simp add: Iabs_empty_iff [OF assms])
  qed
qed

lemma tl_it_row_dropWhile:
  assumes "Tinv (it_bv it)" and "\<forall>i\<in>set is. i < k"
  shows "tl_it_row ops its k is it =
    tl_it_row ops its k (dropWhile (\<lambda>i. abs (lev1 (it_bv it) ! i) = {}) is) it"
  using assms(2) TinvD [OF assms(1)] empty_ok by (induction "is") auto

text \<open>The three steps of \<^verbatim>\<open>next\<close>: find a row, open a cell, take a bit.\<close>

lemma next_row:
  assumes "Iinv it" and "\<not> tl_it_active it_abs it" and "Iabs it \<noteq> {}"
  shows "it_i0 it < k" and "\<exists>it'. tl_it_row ops its k [it_i0 it..<k] it = Some it' \<and> Iinv it' \<and>
    it_abs (it_1 it') \<noteq> {} \<and> it_abs (it_2 it') = {} \<and> left it' = left it"
proof -
  note I = IinvD [OF assms(1)] and D = TinvD [OF IinvD(1) [OF assms(1)]]
  let ?P = "\<lambda>i. abs (lev1 (it_bv it) ! i) = {}"
  obtain i where i: "it_i0 it \<le> i" "i \<le> k" "dropWhile ?P [it_i0 it..<k] = [i..<k]"
    "\<And>i'. it_i0 it \<le> i' \<Longrightarrow> i' < i \<Longrightarrow> ?P i'" "i < k \<longrightarrow> \<not> ?P i"
    using dropWhile_upt [OF I(4), of ?P] by auto
  obtain i' j' where ij: "left it i' j' \<noteq> {}"
    using assms(3) Iabs_empty_iff [OF assms(1)] by blast
  then have "it_i0 it \<le> i'" "cell (it_bv it) i' j' \<noteq> {}"
    using assms(2) by (auto simp: tl_it_left_def tl_it_active_def split: if_splits)
  then have ik: "i < k" "it_i0 it < k"
    using i(1,2) i(4) [of i'] cell_out [of j' "it_bv it" i'] cell_bound [OF I(1)] by fastforce+
  then show "it_i0 it < k" by simp
  define it' where "it' = it\<lparr>it_i0 := i, it_1 := it_new its (lev1 (it_bv it) ! i)\<rparr>"
  note new = it_new_ok [OF D(3) [OF ik(1)]]
  have row: "tl_it_row ops its k [it_i0 it..<k] it = Some it'"
    using tl_it_row_dropWhile [OF I(1), of "[it_i0 it..<k]"] i ik D(1) D(3) [OF ik(1)]
    by (simp add: upt_conv_Cons it'_def empty_ok)
  have e2: "it_abs (it_2 it) = {}"
    using assms(2) by (simp add: tl_it_active_def)
  have act: "it_abs (it_1 it') \<noteq> {}" "it_abs (it_2 it') = {}"
    using new i(5) ik e2 by (simp_all add: it'_def)
  moreover have "Iinv it'"
    using I new act ik e2 by (simp add: tl_it_inv_def it'_def)
  moreover have "left it' i1 j1 = left it i1 j1" for i1 j1
  proof -
    have "cell (it_bv it) i1 j1 = {}" if "it_i0 it \<le> i1" "i1 < i"
      using i(4) [OF that] by (intro cell_out) simp
    moreover have "cell (it_bv it) i j1 = {}" if "j1 \<notin> abs (lev1 (it_bv it) ! i)"
      using that by (rule cell_out)
    ultimately show ?thesis
      using assms(2) act new i(1) e2
      by (cases i1 i rule: linorder_cases) (auto simp: tl_it_left_def tl_it_active_def it'_def)
  qed
  ultimately show "\<exists>it'. tl_it_row ops its k [it_i0 it..<k] it = Some it' \<and> Iinv it' \<and>
    it_abs (it_1 it') \<noteq> {} \<and> it_abs (it_2 it') = {} \<and> left it' = left it"
    using row by (auto simp: fun_eq_iff)
qed

lemma next_cell:
  assumes "Iinv it" and "it_abs (it_1 it) \<noteq> {}" and "it_abs (it_2 it) = {}"
  shows "\<exists>it'. tl_it_open its it = Some it' \<and>
    Iinv it' \<and> it_abs (it_2 it') \<noteq> {} \<and> left it' = left it"
proof -
  note I = IinvD [OF assms(1)] and D = TinvD [OF IinvD(1) [OF assms(1)]]
  have act: "tl_it_active it_abs it"
    using assms(2) by (simp add: tl_it_active_def)
  define j where "j = Min (it_abs (it_1 it))"
  obtain it1 where it1: "it_next its (it_1 it) = Some (it1, j)" "it_inv it1"
    "it_abs it1 = it_abs (it_1 it) - {j}"
    using it_next_ok [OF I(2) assms(2)] by (auto simp: j_def)
  have j: "j \<in> it_abs (it_1 it)" and min: "\<And>j'. j' \<in> it_abs (it_1 it) \<Longrightarrow> j \<le> j'"
    using finite_it_abs [OF I(2)] assms(2) by (auto simp: j_def)
  then have j1: "j \<in> abs (lev1 (it_bv it) ! it_i0 it)" "j < sz"
    using I(6) [OF act] abs_less [OF D(3) [OF I(5) [OF act]]] by auto
  define it' where "it' = it\<lparr>it_1 := it1, it_i1 := j, it_2 := it_new its (lev2 (it_bv it) ! it_i0 it ! j)\<rparr>"
  note D6 = D(6) [OF I(5) [OF act] j1(1)] and c = cell_in [OF I(1) I(5) [OF act] j1(1)]
  have new: "it_inv (it_2 it')" "it_abs (it_2 it') = cell (it_bv it) (it_i0 it) j"
    using it_new_ok D6 c by (auto simp: it'_def)
  have ne: "it_abs (it_2 it') \<noteq> {}"
    using new(2) D6 c by simp
  have later: "\<forall>j'\<in>it_abs it1. j < j'"
    using min it1(3) by (auto simp: le_neq_implies_less)
  have "it_abs it1 \<subseteq> abs (lev1 (it_bv it) ! it_i0 it)"
    using I(6) [OF act] it1(3) by blast
  then have "Iinv it'"
    using I(1,4) I(5) [OF act] it1(2) new later by (simp add: tl_it_inv_def it'_def)
  moreover have "left it' i' j' = left it i' j'" for i' j'
    using ne new(2) it1(3) j act assms(3)
    by (cases "j' = j"; cases "i' = it_i0 it") (simp_all add: tl_it_left_def tl_it_active_def it'_def)
  moreover have "it_hasNext its (it_1 it)"
    using it_hasNext_ok [OF I(2)] assms(2) by simp
  ultimately show ?thesis
    using it1(1) D(2) D(4) [OF I(5) [OF act]] I(5) [OF act] j1(2) ne
    by (simp add: tl_it_open_def it'_def fun_eq_iff)
qed

lemma left_first:
  assumes "Iinv it" and "it_abs (it_2 it) \<noteq> {}"
  defines "l \<equiv> Min (it_abs (it_2 it))"
  shows "l \<in> left it (it_i0 it) (it_i1 it)"
    and "Min (Iabs it) = tl_enc sz (it_i0 it) (it_i1 it) l"
proof -
  note I = IinvD [OF assms(1)]
  have act: "tl_it_active it_abs it"
    using assms(2) by (simp add: tl_it_active_def)
  have l: "l \<in> it_abs (it_2 it)" "\<And>l'. l' \<in> it_abs (it_2 it) \<Longrightarrow> l \<le> l'"
    using finite_it_abs [OF I(3)] assms(2) by (auto simp: l_def)
  show ll: "l \<in> left it (it_i0 it) (it_i1 it)"
    using l(1) I(7) by (auto simp: tl_it_left_def)
  note b = left_bound [OF assms(1) ll]
  show "Min (Iabs it) = tl_enc sz (it_i0 it) (it_i1 it) l"
  proof (rule Min_eqI)
    show "finite (Iabs it)"
      using Iabs_subset [OF assms(1)] tl.finite_abs [OF I(1)] by (rule finite_subset)
    show "tl_enc sz (it_i0 it) (it_i1 it) l \<in> Iabs it"
      using b ll Iabs_enc by simp
  next
    fix y assume "y \<in> Iabs it"
    then obtain i' j' l' where y: "y = tl_enc sz i' j' l'" and l': "l' \<in> left it i' j'"
      using Iabs_cases [OF assms(1)] by metis
    have "it_i0 it < i' \<or> it_i0 it = i' \<and> (it_i1 it < j' \<or> it_i1 it = j' \<and> l \<le> l')"
      using l' act l(2) I(8) [OF assms(2)] by (auto simp: tl_it_left_def split: if_splits)
    then show "tl_enc sz (it_i0 it) (it_i1 it) l \<le> y"
      unfolding y using b by (intro tl_enc_mono) auto
  qed
qed

lemma Iabs_remove:
  assumes "\<And>i' j'. left it' i' j' = left it i' j' - (if i' = i \<and> j' = j then {l} else {})"
    and "j < sz" "l < sz"
  shows "Iabs it' = Iabs it - {tl_enc sz i j l}"
proof (rule set_eqI)
  show "x \<in> Iabs it' \<longleftrightarrow> x \<in> Iabs it - {tl_enc sz i j l}" for x
    using assms(1) tl_enc_inverse [OF assms(2,3), of i] idx_eq_iff [of x "tl_enc sz i j l"]
    by (auto simp: tl_it_abs_def)
qed

lemma next_bit:
  assumes "Iinv it" and "it_abs (it_2 it) \<noteq> {}"
  shows "\<exists>it'. tl_it_take ops its it = Some (it', Min (Iabs it)) \<and>
    Iinv it' \<and> Iabs it' = Iabs it - {Min (Iabs it)}"
proof -
  note I = IinvD [OF assms(1)]
  have act: "tl_it_active it_abs it"
    using assms(2) by (simp add: tl_it_active_def)
  define l where "l = Min (it_abs (it_2 it))"
  note F = left_first [OF assms, folded l_def]
  note b = left_bound [OF assms(1) F(1)]
  obtain it2 where it2: "it_next its (it_2 it) = Some (it2, l)" "it_inv it2"
    "it_abs it2 = it_abs (it_2 it) - {l}"
    using it_next_ok [OF I(3) assms(2)] by (auto simp: l_def)
  have has: "it_hasNext its (it_2 it)" "it_hasNext its it2 \<longleftrightarrow> it_abs it2 \<noteq> {}"
    "it_hasNext its (it_1 it) \<longleftrightarrow> it_abs (it_1 it) \<noteq> {}"
    using it_hasNext_ok I(2,3) it2(2) assms(2) by auto
  have i1: "it_i1 it \<notin> it_abs (it_1 it)"
    using I(8) [OF assms(2)] by blast
  define it' where "it' = (if it_abs (it_1 it) = {} \<and> it_abs it2 = {}
    then it\<lparr>it_2 := it2, it_i0 := it_i0 it + 1\<rparr> else it\<lparr>it_2 := it2\<rparr>)"
  have sub: "it_abs it2 \<subseteq> cell (it_bv it) (it_i0 it) (it_i1 it)"
    using it2(3) I(7) by blast
  have inv': "Iinv it'"
  proof (cases "it_abs (it_1 it) = {} \<and> it_abs it2 = {}")
    case True
    then show ?thesis
      using I(1,2) it2(2) I(5) [OF act] by (simp add: tl_it_inv_def it'_def tl_it_active_def)
  next
    case False
    then have "it' = it\<lparr>it_2 := it2\<rparr>"
      by (auto simp: it'_def)
    then show ?thesis
      using I(1,2,4) it2(2) I(5,6) [OF act] I(8) [OF assms(2)] sub by (simp add: tl_it_inv_def)
  qed
  have "left it' i' j' = left it i' j' - (if i' = it_i0 it \<and> j' = it_i1 it then {l} else {})" for i' j'
  proof (cases "it_abs (it_1 it) = {} \<and> it_abs it2 = {}")
    case True
    then have "it' = it\<lparr>it_2 := it2, it_i0 := it_i0 it + 1\<rparr>"
      by (simp add: it'_def)
    then show ?thesis
      using act True it2(3) by (cases i' "it_i0 it" rule: linorder_cases) (auto simp: tl_it_left_def tl_it_active_def)
  next
    case False
    then have "it' = it\<lparr>it_2 := it2\<rparr>" "tl_it_active it_abs (it\<lparr>it_2 := it2\<rparr>)"
      by (auto simp: it'_def tl_it_active_def)
    then show ?thesis
      using act i1 it2(3) by (simp add: tl_it_left_def)
  qed
  then have "Iabs it' = Iabs it - {Min (Iabs it)}"
    unfolding F(2) using b by (intro Iabs_remove) simp_all
  moreover have "tl_it_take ops its it = Some (it', Min (Iabs it))"
    by (simp add: tl_it_take_def has it2(1) F(2) it'_def tl_enc_def Let_def)
  ultimately show ?thesis
    using inv' by blast
qed

lemma it_next_two_level:
  assumes "Iinv it" and "Iabs it \<noteq> {}"
  shows "\<exists>it'. tl_it_next ops its k it = Some (it', Min (Iabs it)) \<and> Iinv it' \<and>
    Iabs it' = Iabs it - {Min (Iabs it)}"
proof -
  have has: "it_hasNext its (it_1 it) \<longleftrightarrow> it_abs (it_1 it) \<noteq> {}"
    "it_hasNext its (it_2 it) \<longleftrightarrow> it_abs (it_2 it) \<noteq> {}" if "Iinv it" for it
    using it_hasNext_ok IinvD(2,3) [OF that] by auto
  have "\<exists>it1. (if \<not> it_hasNext its (it_1 it) \<and> \<not> it_hasNext its (it_2 it) \<and> it_i0 it < k
      then tl_it_row ops its k [it_i0 it..<k] it else Some it) = Some it1 \<and> Iinv it1 \<and>
    tl_it_active it_abs it1 \<and> left it1 = left it"
    using next_row [OF assms(1) _ assms(2)] has [OF assms(1)] assms(1)
    by (cases "tl_it_active it_abs it") (auto simp: tl_it_active_def)
  then obtain it1 where it1: "(if \<not> it_hasNext its (it_1 it) \<and> \<not> it_hasNext its (it_2 it) \<and>
      it_i0 it < k then tl_it_row ops its k [it_i0 it..<k] it else Some it) = Some it1" "Iinv it1"
    "tl_it_active it_abs it1" "left it1 = left it"
    by blast
  have "\<exists>it2. (if \<not> it_hasNext its (it_2 it1) then tl_it_open its it1 else Some it1) = Some it2 \<and>
    Iinv it2 \<and> it_abs (it_2 it2) \<noteq> {} \<and> left it2 = left it"
    using next_cell [OF it1(2)] it1(2-4) has [OF it1(2)]
    by (cases "it_abs (it_2 it1) = {}") (simp_all add: tl_it_active_def)
  then obtain it2 where it2: "(if \<not> it_hasNext its (it_2 it1) then tl_it_open its it1 else Some it1) =
      Some it2" "Iinv it2" "it_abs (it_2 it2) \<noteq> {}" "left it2 = left it"
    by blast
  then have "Iabs it2 = Iabs it"
    by (simp add: tl_it_abs_def)
  moreover have "tl_it_next ops its k it = tl_it_take ops its it2"
    unfolding tl_it_next_def it1(1) bind.bind_lunit it2(1) ..
  ultimately show ?thesis
    using next_bit [OF it2(2,3)] by simp
qed

end

sublocale two_level_iterator \<subseteq> tl_it: bv_iterator "two_level_ops ops k" "tl_shape ops shape k"
  "tl_inv ops shape inv abs k" "tl_abs ops abs" "tl_it_ops ops its k"
  "tl_it_inv ops shape inv abs k it_inv it_abs" "tl_it_abs ops abs it_abs"
proof (unfold_locales, goal_cases)
  case (2 it)
  then show ?case
    using Iabs_subset Tabs_bound IinvD(1) by (fastforce simp: two_level_ops_def)
qed (simp_all add: tl_it_ops_def it_new_two_level it_hasNext_two_level it_next_two_level)

interpretation dd_bv_it: two_level_iterator "basic_ops :: 64 word bv_ops" "\<lambda>_. True" "\<lambda>_. True"
  basic_abs 1 basic_it_ops "\<lambda>_. True" basic_abs
  by unfold_locales

section \<open>TwoLevelBitVector over BasicBitVector\<close>

abbreviation tlb_inv :: "nat \<Rightarrow> 'a::len word two_level \<Rightarrow> bool" where
  "tlb_inv k \<equiv> tl_inv basic_ops (\<lambda>_. True) (\<lambda>_. True) basic_abs k"

abbreviation tlb_abs :: "'a::len word two_level \<Rightarrow> nat set" where
  "tlb_abs \<equiv> tl_abs basic_ops basic_abs"

lemma two_level_basic:
  "0 < k \<Longrightarrow> two_level (basic_ops :: 'a::len word bv_ops) (\<lambda>_. True) (\<lambda>_. True) basic_abs k"
  by unfold_locales

lemma Diff_triv_iff: "A - B = A \<longleftrightarrow> A \<inter> B = {}"
  by blast

lemma two_level_iterator_basic:
  "0 < k \<Longrightarrow> two_level_iterator (basic_ops :: 'a::len word bv_ops) (\<lambda>_. True) (\<lambda>_. True) basic_abs k
     basic_it_ops (\<lambda>_. True) basic_abs"
  by unfold_locales

text \<open>C16: For every \<^verbatim>\<open>kLevel1Size\<close> and every integer type, the binary operations of
  \<^verbatim>\<open>TwoLevelBitVector\<close> on well-formed vectors succeed, keep the vector well-formed and are the
  set operations: \<^verbatim>\<open>setUnion\<close>, \<^verbatim>\<open>setIntersection\<close> and \<^verbatim>\<open>setDifference\<close> compute union,
  intersection and difference and return whether the set changed, \<^verbatim>\<open>intersectsWith\<close> tells whether
  the sets meet, and \<^verbatim>\<open>copyFrom\<close> makes any object of the class, initialised or not, a copy.
\<close>

theorem two_level_set_operations:
  fixes bv w u :: "'a::len word two_level"
  assumes "0 < k" and "tlb_inv k bv" and "tlb_inv k w" and "tl_shape basic_ops (\<lambda>_. True) k u"
  shows "(\<exists>r. tl_setUnion basic_ops k bv w = Some (r, tlb_abs r \<noteq> tlb_abs bv) \<and> tlb_inv k r \<and>
      tlb_abs r = tlb_abs bv \<union> tlb_abs w) \<and>
    (\<exists>r. tl_setIntersection basic_ops k bv w = Some (r, tlb_abs r \<noteq> tlb_abs bv) \<and> tlb_inv k r \<and>
      tlb_abs r = tlb_abs bv \<inter> tlb_abs w) \<and>
    (\<exists>r. tl_setDifference basic_ops k bv w = Some (r, tlb_abs r \<noteq> tlb_abs bv) \<and> tlb_inv k r \<and>
      tlb_abs r = tlb_abs bv - tlb_abs w) \<and>
    tl_intersectsWith basic_ops k bv w = Some (tlb_abs bv \<inter> tlb_abs w \<noteq> {}) \<and>
    (\<exists>r. tl_copyFrom basic_ops k u w = Some r \<and> tlb_inv k r \<and> tlb_abs r = tlb_abs w)"
proof -
  note L = two_level_basic [OF assms(1), where 'a = 'a]
  obtain r1 where "tl_setUnion basic_ops k bv w = Some (r1, \<not> tlb_abs w \<subseteq> tlb_abs bv)"
    "tlb_inv k r1" "tlb_abs r1 = tlb_abs bv \<union> tlb_abs w"
    using two_level.tl_setUnion_ok [OF L assms(2,3)] by blast
  moreover obtain r2 where "tl_setIntersection basic_ops k bv w = Some (r2, \<not> tlb_abs bv \<subseteq> tlb_abs w)"
    "tlb_inv k r2" "tlb_abs r2 = tlb_abs bv \<inter> tlb_abs w"
    using two_level.tl_setIntersection_ok [OF L assms(2,3)] by blast
  moreover obtain r3 where "tl_setDifference basic_ops k bv w = Some (r3, tlb_abs bv \<inter> tlb_abs w \<noteq> {})"
    "tlb_inv k r3" "tlb_abs r3 = tlb_abs bv - tlb_abs w"
    using two_level.tl_setDifference_ok [OF L assms(2,3)] by blast
  ultimately show ?thesis
    using two_level.tl_intersectsWith_ok [OF L assms(2,3)] two_level.tl_copyFrom_ok [OF L assms(4,3)]
    by (simp add: Un_commute [of "tlb_abs bv"] subset_Un_eq [symmetric] inf.absorb_iff1 [symmetric]
        Diff_triv_iff)
qed

text \<open>Two vectors on 2-bit integers: \<open>{1}\<close> and \<open>{1, 2}\<close>; where the first level is clear, garbage.\<close>

definition two_level_ex1 :: "2 word two_level" where
  "two_level_ex1 = \<lparr> lev1 = [1], lev2 = [[2, 3]] \<rparr>"

definition two_level_ex2 :: "2 word two_level" where
  "two_level_ex2 = \<lparr> lev1 = [3], lev2 = [[2, 1]] \<rparr>"

lemma less_2_cases_iff': "(n :: nat) < 2 \<longleftrightarrow> n = 0 \<or> n = 1"
  by auto

lemma basic_abs_2:
  "basic_abs (0 :: 2 word) = {}" "basic_abs (1 :: 2 word) = {0}" "basic_abs (2 :: 2 word) = {1}"
  "basic_abs (3 :: 2 word) = {0, 1}"
proof -
  have "basic_abs w = {i. i \<in> {0, 1} \<and> bit w i}" for w :: "2 word"
    using bit_imp_le_length [of w] by (auto simp: basic_abs_def less_2_cases_iff')
  then show "basic_abs (0 :: 2 word) = {}" "basic_abs (1 :: 2 word) = {0}" "basic_abs (2 :: 2 word) = {1}"
    "basic_abs (3 :: 2 word) = {0, 1}"
    by auto
qed

lemma two_level_ex_inv:
  "tlb_inv 1 two_level_ex1" "tlb_inv 1 two_level_ex2" "tl_shape basic_ops (\<lambda>_. True) 1 two_level_ex1"
  by (simp_all add: two_level_ex1_def two_level_ex2_def tl_inv_def tl_shape_def basic_abs_2 basic_ops_def)

theorem two_level_set_operations_witness:
  "\<exists>r. tl_setUnion basic_ops 1 two_level_ex1 two_level_ex2 = Some (r, tlb_abs r \<noteq> tlb_abs two_level_ex1) \<and>
     tlb_abs r = tlb_abs two_level_ex1 \<union> tlb_abs two_level_ex2"
  using two_level_set_operations [OF _ two_level_ex_inv] by auto

text \<open>C17: The single-bit operations of \<^verbatim>\<open>TwoLevelBitVector\<close> for an index below the size: a set, a
  cleared and a tested bit are insertion, removal and membership, and the results tell whether the
  bit changed; \<^verbatim>\<open>getAndClearFirstOne\<close> of a non-empty vector removes and returns the least
  element; \<^verbatim>\<open>empty\<close> is emptiness; \<^verbatim>\<open>clear\<close> and \<^verbatim>\<open>setAll\<close> initialise any object.
\<close>

theorem two_level_bit_operations:
  fixes bv u :: "'a::len word two_level"
  assumes "0 < k" and "tlb_inv k bv" and "idx < tl_size (basic_ops :: 'a word bv_ops) k"
    and "tl_shape basic_ops (\<lambda>_. True) k u"
  shows "(\<exists>r. tl_setBit basic_ops k bv idx = Some (r, idx \<notin> tlb_abs bv) \<and> tlb_inv k r \<and>
      tlb_abs r = insert idx (tlb_abs bv)) \<and>
    (\<exists>r. tl_clearBit basic_ops k bv idx = Some (r, idx \<in> tlb_abs bv) \<and> tlb_inv k r \<and>
      tlb_abs r = tlb_abs bv - {idx}) \<and>
    tl_getBit basic_ops k bv idx = Some (idx \<in> tlb_abs bv) \<and>
    (tlb_abs bv \<noteq> {} \<longrightarrow> (\<exists>r. tl_getAndClearFirstOne basic_ops k bv = Some (r, Min (tlb_abs bv)) \<and>
      tlb_inv k r \<and> tlb_abs r = tlb_abs bv - {Min (tlb_abs bv)})) \<and>
    (tl_empty basic_ops bv \<longleftrightarrow> tlb_abs bv = {}) \<and>
    tlb_inv k (tl_clear basic_ops u) \<and> tlb_abs (tl_clear basic_ops u) = {} \<and>
    (\<exists>r. tl_setAll basic_ops k u = Some r \<and> tlb_inv k r \<and>
      tlb_abs r = {..<tl_size (basic_ops :: 'a word bv_ops) k})"
proof -
  note L = two_level_basic [OF assms(1), where 'a = 'a]
  show ?thesis
    using two_level.tl_setBit_ok [OF L assms(2,3)] two_level.tl_clearBit_ok [OF L assms(2,3)]
      two_level.tl_getBit_ok [OF L assms(2,3)] two_level.tl_first_ok [OF L assms(2)]
      two_level.tl_empty_ok [OF L assms(2)] two_level.tl_clear_abs [OF L assms(4)]
      two_level.tl_setAll_ok [OF L assms(4)]
    by (intro conjI impI) blast+
qed

theorem two_level_bit_operations_witness:
  "\<exists>r. tl_setBit basic_ops 1 two_level_ex1 3 = Some (r, 3 \<notin> tlb_abs two_level_ex1) \<and>
     tlb_abs r = insert 3 (tlb_abs two_level_ex1)"
  using two_level_bit_operations [OF _ two_level_ex_inv(1) _ two_level_ex_inv(3), of 3]
  by (auto simp: tl_size_def basic_ops_def)

text \<open>
  The loop that the header documents for an iterator,
  \<^verbatim>\<open>for (TwoLevelBitVector<>::Iterator it(bv); it.hasNext();) use(it.next());\<close>, with the
  indices collected.
\<close>

partial_function (option) it_collect :: "('bv, 'it) bv_it_ops \<Rightarrow> 'it \<Rightarrow> nat list option" where
  "it_collect its it =
     (if \<not> it_hasNext its it then Some []
      else do { (it, idx) \<leftarrow> it_next its it; idxs \<leftarrow> it_collect its it; Some (idx # idxs) })"

context bv_iterator
begin

lemma it_collect_ok: "it_inv it \<Longrightarrow> it_collect its it = Some (sorted_list_of_set (it_abs it))"
proof (induction "card (it_abs it)" arbitrary: it)
  case 0
  then have "it_abs it = {}"
    using finite_it_abs by simp
  with 0 show ?case
    by (subst it_collect.simps) (simp add: it_hasNext_ok)
next
  case (Suc n)
  then have ne: "it_abs it \<noteq> {}"
    by auto
  obtain it' where it': "it_next its it = Some (it', Min (it_abs it))" "it_inv it'"
    "it_abs it' = it_abs it - {Min (it_abs it)}"
    using it_next_ok [OF Suc.prems ne] by blast
  have "it_collect its it' = Some (sorted_list_of_set (it_abs it'))"
    using Suc.hyps it' ne finite_it_abs [OF Suc.prems] by simp
  then show ?case
    using sorted_list_of_set_nonempty [OF finite_it_abs [OF Suc.prems] ne] it' ne Suc.prems
    by (subst it_collect.simps) (simp add: it_hasNext_ok)
qed

end

context two_level_iterator
begin

lemma tl_collect:
  "Tinv bv \<Longrightarrow> it_collect (tl_it_ops ops its k) (tl_it_new its bv) = Some (sorted_list_of_set (Tabs bv))"
  using it_new_two_level [of bv] tl_it.it_collect_ok [of "tl_it_new its bv"] by simp

end

text \<open>C18: Iterating over a well-formed \<^verbatim>\<open>TwoLevelBitVector\<close> ends and yields every index of the
  vector exactly once, in increasing order.
\<close>

theorem two_level_iteration:
  fixes bv :: "'a::len word two_level"
  assumes "0 < k" and "tlb_inv k bv"
  shows "it_collect (tl_it_ops basic_ops basic_it_ops k) (tl_it_new basic_it_ops bv) =
    Some (sorted_list_of_set (tlb_abs bv))"
  by (rule two_level_iterator.tl_collect [OF two_level_iterator_basic [OF assms(1)] assms(2)])

theorem two_level_iteration_witness:
  "it_collect (tl_it_ops basic_ops basic_it_ops 1) (tl_it_new basic_it_ops two_level_ex2) =
    Some (sorted_list_of_set (tlb_abs two_level_ex2))"
  using two_level_iteration [OF _ two_level_ex_inv(2)] by simp

text \<open>C21: The bounds check of \<^verbatim>\<open>TwoLevelBitVector\<close> lets the index \<^verbatim>\<open>size()\<close> pass; with it
  \<^verbatim>\<open>setBit\<close>, \<^verbatim>\<open>clearBit\<close> and \<^verbatim>\<open>getBit\<close> go on to read \<^verbatim>\<open>l1_[kLevel1Size]\<close>, one element
  past the end of the array.
\<close>

theorem two_level_check_admits_size:
  fixes bv :: "'a::len word two_level"
  assumes "tlb_inv k bv"
  defines "idx \<equiv> tl_size (basic_ops :: 'a word bv_ops) k"
  shows "tl_check (basic_ops :: 'a word bv_ops) k idx = Some () \<and>
    tl_idx0 (basic_ops :: 'a word bv_ops) k idx = Some (length (lev1 bv)) \<and>
    tl_setBit basic_ops k bv idx = None \<and> tl_clearBit basic_ops k bv idx = None \<and>
    tl_getBit basic_ops k bv idx = None"
proof -
  have k: "length (lev1 bv) = k"
    using assms(1) by (simp add: tl_inv_def tl_shape_def)
  have "idx div (LENGTH('a) * LENGTH('a)) = k"
    by (simp add: idx_def tl_size_def basic_ops_def)
  then have i0: "tl_idx0 (basic_ops :: 'a word bv_ops) k idx = Some (length (lev1 bv))"
    by (simp add: tl_idx0_def basic_ops_def check_def k)
  have "tl_check (basic_ops :: 'a word bv_ops) k idx = Some ()"
    by (simp add: tl_check_def check_def idx_def)
  with i0 show ?thesis
    by (simp add: tl_setBit_def tl_clearBit_def tl_getBit_def Option.bind_eq_None_conv)
qed

theorem two_level_check_admits_size_witness:
  "tl_check (basic_ops :: 2 word bv_ops) 1 4 = Some () \<and> tl_getBit basic_ops 1 two_level_ex1 4 = None"
  using two_level_check_admits_size [OF two_level_ex_inv(1)] by (simp add: tl_size_def basic_ops_def)

end
