(* ===== verification/BV_Graph.thy ===== *)
theory BV_Graph
  imports Two_Level_BV
begin

text \<open>
  \<^verbatim>\<open>BVGraph\<close> of \<^verbatim>\<open>sanitizer_bvgraph.h\<close>: a directed graph on \<^verbatim>\<open>BV::kSize\<close> nodes, one bit
  vector of successors per node and two scratch vectors.  The methods are written over the
  method records of \<^verbatim>\<open>BV\<close> and \<^verbatim>\<open>BV::Iterator\<close>; arrays that the caller passes
  (\<^verbatim>\<open>added_edges\<close>, \<^verbatim>\<open>path\<close>) are lists, and a pointer into \<^verbatim>\<open>path\<close> is the list with
  an offset.

  The locale \<open>bv_graph\<close> proves, for every bit vector that meets its contract, that each method
  is the operation on the set of edges that its comment names, that \<^verbatim>\<open>isReachable\<close> ends
  and decides reachability, and that \<^verbatim>\<open>findPath\<close> and \<^verbatim>\<open>findShortestPath\<close> find a
  (shortest) path whenever there is one that fits.
\<close>

section \<open>The class\<close>

record 'bv bvgraph =
  gr_v :: "'bv list"
  gr_t1 :: 'bv
  gr_t2 :: 'bv

definition graph_clear :: "'bv bv_ops \<Rightarrow> 'bv bvgraph \<Rightarrow> 'bv bvgraph" where
  "graph_clear ops g = g\<lparr>gr_v := map (bv_clear ops) (gr_v g)\<rparr>"

definition graph_empty :: "'bv bv_ops \<Rightarrow> 'bv bvgraph \<Rightarrow> bool" where
  "graph_empty ops g = list_all (bv_empty ops) (gr_v g)"

definition graph_check :: "'bv bv_ops \<Rightarrow> nat \<Rightarrow> nat \<Rightarrow> unit option" where
  "graph_check ops idx1 idx2 = do { check (idx1 < bv_size ops); check (idx2 < bv_size ops) }"

definition addEdge :: "'bv bv_ops \<Rightarrow> 'bv bvgraph \<Rightarrow> nat \<Rightarrow> nat \<Rightarrow> ('bv bvgraph \<times> bool) option" where
  "addEdge ops g from to = do {
     graph_check ops from to;
     bv \<leftarrow> arr_get (gr_v g) from;
     (bv, res) \<leftarrow> bv_setBit ops bv to;
     v \<leftarrow> arr_set (gr_v g) from bv;
     Some (g\<lparr>gr_v := v\<rparr>, res) }"

definition addEdges_step :: "'bv bv_ops \<Rightarrow> nat \<Rightarrow> nat \<Rightarrow> nat \<Rightarrow>
    'bv list \<times> nat list \<times> nat \<Rightarrow> ('bv list \<times> nat list \<times> nat) option" where
  "addEdges_step ops to max_added_edges node = (\<lambda>(v, added_edges, res). do {
     bv \<leftarrow> arr_get v node;
     (bv, new) \<leftarrow> bv_setBit ops bv to;
     v \<leftarrow> arr_set v node bv;
     if new \<and> res < max_added_edges then do {
       added_edges \<leftarrow> arr_set added_edges res node;
       Some (v, added_edges, res + 1) }
     else Some (v, added_edges, res) })"

definition addEdges :: "'bv bv_ops \<Rightarrow> 'bv bvgraph \<Rightarrow> 'bv \<Rightarrow> nat \<Rightarrow> nat list \<Rightarrow> nat \<Rightarrow>
    ('bv bvgraph \<times> nat list \<times> nat) option" where
  "addEdges ops g from to added_edges max_added_edges = do {
     t1 \<leftarrow> bv_copyFrom ops (gr_t1 g) from;
     (t1, v, added_edges, res) \<leftarrow>
       bv_drain ops (addEdges_step ops to max_added_edges) t1 (gr_v g, added_edges, 0);
     Some (g\<lparr>gr_v := v, gr_t1 := t1\<rparr>, added_edges, res) }"

definition hasEdge :: "'bv bv_ops \<Rightarrow> 'bv bvgraph \<Rightarrow> nat \<Rightarrow> nat \<Rightarrow> bool option" where
  "hasEdge ops g from to = do { bv \<leftarrow> arr_get (gr_v g) from; bv_getBit ops bv to }"

definition hasEdge_const :: "'bv bv_ops \<Rightarrow> 'bv bvgraph \<Rightarrow> nat \<Rightarrow> nat \<Rightarrow> bool option" where
  "hasEdge_const ops g from to = do {
     graph_check ops from to;
     bv \<leftarrow> arr_get (gr_v g) from;
     bv_getBit ops bv to }"

definition removeEdge :: "'bv bv_ops \<Rightarrow> 'bv bvgraph \<Rightarrow> nat \<Rightarrow> nat \<Rightarrow> ('bv bvgraph \<times> bool) option" where
  "removeEdge ops g from to = do {
     bv \<leftarrow> arr_get (gr_v g) from;
     (bv, res) \<leftarrow> bv_clearBit ops bv to;
     v \<leftarrow> arr_set (gr_v g) from bv;
     Some (g\<lparr>gr_v := v\<rparr>, res) }"

definition removeEdgesTo_step :: "'bv bv_ops \<Rightarrow> 'bv \<Rightarrow> nat \<Rightarrow> 'bv list \<times> bool \<Rightarrow> ('bv list \<times> bool) option" where
  "removeEdgesTo_step ops to from = (\<lambda>(v, res). do {
     bv \<leftarrow> arr_get v from;
     (bv, changed) \<leftarrow> bv_setDifference ops bv to;
     v \<leftarrow> arr_set v from bv;
     Some (v, if changed then True else res) })"

definition removeEdgesTo :: "'bv bv_ops \<Rightarrow> 'bv bvgraph \<Rightarrow> 'bv \<Rightarrow> ('bv bvgraph \<times> bool) option" where
  "removeEdgesTo ops g to = do {
     (v, res) \<leftarrow> foldM (removeEdgesTo_step ops to) [0..<bv_size ops] (gr_v g, False);
     Some (g\<lparr>gr_v := v\<rparr>, res) }"

definition removeEdgesFrom_step :: "'bv bv_ops \<Rightarrow> nat \<Rightarrow> 'bv list \<times> bool \<Rightarrow> ('bv list \<times> bool) option" where
  "removeEdgesFrom_step ops idx = (\<lambda>(v, res). do {
     bv \<leftarrow> arr_get v idx;
     if \<not> bv_empty ops bv then do { v \<leftarrow> arr_set v idx (bv_clear ops bv); Some (v, True) }
     else Some (v, res) })"

definition removeEdgesFrom_bv :: "'bv bv_ops \<Rightarrow> 'bv bvgraph \<Rightarrow> 'bv \<Rightarrow> ('bv bvgraph \<times> bool) option" where
  "removeEdgesFrom_bv ops g from = do {
     t1 \<leftarrow> bv_copyFrom ops (gr_t1 g) from;
     (t1, v, res) \<leftarrow> bv_drain ops (removeEdgesFrom_step ops) t1 (gr_v g, False);
     Some (g\<lparr>gr_v := v, gr_t1 := t1\<rparr>, res) }"

definition removeEdgesFrom :: "'bv bv_ops \<Rightarrow> 'bv bvgraph \<Rightarrow> nat \<Rightarrow> 'bv bvgraph option" where
  "removeEdgesFrom ops g from = do {
     bv \<leftarrow> arr_get (gr_v g) from;
     v \<leftarrow> arr_set (gr_v g) from (bv_clear ops bv);
     Some (g\<lparr>gr_v := v\<rparr>) }"

partial_function (option) reach_loop ::
  "'bv bv_ops \<Rightarrow> 'bv list \<Rightarrow> 'bv \<Rightarrow> 'bv \<Rightarrow> ('bv \<times> 'bv) option" where
  "reach_loop ops v to_visit visited =
     (if bv_empty ops to_visit then Some (to_visit, visited)
      else do {
        (to_visit, idx) \<leftarrow> bv_getAndClearFirstOne ops to_visit;
        (visited, new) \<leftarrow> bv_setBit ops visited idx;
        to_visit \<leftarrow> (if new then do { bv \<leftarrow> arr_get v idx; map_option fst (bv_setUnion ops to_visit bv) }
          else Some to_visit);
        reach_loop ops v to_visit visited
      })"

definition isReachable :: "'bv bv_ops \<Rightarrow> 'bv bvgraph \<Rightarrow> nat \<Rightarrow> 'bv \<Rightarrow> ('bv bvgraph \<times> bool) option" where
  "isReachable ops g from targets = do {
     bv \<leftarrow> arr_get (gr_v g) from;
     to_visit \<leftarrow> bv_copyFrom ops (gr_t1 g) bv;
     (visited, _) \<leftarrow> bv_setBit ops (bv_clear ops (gr_t2 g)) from;
     (to_visit, visited) \<leftarrow> reach_loop ops (gr_v g) to_visit visited;
     res \<leftarrow> bv_intersectsWith ops targets visited;
     Some (g\<lparr>gr_t1 := to_visit, gr_t2 := visited\<rparr>, res) }"

text \<open>
  The loop of \<^verbatim>\<open>findPath\<close> over the iterator: \<open>body\<close> is the recursive call, and the first
  non-zero result is returned, plus one.
\<close>

partial_function (option) findPath_loop :: "('bv, 'it) bv_it_ops \<Rightarrow>
    (nat \<Rightarrow> nat list \<Rightarrow> (nat list \<times> nat) option) \<Rightarrow> 'it \<Rightarrow> nat list \<Rightarrow> (nat list \<times> nat) option" where
  "findPath_loop its body it path =
     (if \<not> it_hasNext its it then Some (path, 0)
      else do {
        (it, idx) \<leftarrow> it_next its it;
        (path, res) \<leftarrow> body idx path;
        if res \<noteq> 0 then Some (path, res + 1) else findPath_loop its body it path
      })"

primrec findPath :: "'bv bv_ops \<Rightarrow> ('bv, 'it) bv_it_ops \<Rightarrow> 'bv bvgraph \<Rightarrow> 'bv \<Rightarrow> nat \<Rightarrow>
    nat \<Rightarrow> nat \<Rightarrow> nat list \<Rightarrow> (nat list \<times> nat) option" where
  "findPath ops its g targets 0 = (\<lambda>off from path. Some (path, 0))"
| "findPath ops its g targets (Suc n) = (\<lambda>off from path. do {
     path \<leftarrow> arr_set path off from;
     hit \<leftarrow> bv_getBit ops targets from;
     if hit then Some (path, 1)
     else do {
       bv \<leftarrow> arr_get (gr_v g) from;
       findPath_loop its (findPath ops its g targets n (off + 1)) (it_new its bv) path } })"

text \<open>The loop over \<open>p\<close> of \<^verbatim>\<open>findShortestPath\<close>.\<close>

fun findShortestPath_from :: "'bv bv_ops \<Rightarrow> ('bv, 'it) bv_it_ops \<Rightarrow> 'bv bvgraph \<Rightarrow> 'bv \<Rightarrow> nat \<Rightarrow>
    nat list \<Rightarrow> nat list \<Rightarrow> (nat list \<times> nat) option" where
  "findShortestPath_from ops its g targets from path [] = Some (path, 0)"
| "findShortestPath_from ops its g targets from path (p # ps) = do {
     (path, res) \<leftarrow> findPath ops its g targets p 0 from path;
     if res = p then Some (path, p)
     else findShortestPath_from ops its g targets from path ps }"

definition findShortestPath :: "'bv bv_ops \<Rightarrow> ('bv, 'it) bv_it_ops \<Rightarrow> 'bv bvgraph \<Rightarrow> nat \<Rightarrow> 'bv \<Rightarrow>
    nat list \<Rightarrow> nat \<Rightarrow> (nat list \<times> nat) option" where
  "findShortestPath ops its g from targets path path_size =
     findShortestPath_from ops its g targets from path [1..<Suc path_size]"

section \<open>The graph it stands for\<close>

definition graph_inv :: "'bv bv_ops \<Rightarrow> ('bv \<Rightarrow> bool) \<Rightarrow> ('bv \<Rightarrow> bool) \<Rightarrow> 'bv bvgraph \<Rightarrow> bool" where
  "graph_inv ops shape ok g \<longleftrightarrow> length (gr_v g) = bv_size ops \<and> list_all ok (gr_v g) \<and>
     shape (gr_t1 g) \<and> shape (gr_t2 g)"

definition graph_edges :: "('bv \<Rightarrow> nat set) \<Rightarrow> 'bv bvgraph \<Rightarrow> (nat \<times> nat) set" where
  "graph_edges \<alpha> g = {(i, j). i < length (gr_v g) \<and> j \<in> \<alpha> (gr_v g ! i)}"

text \<open>A path of the graph as a list of nodes.\<close>

definition path_to :: "(nat \<times> nat) set \<Rightarrow> nat \<Rightarrow> nat set \<Rightarrow> nat list \<Rightarrow> bool" where
  "path_to E from T ps \<longleftrightarrow> ps \<noteq> [] \<and> hd ps = from \<and> last ps \<in> T \<and>
     successively (\<lambda>a b. (a, b) \<in> E) ps"

section \<open>Edges\<close>

locale bv_graph = bv_iterator ops shape inv abs its it_inv it_abs
  for ops :: "'bv bv_ops" and shape inv abs and its :: "('bv, 'it) bv_it_ops" and it_inv it_abs
begin

abbreviation "N \<equiv> bv_size ops"
abbreviation "Ginv \<equiv> graph_inv ops shape inv"
abbreviation "E \<equiv> graph_edges abs"

lemma GinvD:
  assumes "Ginv g"
  shows "length (gr_v g) = N" and "i < N \<Longrightarrow> inv (gr_v g ! i)" and "shape (gr_t1 g)" and "shape (gr_t2 g)"
  using assms by (auto simp: graph_inv_def list_all_length)

lemma E_iff: "Ginv g \<Longrightarrow> (i, j) \<in> E g \<longleftrightarrow> i < N \<and> j \<in> abs (gr_v g ! i)"
  by (simp add: graph_edges_def GinvD)

lemma E_bound: "Ginv g \<Longrightarrow> (i, j) \<in> E g \<Longrightarrow> i < N \<and> j < N"
  using abs_less GinvD(2) by (auto simp: E_iff)

lemma Ginv_update:
  assumes "Ginv g" and "i < N" and "inv x"
  shows "Ginv (g\<lparr>gr_v := (gr_v g)[i := x]\<rparr>)"
  using assms by (auto simp: graph_inv_def list_all_length nth_list_update)

lemma E_update:
  assumes "Ginv g" and "i < N" and "inv x"
  shows "E (g\<lparr>gr_v := (gr_v g)[i := x]\<rparr>) = {(a, b). if a = i then b \<in> abs x else (a, b) \<in> E g}"
  using GinvD(1) [OF assms(1)] assms(2) by (auto simp: graph_edges_def nth_list_update)

lemma graph_clear_ok:
  assumes "length (gr_v g) = N" and "list_all shape (gr_v g)" and "shape (gr_t1 g)" "shape (gr_t2 g)"
  shows "Ginv (graph_clear ops g) \<and> E (graph_clear ops g) = {}"
  using assms clear_ok by (auto simp: graph_clear_def graph_inv_def graph_edges_def list_all_length)

lemma graph_empty_ok: "Ginv g \<Longrightarrow> graph_empty ops g \<longleftrightarrow> E g = {}"
  using empty_ok GinvD(1,2) by (auto simp: graph_empty_def list_all_length graph_edges_def)

lemma addEdge_ok:
  assumes "Ginv g" and "from < N" and "to < N"
  shows "\<exists>g'. addEdge ops g from to = Some (g', (from, to) \<notin> E g) \<and> Ginv g' \<and>
    E g' = insert (from, to) (E g)"
proof -
  obtain x where "bv_setBit ops (gr_v g ! from) to = Some (x, to \<notin> abs (gr_v g ! from))" "inv x"
    "abs x = insert to (abs (gr_v g ! from))"
    using setBit_ok [OF GinvD(2) [OF assms(1,2)] assms(3)] by blast
  then show ?thesis
    using GinvD(1) [OF assms(1)] assms E_iff [OF assms(1)]
    by (auto simp: addEdge_def graph_check_def check_def Ginv_update E_update split: if_splits)
qed

lemma removeEdge_ok:
  assumes "Ginv g" and "from < N" and "to < N"
  shows "\<exists>g'. removeEdge ops g from to = Some (g', (from, to) \<in> E g) \<and> Ginv g' \<and>
    E g' = E g - {(from, to)}"
proof -
  obtain x where "bv_clearBit ops (gr_v g ! from) to = Some (x, to \<in> abs (gr_v g ! from))" "inv x"
    "abs x = abs (gr_v g ! from) - {to}"
    using clearBit_ok [OF GinvD(2) [OF assms(1,2)] assms(3)] by blast
  then show ?thesis
    using GinvD(1) [OF assms(1)] assms E_iff [OF assms(1)]
    by (auto simp: removeEdge_def Ginv_update E_update split: if_splits)
qed

lemma hasEdge_ok:
  assumes "Ginv g" and "from < N" and "to < N"
  shows "hasEdge ops g from to = Some ((from, to) \<in> E g)"
    and "hasEdge_const ops g from to = Some ((from, to) \<in> E g)"
  using assms GinvD(1,2) [OF assms(1)]
  by (simp_all add: hasEdge_def hasEdge_const_def graph_check_def check_def E_iff getBit_ok)

lemma removeEdgesFrom_ok:
  assumes "Ginv g" and "from < N"
  shows "\<exists>g'. removeEdgesFrom ops g from = Some g' \<and> Ginv g' \<and> E g' = E g - {from} \<times> UNIV"
proof -
  let ?c = "bv_clear ops (gr_v g ! from)"
  have "inv ?c" "abs ?c = {}"
    using clear_ok inv_shape [OF GinvD(2) [OF assms]] by auto
  then show ?thesis
    using GinvD(1) [OF assms(1)] assms
    by (auto simp: removeEdgesFrom_def Ginv_update E_update split: if_splits)
qed

text \<open>A loop that changes the vectors of the nodes it visits, one at a time.\<close>

definition rows_inv :: "'bv bvgraph \<Rightarrow> (nat \<Rightarrow> nat set) \<Rightarrow> (nat \<Rightarrow> bool) \<Rightarrow> nat set \<Rightarrow> 'bv list \<times> bool \<Rightarrow> bool" where
  "rows_inv g f c P = (\<lambda>(v, res). length v = N \<and> list_all inv v \<and> (res \<longleftrightarrow> (\<exists>i\<in>P. c i)) \<and>
     (\<forall>i<N. abs (v ! i) = (if i \<in> P then f i else abs (gr_v g ! i))))"

lemma rows_inv_step:
  assumes "rows_inv g f c P (v, res)" and "i < N" and "inv x" and "abs x = f i"
  shows "rows_inv g f c (insert i P) (v[i := x], res \<or> c i)"
  using assms by (auto simp: rows_inv_def list_all_length nth_list_update)

lemma removeEdgesTo_ok:
  assumes "Ginv g" and "inv to"
  shows "\<exists>g'. removeEdgesTo ops g to = Some (g', E g \<inter> UNIV \<times> abs to \<noteq> {}) \<and> Ginv g' \<and>
    E g' = E g - UNIV \<times> abs to"
proof -
  let ?f = "\<lambda>i. abs (gr_v g ! i) - abs to" and ?c = "\<lambda>i. abs (gr_v g ! i) \<inter> abs to \<noteq> {}"
  let ?I = "rows_inv g ?f ?c"
  have "\<exists>s. foldM (removeEdgesTo_step ops to) [0..<N] (gr_v g, False) = Some s \<and> ?I (set [0..<N]) s"
  proof (rule foldM_invariant)
    show "?I {} (gr_v g, False)"
      using assms(1) by (simp add: rows_inv_def graph_inv_def)
  next
    fix P i and s :: "'bv list \<times> bool"
    assume i: "i \<in> set [0..<N]" "i \<notin> P" and I: "?I P s"
    obtain v res where s: "s = (v, res)" by fastforce
    have v: "length v = N" "inv (v ! i)" "abs (v ! i) = abs (gr_v g ! i)" "i < N"
      using I i by (auto simp: rows_inv_def s list_all_length)
    obtain x where "bv_setDifference ops (v ! i) to = Some (x, ?c i)" "inv x" "abs x = ?f i"
      using setDifference_ok [OF v(2) assms(2)] v(3) by auto
    moreover from this have "?I (insert i P) (v[i := x], res \<or> ?c i)"
      using I v(4) by (intro rows_inv_step) (simp_all add: s)
    moreover have "removeEdgesTo_step ops to i s = Some (v[i := x], res \<or> ?c i)"
      using calculation(1) v by (cases "?c i") (simp_all add: removeEdgesTo_step_def s)
    ultimately show "\<exists>s'. removeEdgesTo_step ops to i s = Some s' \<and> ?I (insert i P) s'"
      by blast
  qed simp
  then obtain v res where v: "foldM (removeEdgesTo_step ops to) [0..<N] (gr_v g, False) = Some (v, res)"
    and I: "?I (set [0..<N]) (v, res)"
    by auto
  have "Ginv (g\<lparr>gr_v := v\<rparr>)"
    using I assms(1) by (simp add: rows_inv_def graph_inv_def)
  moreover from this have "E (g\<lparr>gr_v := v\<rparr>) = E g - UNIV \<times> abs to"
    using I assms(1) by (auto simp: E_iff rows_inv_def set_eq_iff)
  moreover have "res \<longleftrightarrow> E g \<inter> UNIV \<times> abs to \<noteq> {}"
    using I E_iff [OF assms(1)] by (fastforce simp: rows_inv_def)
  ultimately show ?thesis
    using v by (simp add: removeEdgesTo_def)
qed

lemma removeEdgesFrom_bv_ok:
  assumes "Ginv g" and "inv from"
  shows "\<exists>g'. removeEdgesFrom_bv ops g from = Some (g', E g \<inter> abs from \<times> UNIV \<noteq> {}) \<and> Ginv g' \<and>
    E g' = E g - abs from \<times> UNIV"
proof -
  let ?f = "\<lambda>i. {}" and ?c = "\<lambda>i. abs (gr_v g ! i) \<noteq> {}"
  let ?I = "rows_inv g ?f ?c"
  obtain t1 where t1: "bv_copyFrom ops (gr_t1 g) from = Some t1" "inv t1" "abs t1 = abs from"
    using copyFrom_ok [OF GinvD(3) [OF assms(1)] assms(2)] by blast
  have "\<exists>t' s. bv_drain ops (removeEdgesFrom_step ops) t1 (gr_v g, False) = Some (t', s) \<and> inv t' \<and>
      abs t' = {} \<and> ?I (abs t1) s"
  proof (rule drain_invariant [OF t1(2)])
    show "?I {} (gr_v g, False)"
      using assms(1) by (simp add: rows_inv_def graph_inv_def)
  next
    fix P i and s :: "'bv list \<times> bool"
    assume i: "i \<in> abs t1" "i \<notin> P" and I: "?I P s"
    obtain v res where s: "s = (v, res)" by fastforce
    have v: "length v = N" "i < N" "inv (v ! i)" "abs (v ! i) = abs (gr_v g ! i)"
      using I i abs_less [OF t1(2) i(1)] by (auto simp: rows_inv_def s list_all_length)
    define x where "x = (if abs (v ! i) = {} then v ! i else bv_clear ops (v ! i))"
    have x: "inv x" "abs x = {}"
      using clear_ok [OF inv_shape [OF v(3)]] v(3) by (auto simp: x_def)
    have "removeEdgesFrom_step ops i s = Some (v[i := x], res \<or> ?c i)"
      using v(1,2,4) empty_ok [OF v(3)] by (simp add: removeEdgesFrom_step_def s x_def)
    moreover have "?I (insert i P) (v[i := x], res \<or> ?c i)"
      using I v(2) x by (intro rows_inv_step) (simp_all add: s)
    ultimately show "\<exists>s'. removeEdgesFrom_step ops i s = Some s' \<and> ?I (insert i P) s'"
      by blast
  qed
  then obtain t' v res where v: "bv_drain ops (removeEdgesFrom_step ops) t1 (gr_v g, False) = Some (t', v, res)"
    "inv t'" and I: "?I (abs from) (v, res)"
    unfolding t1(3) by (metis surj_pair)
  have G: "Ginv (g\<lparr>gr_v := v, gr_t1 := t'\<rparr>)"
    using I v(2) assms(1) inv_shape by (simp add: rows_inv_def graph_inv_def)
  have row: "abs (v ! a) = (if a \<in> abs from then {} else abs (gr_v g ! a))" if "a < N" for a
    using I that by (simp add: rows_inv_def)
  have "(a, b) \<in> E (g\<lparr>gr_v := v, gr_t1 := t'\<rparr>) \<longleftrightarrow> (a, b) \<in> E g - abs from \<times> UNIV" for a b
    using row [of a] by (cases "a \<in> abs from") (auto simp: E_iff [OF G] E_iff [OF assms(1)])
  then have "E (g\<lparr>gr_v := v, gr_t1 := t'\<rparr>) = E g - abs from \<times> UNIV"
    by (simp only: set_eq_iff split_paired_All simp_thms)
  moreover have "res \<longleftrightarrow> E g \<inter> abs from \<times> UNIV \<noteq> {}"
  proof -
    have "res \<longleftrightarrow> (\<exists>i\<in>abs from. ?c i)"
      using I by (simp add: rows_inv_def)
    then show ?thesis
      using E_iff [OF assms(1)] abs_less [OF assms(2)] by blast
  qed
  ultimately show ?thesis
    using t1(1) v(1) G by (simp add: removeEdgesFrom_bv_def)
qed

end

context bv_graph
begin

lemma addEdges_foldM:
  assumes "distinct xs" and "set xs \<subseteq> {..<N}" and "to < N" and "length v = N" and "list_all inv v"
    and "res \<le> m" and "m \<le> length added" and "new = filter (\<lambda>n. to \<notin> abs (v ! n)) xs"
  shows "\<exists>v' added'. foldM (addEdges_step ops to m) xs (v, added, res) =
      Some (v', added', min m (res + length new)) \<and> length v' = N \<and> list_all inv v' \<and>
    (\<forall>n<N. abs (v' ! n) = (if n \<in> set xs then insert to (abs (v ! n)) else abs (v ! n))) \<and>
    length added' = length added \<and>
    take (min m (res + length new)) added' = take res added @ take (m - res) new"
  using assms
proof (induction xs arbitrary: v added res new)
  case Nil
  then show ?case by simp
next
  case (Cons n xs)
  have n: "n < N" "inv (v ! n)"
    using Cons.prems by (auto simp: list_all_length)
  obtain x where x: "bv_setBit ops (v ! n) to = Some (x, to \<notin> abs (v ! n))" "inv x"
    "abs x = insert to (abs (v ! n))"
    using setBit_ok [OF n(2) Cons.prems(3)] by blast
  define v1 where "v1 = v[n := x]"
  define hit where "hit \<longleftrightarrow> to \<notin> abs (v ! n) \<and> res < m"
  define added1 where "added1 = (if hit then added[res := n] else added)"
  define res1 where "res1 = (if hit then res + 1 else res)"
  have step: "addEdges_step ops to m n (v, added, res) = Some (v1, added1, res1)"
    using x(1) n(1) Cons.prems by (simp add: addEdges_step_def v1_def added1_def res1_def hit_def)
  have "v1 ! a = v ! a" if "a \<in> set xs" for a
    using Cons.prems(1) that by (auto simp: v1_def intro!: nth_list_update_neq)
  then have new1: "filter (\<lambda>n. to \<notin> abs (v1 ! n)) xs = filter (\<lambda>n. to \<notin> abs (v ! n)) xs"
    by (simp cong: filter_cong)
  have v1: "length v1 = N" "list_all inv v1"
    using Cons.prems(4,5) x(2) n(1) by (auto simp: v1_def list_all_length nth_list_update)
  have res1: "res1 \<le> m" "m \<le> length added1"
    using Cons.prems(6,7) by (auto simp: res1_def added1_def hit_def)
  let ?new = "filter (\<lambda>n. to \<notin> abs (v ! n)) xs"
  obtain v' added' where IH: "foldM (addEdges_step ops to m) xs (v1, added1, res1) =
      Some (v', added', min m (res1 + length ?new))" "length v' = N" "list_all inv v'"
    "\<And>n. n < N \<Longrightarrow> abs (v' ! n) = (if n \<in> set xs then insert to (abs (v1 ! n)) else abs (v1 ! n))"
    "length added' = length added1"
    "take (min m (res1 + length ?new)) added' = take res1 added1 @ take (m - res1) ?new"
    using Cons.IH [OF _ _ Cons.prems(3) v1 res1 new1 [symmetric]] Cons.prems(1,2) by auto
  have rows: "abs (v' ! i) = (if i \<in> set (n # xs) then insert to (abs (v ! i)) else abs (v ! i))"
    if "i < N" for i
    using IH(4) [OF that] Cons.prems(1,4) x(3) n(1) by (auto simp: v1_def nth_list_update)
  have cnt: "min m (res1 + length ?new) = min m (res + length new)"
    using Cons.prems(6) by (auto simp: res1_def hit_def Cons.prems(8))
  have app: "take res1 added1 @ take (m - res1) ?new = take res added @ take (m - res) new"
    using Cons.prems(6,7)
    by (auto simp: res1_def added1_def hit_def Cons.prems(8) take_Suc_conv_app_nth Suc_diff_Suc take_Cons')
  have "foldM (addEdges_step ops to m) (n # xs) (v, added, res) =
      Some (v', added', min m (res + length new))"
    using IH(1) by (simp add: step cnt)
  moreover have "length added' = length added"
    using IH(5) by (simp add: added1_def)
  ultimately show ?case
    using IH(2,3,6) rows unfolding cnt app by blast
qed

lemma addEdges_ok:
  assumes "Ginv g" and "inv from" and "to < N" and "m \<le> length added"
  defines "new \<equiv> sorted_list_of_set {n \<in> abs from. (n, to) \<notin> E g}"
  shows "\<exists>g' added'. addEdges ops g from to added m = Some (g', added', min m (length new)) \<and>
    Ginv g' \<and> E g' = E g \<union> abs from \<times> {to} \<and> length added' = length added \<and>
    take (min m (length new)) added' = take m new"
proof -
  obtain t1 where t1: "bv_copyFrom ops (gr_t1 g) from = Some t1" "inv t1" "abs t1 = abs from"
    using copyFrom_ok [OF GinvD(3) [OF assms(1)] assms(2)] by blast
  let ?xs = "sorted_list_of_set (abs from)"
  have xs: "distinct ?xs" "set ?xs = abs from" "set ?xs \<subseteq> {..<N}"
    using finite_abs [OF assms(2)] abs_bound [OF assms(2)] by auto
  have "filter (\<lambda>n. to \<notin> abs (gr_v g ! n)) ?xs = new"
    using finite_abs [OF assms(2)] abs_less [OF assms(2)] E_iff [OF assms(1)]
    unfolding new_def by (intro sorted_distinct_set_unique) (auto simp: sorted_wrt_filter)
  then obtain v' added' where f: "foldM (addEdges_step ops to m) ?xs (gr_v g, added, 0) =
      Some (v', added', min m (length new))" "length v' = N" "list_all inv v'"
    "\<And>n. n < N \<Longrightarrow> abs (v' ! n) = (if n \<in> abs from then insert to (abs (gr_v g ! n)) else abs (gr_v g ! n))"
    "length added' = length added" "take (min m (length new)) added' = take m new"
    using addEdges_foldM [OF xs(1,3) assms(3), of "gr_v g" 0 m added new] assms(1,4) xs(2)
    by (auto simp: graph_inv_def)
  obtain t' where t': "inv t'"
    "bv_drain ops (addEdges_step ops to m) t1 (gr_v g, added, 0) = Some (t', v', added', min m (length new))"
    using drain_ok [OF t1(2), of "addEdges_step ops to m"] f(1) by (auto simp: t1(3))
  have G: "Ginv (g\<lparr>gr_v := v', gr_t1 := t'\<rparr>)"
    using f(2,3) t'(1) assms(1) inv_shape by (simp add: graph_inv_def)
  have "(a, b) \<in> E (g\<lparr>gr_v := v', gr_t1 := t'\<rparr>) \<longleftrightarrow> (a, b) \<in> E g \<union> abs from \<times> {to}" for a b
    using f(4) [of a] abs_less [OF assms(2), of a]
    by (cases "a \<in> abs from") (auto simp: E_iff [OF G] E_iff [OF assms(1)])
  then have "E (g\<lparr>gr_v := v', gr_t1 := t'\<rparr>) = E g \<union> abs from \<times> {to}"
    by (simp only: set_eq_iff split_paired_All simp_thms)
  then show ?thesis
    using t1(1) t'(2) G f(5,6) by (simp add: addEdges_def)
qed

section \<open>Reachability\<close>

lemma reach_loop_ok:
  assumes "Ginv g" and "inv tv" and "inv vis" and "from \<in> abs vis"
    and "abs vis \<union> abs tv \<subseteq> (E g)\<^sup>* `` {from}" and "E g `` abs vis \<subseteq> abs vis \<union> abs tv"
  shows "\<exists>tv' vis'. reach_loop ops (gr_v g) tv vis = Some (tv', vis') \<and> inv tv' \<and> inv vis' \<and>
    abs vis' = (E g)\<^sup>* `` {from}"
  using assms(2-)
proof (induction "Suc N * card ({..<N} - abs vis) + card (abs tv)" arbitrary: tv vis rule: less_induct)
  case less
  show ?case
  proof (cases "abs tv = {}")
    case True
    have "b \<in> abs vis" if "(from, b) \<in> (E g)\<^sup>*" for b
      using that by (induction rule: rtrancl_induct) (use less.prems True in auto)
    then have "abs vis = (E g)\<^sup>* `` {from}"
      using less.prems(4) by auto
    then show ?thesis
      using True less.prems(1,2) by (subst reach_loop.simps) (simp add: empty_ok)
  next
    case False
    define i where "i = Min (abs tv)"
    obtain tv1 where tv1: "bv_getAndClearFirstOne ops tv = Some (tv1, i)" "inv tv1" "abs tv1 = abs tv - {i}"
      using first_ok [OF less.prems(1) False] by (auto simp: i_def)
    have i: "i \<in> abs tv" "i < N"
      using finite_abs [OF less.prems(1)] False abs_less [OF less.prems(1)] by (auto simp: i_def)
    obtain vis1 where vis1: "bv_setBit ops vis i = Some (vis1, i \<notin> abs vis)" "inv vis1"
      "abs vis1 = insert i (abs vis)"
      using setBit_ok [OF less.prems(2) i(2)] by blast
    obtain tv2 where tv2: "bv_setUnion ops tv1 (gr_v g ! i) = Some (tv2, \<not> abs (gr_v g ! i) \<subseteq> abs tv1)"
      "inv tv2" "abs tv2 = abs tv1 \<union> abs (gr_v g ! i)"
      using setUnion_ok [OF tv1(2) GinvD(2) [OF assms(1) i(2)]] by blast
    have succ: "abs (gr_v g ! i) = E g `` {i}"
      using E_iff [OF assms(1)] i(2) by auto
    define tv' where "tv' = (if i \<in> abs vis then tv1 else tv2)"
    have unfold: "reach_loop ops (gr_v g) tv vis = reach_loop ops (gr_v g) tv' vis1"
      using False tv1(1) vis1(1) tv2(1) GinvD(1) [OF assms(1)] i(2) empty_ok [OF less.prems(1)]
      by (subst reach_loop.simps) (simp add: tv'_def)
    have tv': "inv tv'" "abs tv' \<subseteq> abs tv \<union> E g `` {i}" "abs tv \<subseteq> insert i (abs tv')"
      "i \<in> abs vis \<or> E g `` {i} \<subseteq> abs tv'"
      using tv1(2,3) tv2(2,3) succ by (auto simp: tv'_def)
    have reach: "E g `` {i} \<subseteq> (E g)\<^sup>* `` {from}"
      using less.prems(4) i(1) by (auto intro: rtrancl_into_rtrancl)
    have "Suc N * card ({..<N} - abs vis1) + card (abs tv') < Suc N * card ({..<N} - abs vis) + card (abs tv)"
    proof (cases "i \<in> abs vis")
      case True
      then show ?thesis
        using vis1(3) tv1(3) i(1) finite_abs [OF less.prems(1)]
        by (simp add: tv'_def insert_absorb card_Diff1_less del: card_Diff_insert)
    next
      case False
      then have "{..<N} - abs vis = insert i ({..<N} - abs vis1)" "i \<notin> {..<N} - abs vis1"
        using vis1(3) i(2) by auto
      then have "card ({..<N} - abs vis) = Suc (card ({..<N} - abs vis1))"
        by (simp only: card_insert_disjoint finite_Diff finite_lessThan simp_thms)
      moreover have "card (abs tv') \<le> N"
        using card_mono [OF _ abs_bound [OF tv'(1)]] by simp
      ultimately show ?thesis
        by simp
    qed
    moreover have "abs vis1 \<union> abs tv' \<subseteq> (E g)\<^sup>* `` {from}"
      using less.prems(4) i(1) tv'(2) reach unfolding vis1(3) by blast
    moreover have "E g `` abs vis1 \<subseteq> abs vis1 \<union> abs tv'"
      using less.prems(5) tv'(3,4) unfolding vis1(3) by blast
    ultimately show ?thesis
      unfolding unfold using less.prems(3) vis1(3) by (intro less.hyps tv'(1) vis1(2)) simp_all
  qed
qed

lemma isReachable_ok:
  assumes "Ginv g" and "from < N" and "inv targets"
  shows "\<exists>g'. isReachable ops g from targets = Some (g', abs targets \<inter> (E g)\<^sup>* `` {from} \<noteq> {}) \<and>
    Ginv g' \<and> E g' = E g"
proof -
  obtain tv where tv: "bv_copyFrom ops (gr_t1 g) (gr_v g ! from) = Some tv" "inv tv"
    "abs tv = abs (gr_v g ! from)"
    using copyFrom_ok [OF GinvD(3) [OF assms(1)] GinvD(2) [OF assms(1,2)]] by blast
  note c = clear_ok [OF GinvD(4) [OF assms(1)]]
  obtain vis where vis: "bv_setBit ops (bv_clear ops (gr_t2 g)) from = Some (vis, True)" "inv vis"
    "abs vis = {from}"
    using setBit_ok [of "bv_clear ops (gr_t2 g)" "from"] c assms(2) by auto
  have succ: "abs (gr_v g ! from) = E g `` {from}"
    using E_iff [OF assms(1)] assms(2) by auto
  obtain tv' vis' where l: "reach_loop ops (gr_v g) tv vis = Some (tv', vis')" "inv tv'" "inv vis'"
    "abs vis' = (E g)\<^sup>* `` {from}"
    using reach_loop_ok [OF assms(1) tv(2) vis(2), of "from"] tv(3) vis(3) succ by auto
  have "Ginv (g\<lparr>gr_t1 := tv', gr_t2 := vis'\<rparr>)" "E (g\<lparr>gr_t1 := tv', gr_t2 := vis'\<rparr>) = E g"
    using assms(1) l(2,3) inv_shape by (simp_all add: graph_inv_def graph_edges_def)
  then show ?thesis
    using tv(1) vis(1) l(1,4) intersectsWith_ok [OF assms(3) l(3)] GinvD(1) [OF assms(1)] assms(2)
    by (simp add: isReachable_def)
qed

end

section \<open>Paths\<close>

lemma path_to_single: "path_to E a T [a] \<longleftrightarrow> a \<in> T"
  by (simp add: path_to_def)

lemma path_to_Cons:
  "ps \<noteq> [] \<Longrightarrow> path_to E a T (a # ps) \<longleftrightarrow> (a, hd ps) \<in> E \<and> path_to E (hd ps) T ps"
  by (cases ps) (auto simp: path_to_def)

lemma path_to_cases:
  assumes "path_to E a T ps"
  obtains "ps = [a]" "a \<in> T" | qs where "ps = a # qs" "(a, hd qs) \<in> E" "path_to E (hd qs) T qs"
proof (cases ps)
  case (Cons b qs)
  then have "b = a"
    using assms by (simp add: path_to_def)
  with Cons show ?thesis
    using that assms path_to_Cons [of qs E a T] path_to_single [of E a T] by (cases "qs = []") auto
qed (use assms in \<open>simp add: path_to_def\<close>)

context bv_graph
begin

text \<open>
  What a search with room for \<open>n\<close> nodes at offset \<open>off\<close> of the array promises: the entries
  before the offset are kept, a non-zero result is the length of a path to a target that starts
  at the offset, and the result is zero only if there is no path of at most \<open>n\<close> nodes.
\<close>

definition finds :: "'bv bvgraph \<Rightarrow> nat set \<Rightarrow> nat \<Rightarrow> nat \<Rightarrow> nat \<Rightarrow> nat list \<Rightarrow> nat list \<Rightarrow> nat \<Rightarrow> bool" where
  "finds g T n off from path path' r \<longleftrightarrow> length path' = length path \<and> take off path' = take off path \<and>
     r \<le> n \<and> (if r = 0 then \<forall>ps. path_to (E g) from T ps \<longrightarrow> n < length ps
       else path_to (E g) from T (take r (drop off path')))"

lemma findPath_loop_ok:
  assumes "it_inv it" and "Suc off + n \<le> length path" and "length path = L"
    and body: "\<And>idx path. \<lbrakk> idx \<in> it_abs it; length path = L \<rbrakk> \<Longrightarrow>
      \<exists>path' r. body idx path = Some (path', r) \<and> finds g T n (Suc off) idx path path' r"
  shows "\<exists>path' r. findPath_loop its body it path = Some (path', r) \<and> length path' = L \<and>
    take (Suc off) path' = take (Suc off) path \<and> r \<le> Suc n \<and>
    (if r = 0 then \<forall>idx\<in>it_abs it. \<forall>ps. path_to (E g) idx T ps \<longrightarrow> n < length ps
     else 1 < r \<and> (\<exists>idx\<in>it_abs it. path_to (E g) idx T (take (r - 1) (drop (Suc off) path'))))"
  using assms
proof (induction "card (it_abs it)" arbitrary: it path)
  case 0
  then have "it_abs it = {}"
    using finite_it_abs by simp
  with 0 show ?case
    by (subst findPath_loop.simps) (simp add: it_hasNext_ok)
next
  case (Suc m)
  then have ne: "it_abs it \<noteq> {}"
    by auto
  define idx where "idx = Min (it_abs it)"
  obtain it' where it': "it_next its it = Some (it', idx)" "it_inv it'" "it_abs it' = it_abs it - {idx}"
    using it_next_ok [OF Suc.prems(1) ne] by (auto simp: idx_def)
  have idx: "idx \<in> it_abs it"
    using finite_it_abs [OF Suc.prems(1)] ne by (simp add: idx_def)
  obtain path1 r1 where b: "body idx path = Some (path1, r1)" "finds g T n (Suc off) idx path path1 r1"
    using Suc.prems(4) [OF idx Suc.prems(3)] by blast
  have unfold: "findPath_loop its body it path =
      (if r1 \<noteq> 0 then Some (path1, r1 + 1) else findPath_loop its body it' path1)"
    using ne it'(1) b(1) it_hasNext_ok [OF Suc.prems(1)] by (subst findPath_loop.simps) simp
  show ?case
  proof (cases "r1 = 0")
    case False
    then show ?thesis
      using b(2) idx Suc.prems(3) unfolding unfold by (auto simp: finds_def)
  next
    case True
    have none: "\<forall>ps. path_to (E g) idx T ps \<longrightarrow> n < length ps" and
      path1: "length path1 = L" "take (Suc off) path1 = take (Suc off) path"
      using b(2) True Suc.prems(3) by (auto simp: finds_def)
    have "card (it_abs it') = m"
      using Suc.hyps(2) it'(3) idx finite_it_abs [OF Suc.prems(1)] by simp
    then obtain path' r where IH: "findPath_loop its body it' path1 = Some (path', r)" "length path' = L"
      "take (Suc off) path' = take (Suc off) path1" "r \<le> Suc n"
      "if r = 0 then \<forall>idx\<in>it_abs it'. \<forall>ps. path_to (E g) idx T ps \<longrightarrow> n < length ps
       else 1 < r \<and> (\<exists>idx\<in>it_abs it'. path_to (E g) idx T (take (r - 1) (drop (Suc off) path')))"
      using Suc.hyps(1) [OF _ it'(2), of path1] Suc.prems(2-4) path1(1) it'(3) by fastforce
    then show ?thesis
      using True none path1(2) it'(3) unfolding unfold by (cases "r = 0") auto
  qed
qed

lemma findPath_ok:
  assumes "Ginv g" and "inv targets"
  shows "\<lbrakk> from < N; off + n \<le> length path \<rbrakk> \<Longrightarrow>
    \<exists>path' r. findPath ops its g targets n off from path = Some (path', r) \<and>
      finds g (abs targets) n off from path path' r"
proof (induction n arbitrary: off "from" path)
  case 0
  then show ?case
    by (auto simp: finds_def path_to_def)
next
  case (Suc n)
  let ?T = "abs targets"
  let ?p = "path[off := from]"
  have off: "off < length path"
    using Suc.prems by simp
  show ?case
  proof (cases "from \<in> ?T")
    case True
    then show ?thesis
      using off Suc.prems getBit_ok [OF assms(2)]
      by (auto simp: finds_def drop_update_cancel take_Suc_conv_app_nth path_to_single hd_drop_conv_nth
          simp flip: drop_Suc)
  next
    case False
    obtain bv where bv: "bv = gr_v g ! from" "inv bv"
      using GinvD(2) [OF assms(1) Suc.prems(1)] by blast
    note new = it_new_ok [OF bv(2)]
    have room: "Suc off + n \<le> length ?p"
      using Suc.prems(2) by simp
    have body: "\<exists>path' r. findPath ops its g targets n (Suc off) idx path = Some (path', r) \<and>
        finds g ?T n (Suc off) idx path path' r" if "idx \<in> it_abs (it_new its bv)" "length path = length ?p" for idx path
      using that Suc.IH [of idx "Suc off" path] Suc.prems(2) new abs_less [OF bv(2)] by simp
    obtain path' r where l: "findPath_loop its (findPath ops its g targets n (Suc off)) (it_new its bv) ?p =
        Some (path', r)" "length path' = length ?p" "take (Suc off) path' = take (Suc off) ?p" "r \<le> Suc n"
      "if r = 0 then \<forall>idx\<in>abs bv. \<forall>ps. path_to (E g) idx ?T ps \<longrightarrow> n < length ps
       else 1 < r \<and> (\<exists>idx\<in>abs bv. path_to (E g) idx ?T (take (r - 1) (drop (Suc off) path')))"
      using findPath_loop_ok [OF conjunct1 [OF new] room refl body] unfolding conjunct2 [OF new] by blast
    have run: "findPath ops its g targets (Suc n) off from path = Some (path', r)"
      using False off Suc.prems(1) getBit_ok [OF assms(2)] GinvD(1) [OF assms(1)] l(1) bv(1) by simp
    have "path' ! off = take (Suc off) path' ! off"
      using off l(2) by simp
    also have "\<dots> = from"
      unfolding l(3) using off by simp
    finally have split: "drop off path' = from # drop (Suc off) path'"
      using off l(2) by (simp add: Cons_nth_drop_Suc [symmetric])
    have succ: "b \<in> abs bv \<longleftrightarrow> (from, b) \<in> E g" for b
      using E_iff [OF assms(1)] Suc.prems(1) bv(1) by simp
    have "take off path' = take off (take (Suc off) ?p)"
      unfolding l(3) [symmetric] by simp
    then have keep: "take off path' = take off path"
      by simp
    have "if r = 0 then \<forall>ps. path_to (E g) from ?T ps \<longrightarrow> Suc n < length ps
      else path_to (E g) from ?T (take r (drop off path'))"
    proof (cases "r = 0")
      case True
      have "Suc n < length ps" if "path_to (E g) from ?T ps" for ps
        using that by (cases rule: path_to_cases) (use False l(5) True succ in auto)
      then show ?thesis using True by simp
    next
      case r: False
      then obtain r' idx where r': "r = Suc r'" "0 < r'" "idx \<in> abs bv"
        "path_to (E g) idx ?T (take r' (drop (Suc off) path'))"
        using l(5) by (cases r) auto
      then have "take r' (drop (Suc off) path') \<noteq> []" "hd (take r' (drop (Suc off) path')) = idx"
        by (auto simp: path_to_def)
      then show ?thesis
        using r' succ unfolding split by (simp add: path_to_Cons)
    qed
    then show ?thesis
      using run keep l(2,4) by (simp add: finds_def)
  qed
qed

lemma findShortestPath_from_ok:
  assumes "Ginv g" and "inv targets" and "from < N" and "n \<le> length path" and "0 < m" and "m \<le> Suc n"
    and "\<And>ps. path_to (E g) from (abs targets) ps \<Longrightarrow> m \<le> length ps"
  shows "\<exists>path' r. findShortestPath_from ops its g targets from path [m..<Suc n] = Some (path', r) \<and>
    length path' = length path \<and> r \<le> n \<and>
    (if r = 0 then \<forall>ps. path_to (E g) from (abs targets) ps \<longrightarrow> n < length ps
     else path_to (E g) from (abs targets) (take r path') \<and>
       (\<forall>ps. path_to (E g) from (abs targets) ps \<longrightarrow> r \<le> length ps))"
  using assms(4-)
proof (induction "Suc n - m" arbitrary: m path)
  case 0
  then have "m = Suc n"
    by simp
  with 0 show ?case
    by (auto simp: Suc_le_eq)
next
  case (Suc d)
  then have m: "m < Suc n" "[m..<Suc n] = m # [Suc m..<Suc n]"
    by (simp_all add: upt_conv_Cons del: upt_Suc)
  obtain path1 r1 where f: "findPath ops its g targets m 0 from path = Some (path1, r1)"
    "finds g (abs targets) m 0 from path path1 r1"
    using findPath_ok [OF assms(1-3), of 0 m path] Suc.prems(1) m(1) by auto
  show ?case
  proof (cases "r1 = 0")
    case True
    then have "\<And>ps. path_to (E g) from (abs targets) ps \<Longrightarrow> Suc m \<le> length ps" "length path1 = length path"
      using f(2) by (auto simp: finds_def)
    with Suc.hyps(1) [of "Suc m" path1] Suc.hyps(2) Suc.prems(1,2) m(1) True f(1) show ?thesis
      unfolding m(2) by simp
  next
    case False
    then have p: "path_to (E g) from (abs targets) (take r1 path1)" "r1 \<le> m" "length path1 = length path"
      using f(2) by (auto simp: finds_def)
    then have "r1 = m"
      using Suc.prems(4) [OF p(1)] by simp
    then show ?thesis
      using f(1) p False m(1) Suc.prems(4) unfolding m(2) by auto
  qed
qed

end

text \<open>The graph of the deadlock detector.\<close>

interpretation dd_graph: bv_graph "two_level_ops basic_ops 1 :: 64 word two_level bv_ops"
  "tl_shape basic_ops (\<lambda>_. True) 1" "tl_inv basic_ops (\<lambda>_. True) (\<lambda>_. True) basic_abs 1"
  "tl_abs basic_ops basic_abs" "tl_it_ops basic_ops basic_it_ops 1"
  "tl_it_inv basic_ops (\<lambda>_. True) (\<lambda>_. True) basic_abs 1 (\<lambda>_. True) basic_abs"
  "tl_it_abs basic_ops basic_abs basic_abs"
  by unfold_locales

section \<open>The graph over TwoLevelBitVector<>\<close>

text \<open>The default arguments \<^verbatim>\<open>TwoLevelBitVector<1, BasicBitVector<usize>>\<close>, with 4096 bits.\<close>

type_synonym ddbv = "64 word two_level"

abbreviation ddbv_ops :: "ddbv bv_ops" where
  "ddbv_ops \<equiv> two_level_ops basic_ops 1"

abbreviation ddbv_it_ops :: "(ddbv, (64 word, 64 word) tl_iterator) bv_it_ops" where
  "ddbv_it_ops \<equiv> tl_it_ops basic_ops basic_it_ops 1"

abbreviation ddbv_shape :: "ddbv \<Rightarrow> bool" where
  "ddbv_shape \<equiv> tl_shape basic_ops (\<lambda>_. True) 1"

abbreviation ddbv_inv :: "ddbv \<Rightarrow> bool" where
  "ddbv_inv \<equiv> tlb_inv 1"

abbreviation ddbv_abs :: "ddbv \<Rightarrow> nat set" where
  "ddbv_abs \<equiv> tlb_abs"

abbreviation dd_graph_inv :: "ddbv bvgraph \<Rightarrow> bool" where
  "dd_graph_inv \<equiv> graph_inv ddbv_ops ddbv_shape ddbv_inv"

abbreviation dd_edges :: "ddbv bvgraph \<Rightarrow> (nat \<times> nat) set" where
  "dd_edges \<equiv> graph_edges ddbv_abs"

lemma ddbv_size: "bv_size ddbv_ops = 4096"
  by (simp add: two_level_ops_def tl_size_def basic_ops_def)

text \<open>C14: \<^verbatim>\<open>isReachable\<close> ends on every graph, answers whether some target can be reached from the
  node along the edges, and leaves the edges as they are.
\<close>

theorem isReachable_correct:
  assumes "dd_graph_inv g" and "from < 4096" and "ddbv_inv targets"
  shows "\<exists>g'. isReachable ddbv_ops g from targets =
      Some (g', \<exists>t\<in>ddbv_abs targets. (from, t) \<in> (dd_edges g)\<^sup>*) \<and>
    dd_graph_inv g' \<and> dd_edges g' = dd_edges g"
proof -
  have "ddbv_abs targets \<inter> (dd_edges g)\<^sup>* `` {from} \<noteq> {} \<longleftrightarrow>
      (\<exists>t\<in>ddbv_abs targets. (from, t) \<in> (dd_edges g)\<^sup>*)"
    by auto
  then show ?thesis
    using dd_graph.isReachable_ok [OF assms(1) _ assms(3), of "from"] assms(2)
    by (simp only: ddbv_size)
qed

text \<open>C15: \<^verbatim>\<open>findShortestPath\<close> with room for \<open>n\<close> nodes returns the number of nodes of a shortest
  path from the node to a target and leaves that path at the start of the array; it returns 0
  exactly when no path with at most \<open>n\<close> nodes exists.
\<close>

theorem findShortestPath_correct:
  assumes "dd_graph_inv g" and "from < 4096" and "ddbv_inv targets" and "n \<le> length path"
  shows "\<exists>path' r. findShortestPath ddbv_ops ddbv_it_ops g from targets path n = Some (path', r) \<and>
    length path' = length path \<and> r \<le> n \<and>
    (r = 0 \<longleftrightarrow> \<not> (\<exists>ps. path_to (dd_edges g) from (ddbv_abs targets) ps \<and> length ps \<le> n)) \<and>
    (r \<noteq> 0 \<longrightarrow> path_to (dd_edges g) from (ddbv_abs targets) (take r path') \<and>
      (\<forall>ps. path_to (dd_edges g) from (ddbv_abs targets) ps \<longrightarrow> r \<le> length ps))"
proof -
  have "1 \<le> length ps" if "path_to (dd_edges g) from (ddbv_abs targets) ps" for ps
    using that by (cases ps) (simp_all add: path_to_def)
  then obtain path' r where r: "findShortestPath ddbv_ops ddbv_it_ops g from targets path n = Some (path', r)"
    "length path' = length path" "r \<le> n"
    "if r = 0 then \<forall>ps. path_to (dd_edges g) from (ddbv_abs targets) ps \<longrightarrow> n < length ps
     else path_to (dd_edges g) from (ddbv_abs targets) (take r path') \<and>
       (\<forall>ps. path_to (dd_edges g) from (ddbv_abs targets) ps \<longrightarrow> r \<le> length ps)"
    using dd_graph.findShortestPath_from_ok [OF assms(1,3), of "from" n path 1] assms(2,4)
    unfolding findShortestPath_def ddbv_size by auto
  have "length (take r path') \<le> n"
    using r(3) by simp
  then show ?thesis
    using r by (cases "r = 0") (auto simp: not_le)
qed

lemma changed_result:
  assumes "r = Some (x, c)" and "dd_graph_inv x" and "dd_edges x = E'" and "c \<longleftrightarrow> dd_edges x \<noteq> E0"
  shows "\<exists>g'. r = Some (g', dd_edges g' \<noteq> E0) \<and> dd_graph_inv g' \<and> dd_edges g' = E'"
  using assms by auto

text \<open>C19: The methods that change edges do what their comments say: each is the change of the set of
  edges that its name says and returns whether that set changed; \<^verbatim>\<open>hasEdge\<close> is membership.
\<close>

theorem graph_edge_operations:
  assumes "dd_graph_inv g" and "from < 4096" and "to < 4096" and "ddbv_inv bv"
  shows "(\<exists>g'. addEdge ddbv_ops g from to = Some (g', dd_edges g' \<noteq> dd_edges g) \<and> dd_graph_inv g' \<and>
      dd_edges g' = insert (from, to) (dd_edges g)) \<and>
    (\<exists>g'. removeEdge ddbv_ops g from to = Some (g', dd_edges g' \<noteq> dd_edges g) \<and> dd_graph_inv g' \<and>
      dd_edges g' = dd_edges g - {(from, to)}) \<and>
    (\<exists>g'. removeEdgesFrom ddbv_ops g from = Some g' \<and> dd_graph_inv g' \<and>
      dd_edges g' = dd_edges g - {from} \<times> UNIV) \<and>
    (\<exists>g'. removeEdgesTo ddbv_ops g bv = Some (g', dd_edges g' \<noteq> dd_edges g) \<and> dd_graph_inv g' \<and>
      dd_edges g' = dd_edges g - UNIV \<times> ddbv_abs bv) \<and>
    (\<exists>g'. removeEdgesFrom_bv ddbv_ops g bv = Some (g', dd_edges g' \<noteq> dd_edges g) \<and> dd_graph_inv g' \<and>
      dd_edges g' = dd_edges g - ddbv_abs bv \<times> UNIV) \<and>
    hasEdge ddbv_ops g from to = Some ((from, to) \<in> dd_edges g) \<and>
    hasEdge_const ddbv_ops g from to = Some ((from, to) \<in> dd_edges g) \<and>
    (graph_empty ddbv_ops g \<longleftrightarrow> dd_edges g = {})"
proof -
  have b: "from < bv_size ddbv_ops" "to < bv_size ddbv_ops"
    using assms(2,3) by (simp_all only: ddbv_size)
  obtain g1 where g1: "addEdge ddbv_ops g from to = Some (g1, (from, to) \<notin> dd_edges g)"
    "dd_graph_inv g1" "dd_edges g1 = insert (from, to) (dd_edges g)"
    using dd_graph.addEdge_ok [OF assms(1) b] by blast
  obtain g2 where g2: "removeEdge ddbv_ops g from to = Some (g2, (from, to) \<in> dd_edges g)"
    "dd_graph_inv g2" "dd_edges g2 = dd_edges g - {(from, to)}"
    using dd_graph.removeEdge_ok [OF assms(1) b] by blast
  obtain g3 where g3: "removeEdgesTo ddbv_ops g bv = Some (g3, dd_edges g \<inter> UNIV \<times> ddbv_abs bv \<noteq> {})"
    "dd_graph_inv g3" "dd_edges g3 = dd_edges g - UNIV \<times> ddbv_abs bv"
    using dd_graph.removeEdgesTo_ok [OF assms(1,4)] by blast
  obtain g4 where g4: "removeEdgesFrom_bv ddbv_ops g bv = Some (g4, dd_edges g \<inter> ddbv_abs bv \<times> UNIV \<noteq> {})"
    "dd_graph_inv g4" "dd_edges g4 = dd_edges g - ddbv_abs bv \<times> UNIV"
    using dd_graph.removeEdgesFrom_bv_ok [OF assms(1,4)] by blast
  have "insert x A \<noteq> A \<longleftrightarrow> x \<notin> A" "A - B \<noteq> A \<longleftrightarrow> A \<inter> B \<noteq> {}" "A \<inter> {x} \<noteq> {} \<longleftrightarrow> x \<in> A"
    for x :: "nat \<times> nat" and A B
    by blast+
  note changed = this
  show ?thesis
    by (intro conjI changed_result [OF g1] changed_result [OF g2] changed_result [OF g3]
          changed_result [OF g4] dd_graph.removeEdgesFrom_ok [OF assms(1) b(1)]
          dd_graph.hasEdge_ok [OF assms(1) b] dd_graph.graph_empty_ok [OF assms(1)])
      (simp_all only: g1(3) g2(3) g3(3) g4(3) changed)
qed

text \<open>C20: \<^verbatim>\<open>addEdges\<close> adds an edge from every node of a set to one node.  It stores the sources of
  the new edges, in increasing order and at most as many as the array takes, and returns their
  number (not, as its comment has it, a truth value).
\<close>

theorem addEdges_correct:
  assumes "dd_graph_inv g" and "ddbv_inv from" and "to < 4096" and "m \<le> length added"
  defines "new \<equiv> sorted_list_of_set {n \<in> ddbv_abs from. (n, to) \<notin> dd_edges g}"
  shows "\<exists>g' added'. addEdges ddbv_ops g from to added m = Some (g', added', min m (length new)) \<and>
    dd_graph_inv g' \<and> dd_edges g' = dd_edges g \<union> ddbv_abs from \<times> {to} \<and>
    length added' = length added \<and> take (min m (length new)) added' = take m new"
  unfolding new_def using assms(3) by (intro dd_graph.addEdges_ok assms(1,2,4)) (simp only: ddbv_size)

section \<open>A small graph\<close>

definition ddbv_ex :: "nat \<Rightarrow> ddbv" where
  "ddbv_ex n = \<lparr> lev1 = [1], lev2 = [(replicate 64 0)[0 := 2 ^ n]] \<rparr>"

definition dd_graph_ex :: "ddbv bvgraph" where
  "dd_graph_ex = \<lparr> gr_v = replicate 4096 (ddbv_ex 1), gr_t1 = ddbv_ex 0, gr_t2 = ddbv_ex 0 \<rparr>"

lemma basic_abs_mask: "n < LENGTH('a) \<Longrightarrow> basic_abs (2 ^ n :: 'a::len word) = {n}"
  by (auto simp: basic_abs_def bit_simps)

lemma basic_abs_one: "basic_abs (1 :: 64 word) = {0}"
  using basic_abs_mask [of 0, where 'a = 64] by simp

lemma ddbv_ex_inv: "n < 64 \<Longrightarrow> ddbv_inv (ddbv_ex n)"
  by (simp add: ddbv_ex_def tl_inv_def tl_shape_def basic_abs_one basic_abs_mask basic_ops_def)

lemma ddbv_ex_mem: "n < 64 \<Longrightarrow> n \<in> ddbv_abs (ddbv_ex n)"
  by (simp add: ddbv_ex_def tl_abs_def tl_cell_def basic_abs_one basic_abs_mask basic_ops_def)

lemma dd_graph_ex_inv: "dd_graph_inv dd_graph_ex"
  using ddbv_ex_inv [of 1] ddbv_ex_inv [of 0]
  by (simp add: dd_graph_ex_def graph_inv_def list_all_length ddbv_size [simplified] tl_inv_def)

lemma dd_graph_ex_edge: "(0, 1) \<in> dd_edges dd_graph_ex"
  using ddbv_ex_mem [of 1] by (simp add: dd_graph_ex_def graph_edges_def)

theorem isReachable_correct_witness:
  "\<exists>g'. isReachable ddbv_ops dd_graph_ex 0 (ddbv_ex 1) = Some (g', True)"
proof -
  have "\<exists>t\<in>ddbv_abs (ddbv_ex 1). (0, t) \<in> (dd_edges dd_graph_ex)\<^sup>*"
    using ddbv_ex_mem [of 1] dd_graph_ex_edge by auto
  then show ?thesis
    using isReachable_correct [OF dd_graph_ex_inv _ ddbv_ex_inv, of 0 1] by auto
qed

theorem findShortestPath_correct_witness:
  "\<exists>path' r. findShortestPath ddbv_ops ddbv_it_ops dd_graph_ex 0 (ddbv_ex 1) [0, 0] 2 = Some (path', r) \<and>
     r \<noteq> 0 \<and> path_to (dd_edges dd_graph_ex) 0 (ddbv_abs (ddbv_ex 1)) (take r path')"
proof -
  have "path_to (dd_edges dd_graph_ex) 0 (ddbv_abs (ddbv_ex 1)) [0, 1]"
    using ddbv_ex_mem [of 1] dd_graph_ex_edge by (simp add: path_to_def)
  then have "\<exists>ps. path_to (dd_edges dd_graph_ex) 0 (ddbv_abs (ddbv_ex 1)) ps \<and> length ps \<le> 2"
    by (intro exI [of _ "[0, 1]"]) simp
  then show ?thesis
    using findShortestPath_correct [OF dd_graph_ex_inv _ ddbv_ex_inv, of 0 1 2 "[0, 0]"] by auto
qed

theorem graph_edge_operations_witness:
  "hasEdge ddbv_ops dd_graph_ex 0 1 = Some True \<and>
   (\<exists>g'. removeEdge ddbv_ops dd_graph_ex 0 1 = Some (g', dd_edges g' \<noteq> dd_edges dd_graph_ex))"
  using graph_edge_operations [OF dd_graph_ex_inv _ _ ddbv_ex_inv, of 0 1 0] dd_graph_ex_edge by auto

theorem addEdges_correct_witness:
  "\<exists>g' added'. addEdges ddbv_ops dd_graph_ex (ddbv_ex 1) 0 [0] 1 =
     Some (g', added', min 1 (length (sorted_list_of_set
       {n \<in> ddbv_abs (ddbv_ex 1). (n, 0) \<notin> dd_edges dd_graph_ex}))) \<and>
     dd_edges g' = dd_edges dd_graph_ex \<union> ddbv_abs (ddbv_ex 1) \<times> {0}"
  using addEdges_correct [OF dd_graph_ex_inv ddbv_ex_inv, of 1 0 1 "[0]"] by auto

end
