(* ===== verification/Deadlock_Detector.thy ===== *)
theory Deadlock_Detector
  imports BV_Graph "HOL-Library.Multiset"
begin

text \<open>
  The deadlock detector of \<^verbatim>\<open>sanitizer_deadlock_detector.h\<close>: \<^verbatim>\<open>DeadlockDetectorTLS\<close>
  (the locks a thread holds) and \<^verbatim>\<open>DeadlockDetector\<close> (the lock graph, its free and recycled
  nodes, the log of edges and the epochs), over the method record of the bit vector.  A lock id and
  an index are natural numbers; a node and an epoch are 64-bit words, since the epoch is added to
  without a check.

  The locale \<open>detector\<close> proves that the thread state refines the multiset of held locks, that the
  detector's invariant is kept, that a new node is fresh, and that a lock event is reported exactly
  when it closes a cycle.
\<close>

section \<open>Array idioms\<close>

definition swap_at :: "'a list \<Rightarrow> nat \<Rightarrow> nat \<Rightarrow> 'a list option" where
  "swap_at xs i j = do {
     a \<leftarrow> arr_get xs i;
     b \<leftarrow> arr_get xs j;
     xs \<leftarrow> arr_set xs i b;
     arr_set xs j a }"

text \<open>\<^verbatim>\<open>for (sptr i = n - 1; i >= 0; i--) if (p(xs[i])) ...\<close>: the index the loop stops at.\<close>

primrec search_down :: "('a \<Rightarrow> bool) \<Rightarrow> 'a list \<Rightarrow> nat \<Rightarrow> nat option option" where
  "search_down p xs 0 = Some None"
| "search_down p xs (Suc i) = do {
     x \<leftarrow> arr_get xs i;
     if p x then Some (Some i) else search_down p xs i }"

text \<open>\<^verbatim>\<open>for (uptr i = 0; i < n; i++) if (p(xs[i])) ...\<close>: the element the loop stops at.\<close>

fun search_up :: "('a \<Rightarrow> bool) \<Rightarrow> 'a list \<Rightarrow> nat list \<Rightarrow> 'a option option" where
  "search_up p xs [] = Some None"
| "search_up p xs (i # is) = do {
     x \<leftarrow> arr_get xs i;
     if p x then Some (Some x) else search_up p xs is }"

section \<open>DeadlockDetectorTLS\<close>

record lock_with_context =
  lwc_lock :: u32
  lwc_stk :: u32

record 'bv dd_tls =
  dt_bv :: 'bv
  dt_epoch :: u64
  dt_recursive_locks :: "nat list"
  dt_n_recursive_locks :: nat
  dt_all_locks :: "lock_with_context list"
  dt_n_all_locks :: nat

definition tls_clear :: "'bv bv_ops \<Rightarrow> 'bv dd_tls \<Rightarrow> 'bv dd_tls" where
  "tls_clear ops t = t\<lparr>dt_bv := bv_clear ops (dt_bv t), dt_epoch := 0, dt_n_recursive_locks := 0,
     dt_n_all_locks := 0\<rparr>"

definition tls_empty :: "'bv bv_ops \<Rightarrow> 'bv dd_tls \<Rightarrow> bool" where
  "tls_empty ops t = bv_empty ops (dt_bv t)"

definition tls_ensureCurrentEpoch :: "'bv bv_ops \<Rightarrow> 'bv dd_tls \<Rightarrow> u64 \<Rightarrow> 'bv dd_tls" where
  "tls_ensureCurrentEpoch ops t current_epoch =
     (if dt_epoch t = current_epoch then t
      else t\<lparr>dt_bv := bv_clear ops (dt_bv t), dt_epoch := current_epoch, dt_n_recursive_locks := 0,
        dt_n_all_locks := 0\<rparr>)"

definition tls_addLock :: "'bv bv_ops \<Rightarrow> 'bv dd_tls \<Rightarrow> nat \<Rightarrow> u64 \<Rightarrow> u32 \<Rightarrow> ('bv dd_tls \<times> bool) option" where
  "tls_addLock ops t lock_id current_epoch stk = do {
     check (dt_epoch t = current_epoch);
     (bv, new) \<leftarrow> bv_setBit ops (dt_bv t) lock_id;
     if \<not> new then do {
       check (dt_n_recursive_locks t < 64);
       rl \<leftarrow> arr_set (dt_recursive_locks t) (dt_n_recursive_locks t) lock_id;
       Some (t\<lparr>dt_bv := bv, dt_recursive_locks := rl,
         dt_n_recursive_locks := dt_n_recursive_locks t + 1\<rparr>, False) }
     else do {
       check (dt_n_all_locks t < 64);
       al \<leftarrow> arr_set (dt_all_locks t) (dt_n_all_locks t) \<lparr>lwc_lock = word_of_nat lock_id, lwc_stk = stk\<rparr>;
       Some (t\<lparr>dt_bv := bv, dt_all_locks := al, dt_n_all_locks := dt_n_all_locks t + 1\<rparr>, True) } }"

definition tls_removeLock :: "'bv bv_ops \<Rightarrow> 'bv dd_tls \<Rightarrow> nat \<Rightarrow> 'bv dd_tls option" where
  "tls_removeLock ops t lock_id = do {
     hit \<leftarrow> search_down (\<lambda>l. l = lock_id) (dt_recursive_locks t) (dt_n_recursive_locks t);
     case hit of
       Some i \<Rightarrow> do {
         rl \<leftarrow> swap_at (dt_recursive_locks t) i (dt_n_recursive_locks t - 1);
         Some (t\<lparr>dt_recursive_locks := rl, dt_n_recursive_locks := dt_n_recursive_locks t - 1\<rparr>) }
     | None \<Rightarrow> do {
         (bv, was) \<leftarrow> bv_clearBit ops (dt_bv t) lock_id;
         if \<not> was then Some (t\<lparr>dt_bv := bv\<rparr>)
         else do {
           hit \<leftarrow> search_down (\<lambda>l. lwc_lock l = word_of_nat lock_id) (dt_all_locks t) (dt_n_all_locks t);
           case hit of
             None \<Rightarrow> Some (t\<lparr>dt_bv := bv\<rparr>)
           | Some i \<Rightarrow> do {
               al \<leftarrow> swap_at (dt_all_locks t) i (dt_n_all_locks t - 1);
               Some (t\<lparr>dt_bv := bv, dt_all_locks := al, dt_n_all_locks := dt_n_all_locks t - 1\<rparr>) } } } }"

definition tls_findLockContext :: "'bv dd_tls \<Rightarrow> nat \<Rightarrow> u32 option" where
  "tls_findLockContext t lock_id = do {
     hit \<leftarrow> search_up (\<lambda>l. lwc_lock l = word_of_nat lock_id) (dt_all_locks t) [0..<dt_n_all_locks t];
     Some (case hit of Some l \<Rightarrow> lwc_stk l | None \<Rightarrow> 0) }"

definition tls_getLocks :: "'bv dd_tls \<Rightarrow> u64 \<Rightarrow> 'bv option" where
  "tls_getLocks t current_epoch = do { check (dt_epoch t = current_epoch); Some (dt_bv t) }"

definition tls_getLock :: "'bv dd_tls \<Rightarrow> nat \<Rightarrow> nat option" where
  "tls_getLock t idx = map_option (\<lambda>l. unat (lwc_lock l)) (arr_get (dt_all_locks t) idx)"

section \<open>DeadlockDetector\<close>

record dd_edge =
  de_from :: "16 word"
  de_to :: "16 word"
  de_stk_from :: u32
  de_stk_to :: u32
  de_unique_tid :: "32 word"

record 'bv dd_state =
  dd_epoch :: u64
  dd_available :: 'bv
  dd_recycled :: 'bv
  dd_tmp :: 'bv
  dd_g :: "'bv bvgraph"
  dd_data :: "u64 list"
  dd_log :: "dd_edge list"
  dd_n_edges :: nat

definition dd_size :: "'bv bv_ops \<Rightarrow> u64" where
  "dd_size ops = word_of_nat (bv_size ops)"

definition nodeToIndexUnchecked :: "'bv bv_ops \<Rightarrow> u64 \<Rightarrow> nat" where
  "nodeToIndexUnchecked ops node = unat (node mod dd_size ops)"

definition nodeToEpoch :: "'bv bv_ops \<Rightarrow> u64 \<Rightarrow> u64" where
  "nodeToEpoch ops node = node div dd_size ops * dd_size ops"

definition check_node :: "'bv bv_ops \<Rightarrow> 'bv dd_state \<Rightarrow> u64 \<Rightarrow> unit option" where
  "check_node ops d node = do {
     check (dd_size ops \<le> node);
     check (dd_epoch d = nodeToEpoch ops node) }"

definition nodeToIndex :: "'bv bv_ops \<Rightarrow> 'bv dd_state \<Rightarrow> u64 \<Rightarrow> nat option" where
  "nodeToIndex ops d node = do { check_node ops d node; Some (nodeToIndexUnchecked ops node) }"

definition indexToNode :: "'bv bv_ops \<Rightarrow> 'bv dd_state \<Rightarrow> nat \<Rightarrow> u64 option" where
  "indexToNode ops d idx = do { check (idx < bv_size ops); Some (word_of_nat idx + dd_epoch d) }"

definition dd_clear :: "'bv bv_ops \<Rightarrow> 'bv dd_state \<Rightarrow> 'bv dd_state" where
  "dd_clear ops d = d\<lparr>dd_epoch := 0, dd_available := bv_clear ops (dd_available d),
     dd_recycled := bv_clear ops (dd_recycled d), dd_g := graph_clear ops (dd_g d), dd_n_edges := 0\<rparr>"

definition getAvailableNode :: "'bv bv_ops \<Rightarrow> 'bv dd_state \<Rightarrow> u64 \<Rightarrow> ('bv dd_state \<times> u64) option" where
  "getAvailableNode ops d data = do {
     (av, idx) \<leftarrow> bv_getAndClearFirstOne ops (dd_available d);
     dt \<leftarrow> arr_set (dd_data d) idx data;
     let d = d\<lparr>dd_available := av, dd_data := dt\<rparr>;
     node \<leftarrow> indexToNode ops d idx;
     Some (d, node) }"

text \<open>One iteration of the loop of \<^verbatim>\<open>newNode\<close> that drops the logged edges of recycled nodes.\<close>

definition purge_step :: "'bv bv_ops \<Rightarrow> 'bv \<Rightarrow> nat \<Rightarrow> dd_edge list \<times> nat \<Rightarrow> (dd_edge list \<times> nat) option" where
  "purge_step ops recycled i = (\<lambda>(es, n). do {
     e \<leftarrow> arr_get es i;
     from_hit \<leftarrow> bv_getBit ops recycled (unat (de_from e));
     hit \<leftarrow> (if from_hit then Some True else bv_getBit ops recycled (unat (de_to e)));
     if hit then do { es \<leftarrow> swap_at es i (n - 1); Some (es, n - 1) } else Some (es, n) })"

definition newNode :: "'bv bv_ops \<Rightarrow> 'bv dd_state \<Rightarrow> u64 \<Rightarrow> ('bv dd_state \<times> u64) option" where
  "newNode ops d data =
     (if \<not> bv_empty ops (dd_available d) then getAvailableNode ops d data
      else if \<not> bv_empty ops (dd_recycled d) then do {
        (es, n) \<leftarrow> foldM (purge_step ops (dd_recycled d)) (rev [0..<dd_n_edges d]) (dd_log d, dd_n_edges d);
        check (bv_empty ops (dd_available d));
        (g, _) \<leftarrow> removeEdgesTo ops (dd_g d) (dd_recycled d);
        (av, _) \<leftarrow> bv_setUnion ops (dd_available d) (dd_recycled d);
        getAvailableNode ops (d\<lparr>dd_log := es, dd_n_edges := n, dd_g := g, dd_available := av,
          dd_recycled := bv_clear ops (dd_recycled d)\<rparr>) data }
      else do {
        av \<leftarrow> bv_setAll ops (dd_available d);
        getAvailableNode ops (d\<lparr>dd_epoch := dd_epoch d + dd_size ops,
          dd_recycled := bv_clear ops (dd_recycled d), dd_available := av,
          dd_g := graph_clear ops (dd_g d), dd_n_edges := 0\<rparr>) data })"

definition dd_getData :: "'bv bv_ops \<Rightarrow> 'bv dd_state \<Rightarrow> u64 \<Rightarrow> u64 option" where
  "dd_getData ops d node = do { idx \<leftarrow> nodeToIndex ops d node; arr_get (dd_data d) idx }"

definition nodeBelongsToCurrentEpoch :: "'bv bv_ops \<Rightarrow> 'bv dd_state \<Rightarrow> u64 \<Rightarrow> bool" where
  "nodeBelongsToCurrentEpoch ops d node \<longleftrightarrow> node \<noteq> 0 \<and> node div dd_size ops * dd_size ops = dd_epoch d"

definition removeNode :: "'bv bv_ops \<Rightarrow> 'bv dd_state \<Rightarrow> u64 \<Rightarrow> 'bv dd_state option" where
  "removeNode ops d node = do {
     idx \<leftarrow> nodeToIndex ops d node;
     av \<leftarrow> bv_getBit ops (dd_available d) idx;
     check (\<not> av);
     (rec, new) \<leftarrow> bv_setBit ops (dd_recycled d) idx;
     check new;
     g \<leftarrow> removeEdgesFrom ops (dd_g d) idx;
     Some (d\<lparr>dd_recycled := rec, dd_g := g\<rparr>) }"

definition dd_ensureCurrentEpoch :: "'bv bv_ops \<Rightarrow> 'bv dd_state \<Rightarrow> 'bv dd_tls \<Rightarrow> 'bv dd_tls" where
  "dd_ensureCurrentEpoch ops d t = tls_ensureCurrentEpoch ops t (dd_epoch d)"

definition onLockBefore :: "'bv bv_ops \<Rightarrow> 'bv dd_state \<Rightarrow> 'bv dd_tls \<Rightarrow> u64 \<Rightarrow>
    ('bv dd_state \<times> 'bv dd_tls \<times> bool) option" where
  "onLockBefore ops d t cur_node = do {
     let t = dd_ensureCurrentEpoch ops d t;
     cur_idx \<leftarrow> nodeToIndex ops d cur_node;
     locks \<leftarrow> tls_getLocks t (dd_epoch d);
     (g, res) \<leftarrow> isReachable ops (dd_g d) cur_idx locks;
     Some (d\<lparr>dd_g := g\<rparr>, t, res) }"

definition dd_findLockContext :: "'bv bv_ops \<Rightarrow> 'bv dd_state \<Rightarrow> 'bv dd_tls \<Rightarrow> u64 \<Rightarrow> u32 option" where
  "dd_findLockContext ops d t node = do { idx \<leftarrow> nodeToIndex ops d node; tls_findLockContext t idx }"

definition onLockAfter :: "'bv bv_ops \<Rightarrow> 'bv dd_state \<Rightarrow> 'bv dd_tls \<Rightarrow> u64 \<Rightarrow> u32 \<Rightarrow> 'bv dd_tls option" where
  "onLockAfter ops d t cur_node stk = do {
     let t = dd_ensureCurrentEpoch ops d t;
     cur_idx \<leftarrow> nodeToIndex ops d cur_node;
     map_option fst (tls_addLock ops t cur_idx (dd_epoch d) stk) }"

fun hasAllEdges_loop :: "'bv bv_ops \<Rightarrow> 'bv bvgraph \<Rightarrow> 'bv dd_tls \<Rightarrow> nat \<Rightarrow> nat list \<Rightarrow> bool option" where
  "hasAllEdges_loop ops g t cur_idx [] = Some True"
| "hasAllEdges_loop ops g t cur_idx (i # is) = do {
     l \<leftarrow> tls_getLock t i;
     e \<leftarrow> hasEdge ops g l cur_idx;
     if \<not> e then Some False else hasAllEdges_loop ops g t cur_idx is }"

definition hasAllEdges :: "'bv bv_ops \<Rightarrow> 'bv dd_state \<Rightarrow> 'bv dd_tls \<Rightarrow> u64 \<Rightarrow> bool option" where
  "hasAllEdges ops d t cur_node =
     (if cur_node \<noteq> 0 \<and> dt_epoch t = dd_epoch d \<and> dt_epoch t = nodeToEpoch ops cur_node
      then hasAllEdges_loop ops (dd_g d) t (nodeToIndexUnchecked ops cur_node) [0..<dt_n_all_locks t]
      else Some False)"

definition log_step :: "'bv bv_ops \<Rightarrow> 'bv dd_tls \<Rightarrow> nat \<Rightarrow> u32 \<Rightarrow> 32 word \<Rightarrow> nat list \<Rightarrow> nat \<Rightarrow>
    dd_edge list \<times> nat \<Rightarrow> (dd_edge list \<times> nat) option" where
  "log_step ops t cur_idx stk unique_tid added_edges i = (\<lambda>(es, n).
     if n < bv_size ops * 32 then do {
       l \<leftarrow> arr_get added_edges i;
       ctx \<leftarrow> tls_findLockContext t l;
       es \<leftarrow> arr_set es n \<lparr>de_from = word_of_nat l, de_to = word_of_nat cur_idx, de_stk_from = ctx,
         de_stk_to = stk, de_unique_tid = unique_tid\<rparr>;
       Some (es, n + 1) }
     else Some (es, n))"

text \<open>The local array \<^verbatim>\<open>added_edges\<close> is uninitialised; only what \<^verbatim>\<open>addEdges\<close> stored is read.\<close>

definition dd_addEdges :: "'bv bv_ops \<Rightarrow> 'bv dd_state \<Rightarrow> 'bv dd_tls \<Rightarrow> u64 \<Rightarrow> u32 \<Rightarrow> 32 word \<Rightarrow>
    ('bv dd_state \<times> 'bv dd_tls \<times> nat) option" where
  "dd_addEdges ops d t cur_node stk unique_tid = do {
     let t = dd_ensureCurrentEpoch ops d t;
     cur_idx \<leftarrow> nodeToIndex ops d cur_node;
     locks \<leftarrow> tls_getLocks t (dd_epoch d);
     (g, added_edges, n_added_edges) \<leftarrow> addEdges ops (dd_g d) locks cur_idx (replicate 40 0) 40;
     (es, n) \<leftarrow> foldM (log_step ops t cur_idx stk unique_tid added_edges) [0..<n_added_edges]
       (dd_log d, dd_n_edges d);
     Some (d\<lparr>dd_g := g, dd_log := es, dd_n_edges := n\<rparr>, t, n_added_edges) }"

definition findEdge :: "'bv bv_ops \<Rightarrow> 'bv dd_state \<Rightarrow> u64 \<Rightarrow> u64 \<Rightarrow> dd_edge option option" where
  "findEdge ops d from_node to_node = do {
     from_idx \<leftarrow> nodeToIndex ops d from_node;
     to_idx \<leftarrow> nodeToIndex ops d to_node;
     search_up (\<lambda>e. unat (de_from e) = from_idx \<and> unat (de_to e) = to_idx) (dd_log d) [0..<dd_n_edges d] }"

definition isHeld :: "'bv bv_ops \<Rightarrow> 'bv dd_state \<Rightarrow> 'bv dd_tls \<Rightarrow> u64 \<Rightarrow> bool option" where
  "isHeld ops d t node = do {
     locks \<leftarrow> tls_getLocks t (dd_epoch d);
     idx \<leftarrow> nodeToIndex ops d node;
     bv_getBit ops locks idx }"

definition onLock :: "'bv bv_ops \<Rightarrow> 'bv dd_state \<Rightarrow> 'bv dd_tls \<Rightarrow> u64 \<Rightarrow> u32 \<Rightarrow>
    ('bv dd_state \<times> 'bv dd_tls \<times> bool) option" where
  "onLock ops d t cur_node stk = do {
     let t = dd_ensureCurrentEpoch ops d t;
     held \<leftarrow> isHeld ops d t cur_node;
     (d, t, is_reachable) \<leftarrow> (if held then Some (d, t, False) else onLockBefore ops d t cur_node);
     (d, t, _) \<leftarrow> dd_addEdges ops d t cur_node stk 0;
     t \<leftarrow> onLockAfter ops d t cur_node stk;
     Some (d, t, is_reachable) }"

definition onTryLock :: "'bv bv_ops \<Rightarrow> 'bv dd_state \<Rightarrow> 'bv dd_tls \<Rightarrow> u64 \<Rightarrow> u32 \<Rightarrow> ('bv dd_tls \<times> bool) option" where
  "onTryLock ops d t cur_node stk = do {
     let t = dd_ensureCurrentEpoch ops d t;
     cur_idx \<leftarrow> nodeToIndex ops d cur_node;
     (t, _) \<leftarrow> tls_addLock ops t cur_idx (dd_epoch d) stk;
     Some (t, False) }"

definition onFirstLock :: "'bv bv_ops \<Rightarrow> 'bv dd_tls \<Rightarrow> u64 \<Rightarrow> u32 \<Rightarrow> ('bv dd_tls \<times> bool) option" where
  "onFirstLock ops t node stk =
     (if \<not> tls_empty ops t then Some (t, False)
      else if dt_epoch t \<noteq> 0 \<and> dt_epoch t = nodeToEpoch ops node then do {
        (t, _) \<leftarrow> tls_addLock ops t (nodeToIndexUnchecked ops node) (nodeToEpoch ops node) stk;
        Some (t, True) }
      else Some (t, False))"

definition node_path_step :: "'bv bv_ops \<Rightarrow> 'bv dd_state \<Rightarrow> nat list \<Rightarrow> nat \<Rightarrow> u64 list \<Rightarrow> u64 list option" where
  "node_path_step ops d ipath i path = do {
     idx \<leftarrow> arr_get ipath i;
     node \<leftarrow> indexToNode ops d idx;
     arr_set path i node }"

text \<open>
  \<^verbatim>\<open>path\<close> first receives the indices of the path and then, in place, the nodes.  The model
  keeps the two phases in two lists of the same length.
\<close>

definition findPathToLock :: "'bv bv_ops \<Rightarrow> ('bv, 'it) bv_it_ops \<Rightarrow> 'bv dd_state \<Rightarrow> 'bv dd_tls \<Rightarrow> u64 \<Rightarrow> nat list \<Rightarrow> nat \<Rightarrow>
    ('bv dd_state \<times> u64 list \<times> nat) option" where
  "findPathToLock ops its d t cur_node path path_size = do {
     locks \<leftarrow> tls_getLocks t (dd_epoch d);
     tmp \<leftarrow> bv_copyFrom ops (dd_tmp d) locks;
     idx \<leftarrow> nodeToIndex ops d cur_node;
     held \<leftarrow> bv_getBit ops tmp idx;
     check (\<not> held);
     (path, res) \<leftarrow> findShortestPath ops its (dd_g d) idx tmp path path_size;
     npath \<leftarrow> foldM (node_path_step ops d path) [0..<res] (map word_of_nat path);
     (if res \<noteq> 0 then do { p0 \<leftarrow> arr_get npath 0; check (p0 = cur_node) } else Some ());
     Some (d\<lparr>dd_tmp := tmp\<rparr>, npath, res) }"

definition onUnlock :: "'bv bv_ops \<Rightarrow> 'bv dd_tls \<Rightarrow> u64 \<Rightarrow> 'bv dd_tls option" where
  "onUnlock ops t node =
     (if dt_epoch t = nodeToEpoch ops node then tls_removeLock ops t (nodeToIndexUnchecked ops node)
      else Some t)"

definition onLockFast :: "'bv bv_ops \<Rightarrow> 'bv dd_state \<Rightarrow> 'bv dd_tls \<Rightarrow> u64 \<Rightarrow> u32 \<Rightarrow> ('bv dd_tls \<times> bool) option" where
  "onLockFast ops d t node stk = do {
     all \<leftarrow> hasAllEdges ops d t node;
     if all then do {
       (t, _) \<leftarrow> tls_addLock ops t (nodeToIndexUnchecked ops node) (nodeToEpoch ops node) stk;
       Some (t, True) }
     else Some (t, False) }"

section \<open>The array idioms\<close>

lemma swap_at_ok:
  "i < length xs \<Longrightarrow> j < length xs \<Longrightarrow> swap_at xs i j = Some (xs[i := xs ! j, j := xs ! i])"
  by (simp add: swap_at_def)

lemma search_down_ok:
  "n \<le> length xs \<Longrightarrow> \<exists>r. search_down p xs n = Some r \<and>
    (case r of None \<Rightarrow> \<forall>x\<in>set (take n xs). \<not> p x | Some i \<Rightarrow> i < n \<and> p (xs ! i))"
proof (induction n)
  case (Suc n)
  then obtain r where r: "search_down p xs n = Some r"
    "case r of None \<Rightarrow> \<forall>x\<in>set (take n xs). \<not> p x | Some i \<Rightarrow> i < n \<and> p (xs ! i)"
    by auto
  then show ?case
    using Suc.prems by (cases "p (xs ! n)"; cases r) (auto simp: take_Suc_conv_app_nth)
qed simp

lemma search_up_ok:
  "n \<le> length xs \<Longrightarrow> search_up p xs [i..<n] = Some (List.find p (drop i (take n xs)))"
proof (induction "n - i" arbitrary: i)
  case 0
  then show ?case by simp
next
  case (Suc d)
  then have "i < n" "[i..<n] = i # [Suc i..<n]" "drop i (take n xs) = xs ! i # drop (Suc i) (take n xs)"
    by (simp_all add: upt_conv_Cons Cons_nth_drop_Suc [symmetric])
  then show ?case
    using Suc by simp
qed

lemma search_up_from_0: "n \<le> length xs \<Longrightarrow> search_up p xs [0..<n] = Some (List.find p (take n xs))"
  using search_up_ok [of n xs p 0] by simp

text \<open>Removal by a swap with the last element.\<close>

lemma swap_remove_mset:
  assumes "i < n" and "n \<le> length xs"
  shows "mset (take (n - 1) (xs[i := xs ! (n - 1), n - 1 := xs ! i])) = mset (take n xs) - {#xs ! i#}"
proof -
  let ?ys = "xs[i := xs ! (n - 1), n - 1 := xs ! i]"
  have "take n ?ys = (take n xs)[i := take n xs ! (n - 1), n - 1 := take n xs ! i]"
    using assms by (simp add: take_update_swap)
  also have "mset \<dots> = mset (take n xs)"
    using assms by (intro mset_swap) auto
  finally have m: "mset (take n ?ys) = mset (take n xs)" .
  have "take n ?ys = take (n - 1) ?ys @ [xs ! i]"
    using assms take_Suc_conv_app_nth [of "n - 1" ?ys] by simp
  then have "mset (take n ?ys) = add_mset (xs ! i) (mset (take (n - 1) ?ys))"
    by simp
  then show ?thesis
    unfolding m by simp
qed

lemma diff_single_left: "x \<notin># B \<Longrightarrow> A + B - {#x#} = A - {#x#} + B"
  by (cases "x \<in># A") (auto simp: diff_single_trivial dest!: multi_member_split)

lemma take_append_one: "n < length xs \<Longrightarrow> mset (take (Suc n) (xs[n := x])) = add_mset x (mset (take n xs))"
  by (simp add: take_Suc_conv_app_nth)

section \<open>The thread state as a multiset of locks\<close>

definition tls_ok :: "('bv \<Rightarrow> bool) \<Rightarrow> ('bv \<Rightarrow> nat set) \<Rightarrow> 'bv dd_tls \<Rightarrow> bool" where
  "tls_ok ok \<alpha> t \<longleftrightarrow> ok (dt_bv t) \<and>
     length (dt_recursive_locks t) = 64 \<and> dt_n_recursive_locks t \<le> 64 \<and>
     length (dt_all_locks t) = 64 \<and> dt_n_all_locks t \<le> 64 \<and>
     set (take (dt_n_recursive_locks t) (dt_recursive_locks t)) \<subseteq> \<alpha> (dt_bv t) \<and>
     image_mset (\<lambda>l. unat (lwc_lock l)) (mset (take (dt_n_all_locks t) (dt_all_locks t))) = mset_set (\<alpha> (dt_bv t))"

definition tls_held :: "('bv \<Rightarrow> nat set) \<Rightarrow> 'bv dd_tls \<Rightarrow> nat multiset" where
  "tls_held \<alpha> t = mset_set (\<alpha> (dt_bv t)) + mset (take (dt_n_recursive_locks t) (dt_recursive_locks t))"

locale detector = bv_graph ops shape inv abs its it_inv it_abs
  for ops :: "'bv bv_ops" and shape inv abs and its :: "('bv, 'it) bv_it_ops" and it_inv it_abs +
  assumes N_short: "bv_size ops \<le> 2 ^ 16" and N_dvd: "bv_size ops dvd 2 ^ 64"
begin

abbreviation "Tok \<equiv> tls_ok inv abs"
abbreviation "held \<equiv> tls_held abs"

lemma TokD:
  assumes "Tok t"
  shows "inv (dt_bv t)" and "length (dt_recursive_locks t) = 64" and "dt_n_recursive_locks t \<le> 64"
    and "length (dt_all_locks t) = 64" and "dt_n_all_locks t \<le> 64"
    and "set (take (dt_n_recursive_locks t) (dt_recursive_locks t)) \<subseteq> abs (dt_bv t)"
    and "image_mset (\<lambda>l. unat (lwc_lock l)) (mset (take (dt_n_all_locks t) (dt_all_locks t))) = mset_set (abs (dt_bv t))"
  using assms by (auto simp: tls_ok_def)

lemma set_mset_held: "Tok t \<Longrightarrow> set_mset (held t) = abs (dt_bv t)"
  using TokD(6) finite_abs [OF TokD(1)] by (auto simp: tls_held_def)

lemma n_all_locks_card:
  assumes "Tok t"
  shows "dt_n_all_locks t = card (abs (dt_bv t))"
  using arg_cong [OF TokD(7) [OF assms], of size] TokD(4,5) [OF assms] by simp

lemma unat_short: "i < N \<Longrightarrow> unat (word_of_nat i :: u32) = i"
  using N_short by (simp add: unat_of_nat)

lemma lock_eq_iff: "i < N \<Longrightarrow> lwc_lock l = word_of_nat i \<longleftrightarrow> unat (lwc_lock l) = i"
  using unat_short [of i] word_unat_eq_iff [of "lwc_lock l" "word_of_nat i"] by simp

lemma tls_empty_ok: "Tok t \<Longrightarrow> tls_empty ops t \<longleftrightarrow> held t = {#}"
  using set_mset_held [of t] by (simp add: tls_empty_def empty_ok TokD(1) flip: set_mset_eq_empty_iff)

lemma tls_clear_ok:
  assumes "shape (dt_bv t)" and "length (dt_recursive_locks t) = 64" and "length (dt_all_locks t) = 64"
  shows "Tok (tls_clear ops t) \<and> held (tls_clear ops t) = {#} \<and> dt_epoch (tls_clear ops t) = 0"
  using assms clear_ok [OF assms(1)] by (simp add: tls_clear_def tls_ok_def tls_held_def)

lemma tls_ensure_ok:
  assumes "Tok t"
  shows "Tok (tls_ensureCurrentEpoch ops t e) \<and> dt_epoch (tls_ensureCurrentEpoch ops t e) = e \<and>
    held (tls_ensureCurrentEpoch ops t e) = (if dt_epoch t = e then held t else {#})"
  using assms clear_ok [OF inv_shape [OF TokD(1) [OF assms]]]
  by (simp add: tls_ensureCurrentEpoch_def tls_ok_def tls_held_def)

lemma tls_addLock_ok:
  assumes "Tok t" and "l < N" and "dt_epoch t = e"
    and "if l \<in># held t then dt_n_recursive_locks t < 64 else dt_n_all_locks t < 64"
  shows "\<exists>t'. tls_addLock ops t l e stk = Some (t', l \<notin># held t) \<and> Tok t' \<and> dt_epoch t' = e \<and>
    held t' = add_mset l (held t)"
proof -
  note t = TokD [OF assms(1)] and h = set_mset_held [OF assms(1)]
  obtain bv where bv: "bv_setBit ops (dt_bv t) l = Some (bv, l \<notin> abs (dt_bv t))" "inv bv"
    "abs bv = insert l (abs (dt_bv t))"
    using setBit_ok [OF t(1) assms(2)] by blast
  have fin: "finite (abs (dt_bv t))"
    by (rule finite_abs [OF t(1)])
  show ?thesis
  proof (cases "l \<in> abs (dt_bv t)")
    case True
    then have n: "dt_n_recursive_locks t < 64"
      using assms(4) h by simp
    let ?t = "t\<lparr>dt_bv := bv, dt_recursive_locks := (dt_recursive_locks t)[dt_n_recursive_locks t := l],
      dt_n_recursive_locks := dt_n_recursive_locks t + 1\<rparr>"
    have eq: "abs bv = abs (dt_bv t)"
      using True bv(3) by auto
    have m: "mset (take (Suc (dt_n_recursive_locks t)) ((dt_recursive_locks t)[dt_n_recursive_locks t := l])) =
      add_mset l (mset (take (dt_n_recursive_locks t) (dt_recursive_locks t)))"
      using n t(2) by (simp add: take_append_one)
    have "tls_addLock ops t l e stk = Some (?t, False)"
      using assms(3) n bv(1) t(2) True by (simp add: tls_addLock_def check_def)
    moreover have "Tok ?t"
      using t bv(2) n True arg_cong [OF m, of set_mset] by (simp add: tls_ok_def eq)
    moreover have "held ?t = add_mset l (held t)"
      using m by (simp add: tls_held_def eq)
    ultimately show ?thesis
      using assms(3) True h by auto
  next
    case False
    then have n: "dt_n_all_locks t < 64"
      using assms(4) h by simp
    let ?t = "t\<lparr>dt_bv := bv, dt_all_locks := (dt_all_locks t)[dt_n_all_locks t := \<lparr>lwc_lock = word_of_nat l, lwc_stk = stk\<rparr>],
      dt_n_all_locks := dt_n_all_locks t + 1\<rparr>"
    have eq: "mset_set (abs bv) = add_mset l (mset_set (abs (dt_bv t)))"
      using False bv(3) fin by simp
    have "tls_addLock ops t l e stk = Some (?t, True)"
      using assms(3) n bv(1) t(4) False by (simp add: tls_addLock_def check_def)
    moreover have "Tok ?t"
      using t bv(2) n eq subset_insertI2 [OF t(6), of l]
      by (simp add: tls_ok_def take_append_one unat_short [OF assms(2)] flip: bv(3))
    moreover have "held ?t = add_mset l (held t)"
      by (simp add: tls_held_def eq)
    ultimately show ?thesis
      using assms(3) False h by auto
  qed
qed

lemma tls_addLock_full:
  assumes "Tok t" and "l < N"
    and "\<not> (if l \<in># held t then dt_n_recursive_locks t < 64 else dt_n_all_locks t < 64)"
  shows "tls_addLock ops t l e stk = None"
proof -
  obtain bv where "bv_setBit ops (dt_bv t) l = Some (bv, l \<notin># held t)"
    using setBit_ok [OF TokD(1) [OF assms(1)] assms(2)] set_mset_held [OF assms(1)] by auto
  then show ?thesis
    using assms(3) by (cases "l \<in># held t") (simp_all add: tls_addLock_def check_def)
qed

lemma tls_removeLock_ok:
  assumes "Tok t" and "l < N"
  shows "\<exists>t'. tls_removeLock ops t l = Some t' \<and> Tok t' \<and> dt_epoch t' = dt_epoch t \<and>
    held t' = held t - {#l#}"
proof -
  note t = TokD [OF assms(1)]
  let ?rl = "dt_recursive_locks t" and ?n = "dt_n_recursive_locks t"
  let ?al = "dt_all_locks t" and ?m = "dt_n_all_locks t"
  obtain r where r: "search_down (\<lambda>x. x = l) ?rl ?n = Some r"
    "case r of None \<Rightarrow> \<forall>x\<in>set (take ?n ?rl). x \<noteq> l | Some i \<Rightarrow> i < ?n \<and> ?rl ! i = l"
    using search_down_ok [of ?n ?rl "\<lambda>x. x = l"] t(2,3) by auto
  show ?thesis
  proof (cases r)
    case (Some i)
    then have i: "i < ?n" "?rl ! i = l"
      using r(2) by auto
    let ?ys = "?rl[i := ?rl ! (?n - 1), ?n - 1 := ?rl ! i]"
    let ?t = "t\<lparr>dt_recursive_locks := ?ys, dt_n_recursive_locks := ?n - 1\<rparr>"
    have m: "mset (take (?n - 1) ?ys) = mset (take ?n ?rl) - {#l#}"
      using swap_remove_mset [of i ?n ?rl] i t(2,3) by simp
    have "set (take (?n - 1) ?ys) \<subseteq> set (take ?n ?rl)"
      using arg_cong [OF m, of set_mset] by (auto dest: in_diffD)
    then have "Tok ?t"
      using t by (auto simp: tls_ok_def)
    moreover have "l \<in># mset (take ?n ?rl)"
      using i t(2,3) by (auto simp: in_set_conv_nth intro!: exI [of _ i])
    then have "held ?t = held t - {#l#}"
      using m by (simp add: tls_held_def)
    moreover have "tls_removeLock ops t l = Some ?t"
      using r(1) Some i t(2,3) by (simp add: tls_removeLock_def swap_at_ok)
    ultimately show ?thesis
      by auto
  next
    case None
    then have notin: "l \<notin># mset (take ?n ?rl)"
      using r(2) by auto
    then have held: "held t - {#l#} = mset_set (abs (dt_bv t)) - {#l#} + mset (take ?n ?rl)"
      unfolding tls_held_def by (rule diff_single_left)
    obtain bv where bv: "bv_clearBit ops (dt_bv t) l = Some (bv, l \<in> abs (dt_bv t))" "inv bv"
      "abs bv = abs (dt_bv t) - {l}"
      using clearBit_ok [OF t(1) assms(2)] by blast
    have ms: "mset_set (abs bv) = mset_set (abs (dt_bv t)) - {#l#}"
      unfolding bv(3) using finite_abs [OF t(1)] by (cases "l \<in> abs (dt_bv t)") (simp_all add: mset_set_Diff)
    have sub: "set (take ?n ?rl) \<subseteq> abs bv"
      using t(6) notin bv(3) by auto
    show ?thesis
    proof (cases "l \<in> abs (dt_bv t)")
      case False
      then have "tls_removeLock ops t l = Some (t\<lparr>dt_bv := bv\<rparr>)"
        using r(1) None bv(1) by (simp add: tls_removeLock_def)
      moreover have "abs bv = abs (dt_bv t)"
        using False bv(3) by auto
      ultimately show ?thesis
        using t bv(2) ms held by (simp add: tls_ok_def tls_held_def)
    next
      case True
      then have "l \<in># image_mset (\<lambda>l. unat (lwc_lock l)) (mset (take ?m ?al))"
        unfolding t(7) using finite_abs [OF t(1)] by simp
      then obtain i where i: "search_down (\<lambda>x. lwc_lock x = word_of_nat l) ?al ?m = Some (Some i)"
        "i < ?m" "unat (lwc_lock (?al ! i)) = l"
        using search_down_ok [of ?m ?al "\<lambda>x. lwc_lock x = word_of_nat l"] t(4,5) lock_eq_iff [OF assms(2)]
        by (auto split: option.splits)
      let ?ys = "?al[i := ?al ! (?m - 1), ?m - 1 := ?al ! i]"
      let ?t = "t\<lparr>dt_bv := bv, dt_all_locks := ?ys, dt_n_all_locks := ?m - 1\<rparr>"
      have "image_mset (\<lambda>l. unat (lwc_lock l)) (mset (take (?m - 1) ?ys)) = mset_set (abs bv)"
        using swap_remove_mset [of i ?m ?al] i t(4,5) nth_mem [of i "take ?m ?al"]
        by (simp add: ms image_mset_Diff flip: t(7))
      then have "Tok ?t"
        using t bv(2) sub by (simp add: tls_ok_def)
      moreover have "tls_removeLock ops t l = Some ?t"
        using r(1) None bv(1) True i t(4,5) by (simp add: tls_removeLock_def swap_at_ok)
      ultimately show ?thesis
        using held ms by (simp add: tls_held_def)
    qed
  qed
qed

end

section \<open>The invariant of the detector\<close>

definition dd_live :: "'bv bv_ops \<Rightarrow> ('bv \<Rightarrow> nat set) \<Rightarrow> 'bv dd_state \<Rightarrow> nat set" where
  "dd_live ops \<alpha> d = {..<bv_size ops} - \<alpha> (dd_available d) - \<alpha> (dd_recycled d)"

text \<open>
  A logged edge joins two indices that are not available, and is an edge of the graph unless its
  source has been recycled.
\<close>

definition log_ok :: "'bv bv_ops \<Rightarrow> ('bv \<Rightarrow> nat set) \<Rightarrow> 'bv dd_state \<Rightarrow> dd_edge \<Rightarrow> bool" where
  "log_ok ops \<alpha> d e \<longleftrightarrow> unat (de_from e) \<in> {..<bv_size ops} - \<alpha> (dd_available d) \<and>
     unat (de_to e) \<in> {..<bv_size ops} - \<alpha> (dd_available d) \<and>
     (unat (de_from e) \<in> \<alpha> (dd_recycled d) \<or>
      (unat (de_from e), unat (de_to e)) \<in> graph_edges \<alpha> (dd_g d))"

definition dd_ok :: "'bv bv_ops \<Rightarrow> ('bv \<Rightarrow> bool) \<Rightarrow> ('bv \<Rightarrow> bool) \<Rightarrow> ('bv \<Rightarrow> nat set) \<Rightarrow> 'bv dd_state \<Rightarrow> bool" where
  "dd_ok ops shape ok \<alpha> d \<longleftrightarrow> ok (dd_available d) \<and> ok (dd_recycled d) \<and> shape (dd_tmp d) \<and>
     graph_inv ops shape ok (dd_g d) \<and> length (dd_data d) = bv_size ops \<and>
     length (dd_log d) = bv_size ops * 32 \<and> dd_n_edges d \<le> bv_size ops * 32 \<and>
     bv_size ops dvd unat (dd_epoch d) \<and>
     \<alpha> (dd_available d) \<inter> \<alpha> (dd_recycled d) = {} \<and>
     graph_edges \<alpha> (dd_g d) \<subseteq> dd_live ops \<alpha> d \<times> (dd_live ops \<alpha> d \<union> \<alpha> (dd_recycled d)) \<and>
     list_all (log_ok ops \<alpha> d) (take (dd_n_edges d) (dd_log d)) \<and>
     (dd_epoch d = 0 \<longrightarrow> \<alpha> (dd_available d) = {} \<and> \<alpha> (dd_recycled d) = {})"


context detector
begin

abbreviation "Dok \<equiv> dd_ok ops shape inv abs"
abbreviation "live \<equiv> dd_live ops abs"

lemma DokD:
  assumes "Dok d"
  shows "inv (dd_available d)" and "inv (dd_recycled d)" and "shape (dd_tmp d)" and "Ginv (dd_g d)"
    and "length (dd_data d) = N" and "length (dd_log d) = N * 32" and "dd_n_edges d \<le> N * 32"
    and "N dvd unat (dd_epoch d)" and "abs (dd_available d) \<inter> abs (dd_recycled d) = {}"
    and "E (dd_g d) \<subseteq> live d \<times> (live d \<union> abs (dd_recycled d))"
    and "list_all (log_ok ops abs d) (take (dd_n_edges d) (dd_log d))"
    and "dd_epoch d = 0 \<Longrightarrow> abs (dd_available d) = {} \<and> abs (dd_recycled d) = {}"
  using assms by (auto simp: dd_ok_def)

subsection \<open>Nodes and indices\<close>

lemma unat_dd_size: "unat (dd_size ops) = N"
  using N_short by (simp add: dd_size_def unat_of_nat)

lemma unat_nodeToEpoch: "unat (nodeToEpoch ops node) = unat node div N * N"
proof -
  have "unat node div N * N < 2 ^ 64"
    by (rule le_less_trans [OF div_times_less_eq_dividend]) (use unsigned_less [of node, where 'a = nat] in simp)
  then show ?thesis
    by (simp add: nodeToEpoch_def unat_word_ariths(2) unat_div unat_dd_size)
qed

lemma nodeToIndexUnchecked_eq: "nodeToIndexUnchecked ops node = unat node mod N"
  by (simp add: nodeToIndexUnchecked_def unat_mod unat_dd_size)

lemma nodeToIndex_eq_Some:
  "nodeToIndex ops d node = Some i \<longleftrightarrow> N \<le> unat node \<and> nodeToEpoch ops node = dd_epoch d \<and> i = unat node mod N"
  by (auto simp: nodeToIndex_def check_node_def check_def nodeToIndexUnchecked_eq word_le_nat_alt unat_dd_size)

lemma nodeToIndex_less: "nodeToIndex ops d node = Some i \<Longrightarrow> i < N"
  using size_pos by (simp add: nodeToIndex_eq_Some)

lemma epoch_room:
  assumes "N dvd unat (e :: u64)" and "e \<noteq> 0"
  shows "N \<le> unat e" and "unat e + N \<le> 2 ^ 64"
proof -
  obtain k where k: "unat e = N * k"
    using assms(1) by blast
  then show "N \<le> unat e"
    using assms(2) by (cases k) (auto simp: unat_eq_0)
  obtain m where m: "2 ^ 64 = N * m"
    using N_dvd by blast
  then have "N * k < N * m"
    using unsigned_less [of e, where 'a = nat] k by simp
  then have "Suc k \<le> m"
    by simp
  then have "N * Suc k \<le> N * m"
    by (rule mult_le_mono2)
  then show "unat e + N \<le> 2 ^ 64"
    unfolding m k by simp
qed

lemma indexToNode_ok:
  assumes "i < N" and "N dvd unat (dd_epoch d)" and "dd_epoch d \<noteq> 0"
  shows "\<exists>node. indexToNode ops d i = Some node \<and> nodeToIndex ops d node = Some i \<and>
    nodeBelongsToCurrentEpoch ops d node"
proof -
  let ?n = "word_of_nat i + dd_epoch d :: u64"
  note room = epoch_room [OF assms(2,3)]
  have "unat (word_of_nat i :: u64) = i"
    using assms(1) N_short by (simp add: unat_of_nat)
  then have n: "unat ?n = unat (dd_epoch d) + i"
    using room(2) assms(1) by (simp add: unat_word_ariths(1))
  obtain k where k: "unat (dd_epoch d) = N * k"
    using assms(2) by blast
  have "unat (nodeToEpoch ops ?n) = unat (dd_epoch d)"
    unfolding unat_nodeToEpoch n k using assms(1) by simp
  then have e: "nodeToEpoch ops ?n = dd_epoch d"
    by (simp add: word_unat_eq_iff)
  moreover have "i = unat ?n mod N"
    unfolding n k using assms(1) by simp
  moreover have "?n \<noteq> 0"
    using n room(1) size_pos by (metis add_is_0 leD unat_0)
  ultimately show ?thesis
    using n room(1) assms(1)
    by (simp add: indexToNode_def check_def nodeToIndex_eq_Some nodeBelongsToCurrentEpoch_def
        nodeToEpoch_def [symmetric])
qed

lemma nodeBelongs_iff:
  assumes "Dok d" and "dd_epoch d \<noteq> 0"
  shows "nodeBelongsToCurrentEpoch ops d node \<longleftrightarrow> (\<exists>i. nodeToIndex ops d node = Some i)"
proof -
  have "N \<le> unat node" if "nodeToEpoch ops node = dd_epoch d"
  proof -
    have "N \<le> unat (nodeToEpoch ops node)"
      unfolding that by (rule epoch_room [OF DokD(8) [OF assms(1)] assms(2)])
    then show ?thesis
      unfolding unat_nodeToEpoch using div_times_less_eq_dividend [of "unat node" N] by linarith
  qed
  moreover have "node \<noteq> 0" if "N \<le> unat node"
    using that size_pos by auto
  ultimately show ?thesis
    by (auto simp: nodeBelongsToCurrentEpoch_def nodeToIndex_eq_Some nodeToEpoch_def [symmetric])
qed

subsection \<open>Creating and removing nodes\<close>

lemma dd_clear_ok:
  assumes "shape (dd_available d)" and "shape (dd_recycled d)" and "shape (dd_tmp d)"
    and "length (gr_v (dd_g d)) = N" and "list_all shape (gr_v (dd_g d))" and "shape (gr_t1 (dd_g d))"
    and "shape (gr_t2 (dd_g d))" and "length (dd_data d) = N" and "length (dd_log d) = N * 32"
  shows "Dok (dd_clear ops d) \<and> E (dd_g (dd_clear ops d)) = {} \<and> dd_epoch (dd_clear ops d) = 0"
  using assms clear_ok [OF assms(1)] clear_ok [OF assms(2)] graph_clear_ok [OF assms(4-7)]
  by (simp add: dd_clear_def dd_ok_def)

lemma purge_ok:
  assumes "inv rec" and "n \<le> length es" and "list_all (\<lambda>e. unat (de_from e) < N \<and> unat (de_to e) < N) (take n es)"
  shows "\<exists>es' n'. foldM (purge_step ops rec) (rev [0..<n]) (es, n) = Some (es', n') \<and>
    length es' = length es \<and> n' \<le> n \<and>
    mset (take n' es') = filter_mset (\<lambda>e. unat (de_from e) \<notin> abs rec \<and> unat (de_to e) \<notin> abs rec) (mset (take n es))"
proof -
  let ?keep = "\<lambda>e. unat (de_from e) \<notin> abs rec \<and> unat (de_to e) \<notin> abs rec"
  define I where "I i s \<longleftrightarrow> length (fst s) = length es \<and> i \<le> snd s \<and> snd s \<le> n \<and> take i (fst s) = take i es \<and>
      mset (take (snd s) (fst s)) = mset (take i es) + filter_mset ?keep (mset (drop i (take n es)))" for i and s :: "dd_edge list \<times> nat"
  have "\<exists>s. foldM (purge_step ops rec) (rev [0..<n]) (es, n) = Some s \<and> I 0 s"
  proof (rule foldM_rev_upt_invariant)
    show "I n (es, n)"
      using assms(2) by (simp add: I_def)
  next
    fix i and s :: "dd_edge list \<times> nat"
    assume i: "i < n" and I: "I (Suc i) s"
    obtain xs m where s: "s = (xs, m)" by fastforce
    have xs: "length xs = length es" "i < m" "m \<le> n" "take (Suc i) xs = take (Suc i) es"
      "mset (take m xs) = mset (take (Suc i) es) + filter_mset ?keep (mset (drop (Suc i) (take n es)))"
      using I by (simp_all add: I_def s)
    have e: "xs ! i = es ! i" "take i xs = take i es"
      using xs(1,4) i assms(2) by (simp_all add: take_Suc_conv_app_nth)
    have d: "drop i (take n es) = es ! i # drop (Suc i) (take n es)" "take (Suc i) es = take i es @ [es ! i]"
      using i assms(2) by (simp_all add: Cons_nth_drop_Suc [symmetric] take_Suc_conv_app_nth)
    have b: "unat (de_from (es ! i)) < N" "unat (de_to (es ! i)) < N"
      using assms(2,3) i by (auto simp: list_all_length)
    have step: "purge_step ops rec i s = (if ?keep (es ! i) then Some (xs, m)
        else do { ys \<leftarrow> swap_at xs i (m - 1); Some (ys, m - 1) })"
      using getBit_ok [OF assms(1) b(1)] getBit_ok [OF assms(1) b(2)] xs(1,2,3) i assms(2)
      by (simp add: purge_step_def s e)
    show "\<exists>s'. purge_step ops rec i s = Some s' \<and> I i s'"
    proof (cases "?keep (es ! i)")
      case True
      then show ?thesis
        using xs e(2) unfolding step by (simp add: I_def d)
    next
      case False
      let ?ys = "xs[i := xs ! (m - 1), m - 1 := xs ! i]"
      have "mset (take (m - 1) ?ys) = mset (take m xs) - {#es ! i#}"
        using swap_remove_mset [of i m xs] xs(1,2,3) assms(2) e(1) by simp
      moreover have "i \<le> m - Suc 0" "m - Suc 0 \<le> n"
        using xs(2,3) by linarith+
      ultimately have "I i (?ys, m - 1)"
        using False xs(1,5) e(2) by (simp add: I_def d)
      moreover have "swap_at xs i (m - 1) = Some ?ys"
        using xs(1,2,3) assms(2) by (simp add: swap_at_ok)
      ultimately show ?thesis
        using False unfolding step by auto
    qed
  qed
  then show ?thesis
    by (auto simp: I_def)
qed

lemma getAvailableNode_ok:
  assumes "Dok d" and "abs (dd_available d) \<noteq> {}"
  shows "\<exists>d' node idx. getAvailableNode ops d data = Some (d', node) \<and> Dok d' \<and> nodeToIndex ops d' node = Some idx \<and>
    nodeBelongsToCurrentEpoch ops d' node \<and> dd_getData ops d' node = Some data \<and>
    idx \<notin> live d \<and> live d' = insert idx (live d) \<and> idx \<notin> Domain (E (dd_g d)) \<union> Range (E (dd_g d)) \<and>
    dd_epoch d' = dd_epoch d \<and> dd_g d' = dd_g d \<and> (\<forall>i\<in>live d. dd_data d' ! i = dd_data d ! i)"
proof -
  note d = DokD [OF assms(1)]
  let ?i = "Min (abs (dd_available d))"
  have i: "?i \<in> abs (dd_available d)"
    using Min_in [OF finite_abs [OF d(1)] assms(2)] .
  then have lt: "?i < N" and ep: "dd_epoch d \<noteq> 0"
    using abs_less [OF d(1)] d(12) by auto
  obtain av where av: "bv_getAndClearFirstOne ops (dd_available d) = Some (av, ?i)" "inv av"
    "abs av = abs (dd_available d) - {?i}"
    using first_ok [OF d(1) assms(2)] by blast
  let ?d = "d\<lparr>dd_available := av, dd_data := (dd_data d)[?i := data]\<rparr>"
  have lv: "live ?d = insert ?i (live d)"
    using av(3) i lt d(9) by (auto simp: dd_live_def)
  obtain node where n: "indexToNode ops ?d ?i = Some node" "nodeToIndex ops ?d node = Some ?i"
    "nodeBelongsToCurrentEpoch ops ?d node"
    using indexToNode_ok [OF lt, of ?d] d(8) ep by auto
  have "getAvailableNode ops d data = Some (?d, node)"
    using av(1) lt d(5) n(1) by (simp add: getAvailableNode_def)
  moreover have "Dok ?d"
    using d av(2,3) lv ep by (auto simp: dd_ok_def log_ok_def list_all_iff)
  moreover have "dd_getData ops ?d node = Some data"
    using n(2) lt d(5) by (simp add: dd_getData_def)
  moreover have "?i \<notin> live d" "?i \<notin> Domain (E (dd_g d)) \<union> Range (E (dd_g d))"
    using i d(9,10) by (auto simp: dd_live_def)
  moreover from this(1) have "\<forall>i\<in>live d. dd_data ?d ! i = dd_data d ! i"
    by (auto intro!: nth_list_update_neq)
  ultimately show ?thesis
    using n(2,3) lv by (intro exI [of _ ?d] exI [of _ node] exI [of _ ?i]) simp
qed

lemma recycle_ok:
  assumes "Dok d" and "abs (dd_available d) = {}" and "abs (dd_recycled d) \<noteq> {}"
  shows "\<exists>d1. newNode ops d data = getAvailableNode ops d1 data \<and> Dok d1 \<and>
    abs (dd_available d1) = abs (dd_recycled d) \<and> abs (dd_recycled d1) = {} \<and>
    E (dd_g d1) = E (dd_g d) - UNIV \<times> abs (dd_recycled d) \<and>
    dd_epoch d1 = dd_epoch d \<and> dd_data d1 = dd_data d"
proof -
  note d = DokD [OF assms(1)]
  have "list_all (\<lambda>e. unat (de_from e) < N \<and> unat (de_to e) < N) (take (dd_n_edges d) (dd_log d))"
    using d(11) by (auto simp: list_all_iff log_ok_def)
  then obtain es n where p: "foldM (purge_step ops (dd_recycled d)) (rev [0..<dd_n_edges d]) (dd_log d, dd_n_edges d) = Some (es, n)"
    "length es = length (dd_log d)" "n \<le> dd_n_edges d"
    and m: "mset (take n es) = filter_mset (\<lambda>e. unat (de_from e) \<notin> abs (dd_recycled d) \<and> unat (de_to e) \<notin> abs (dd_recycled d)) (mset (take (dd_n_edges d) (dd_log d)))"
    using purge_ok [OF d(2), of "dd_n_edges d" "dd_log d"] d(6,7) by auto
  obtain g b where g: "removeEdgesTo ops (dd_g d) (dd_recycled d) = Some (g, b)" "Ginv g"
    "E g = E (dd_g d) - UNIV \<times> abs (dd_recycled d)"
    using removeEdgesTo_ok [OF d(4,2)] by blast
  obtain av c where av: "bv_setUnion ops (dd_available d) (dd_recycled d) = Some (av, c)" "inv av"
    "abs av = abs (dd_recycled d)"
    using setUnion_ok [OF d(1,2)] assms(2) by auto
  note cl = clear_ok [OF inv_shape [OF d(2)]]
  let ?d1 = "d\<lparr>dd_log := es, dd_n_edges := n, dd_g := g, dd_available := av,
    dd_recycled := bv_clear ops (dd_recycled d)\<rparr>"
  have lv: "live ?d1 = live d"
    using av(3) cl assms(2) by (simp add: dd_live_def)
  have "log_ok ops abs ?d1 e" if "e \<in> set (take n es)" for e
  proof -
    have "e \<in># mset (take n es)"
      using that by simp
    then have "log_ok ops abs d e" "unat (de_from e) \<notin> abs (dd_recycled d)" "unat (de_to e) \<notin> abs (dd_recycled d)"
      using d(11) unfolding m by (auto simp: list_all_iff)
    then show ?thesis
      using av(3) g(3) by (auto simp: log_ok_def)
  qed
  then have "Dok ?d1"
    using d(3-10) av(2,3) cl g(2,3) p(2,3) lv d(12) assms(3) by (auto simp: dd_ok_def list_all_iff)
  moreover have "newNode ops d data = getAvailableNode ops ?d1 data"
    using p(1) g(1) av(1) empty_ok [OF d(1)] empty_ok [OF d(2)] assms(2,3)
    by (simp add: newNode_def check_def)
  ultimately show ?thesis
    using av(3) cl g(3) by (intro exI [of _ ?d1]) simp
qed

lemma flush_ok:
  assumes "Dok d" and "abs (dd_available d) = {}" and "abs (dd_recycled d) = {}"
    and "unat (dd_epoch d) + N < 2 ^ 64"
  shows "\<exists>d1. newNode ops d data = getAvailableNode ops d1 data \<and> Dok d1 \<and>
    abs (dd_available d1) = {..<N} \<and> E (dd_g d1) = {} \<and> dd_epoch d1 = dd_epoch d + dd_size ops"
proof -
  note d = DokD [OF assms(1)]
  obtain av where av: "bv_setAll ops (dd_available d) = Some av" "inv av" "abs av = {..<N}"
    using setAll_ok [OF inv_shape [OF d(1)]] by blast
  note cl = clear_ok [OF inv_shape [OF d(2)]]
  have "list_all shape (gr_v (dd_g d))"
    using d(4) inv_shape by (auto simp: graph_inv_def list_all_iff)
  then have g: "Ginv (graph_clear ops (dd_g d))" "E (graph_clear ops (dd_g d)) = {}"
    using graph_clear_ok [OF GinvD(1) [OF d(4)] _ GinvD(3,4) [OF d(4)]] by auto
  let ?d1 = "d\<lparr>dd_epoch := dd_epoch d + dd_size ops, dd_recycled := bv_clear ops (dd_recycled d),
    dd_available := av, dd_g := graph_clear ops (dd_g d), dd_n_edges := 0\<rparr>"
  have e: "unat (dd_epoch d + dd_size ops) = unat (dd_epoch d) + N"
    using assms(4) by (simp add: unat_word_ariths(1) unat_dd_size)
  then have "dd_epoch d + dd_size ops \<noteq> 0"
    using size_pos by (metis add_is_0 less_not_refl unat_0)
  then have "Dok ?d1"
    using d(3,5,6,8) av(2,3) cl g e by (simp add: dd_ok_def)
  moreover have "newNode ops d data = getAvailableNode ops ?d1 data"
    using av(1) empty_ok [OF d(1)] empty_ok [OF d(2)] assms(2,3) by (simp add: newNode_def)
  ultimately show ?thesis
    using av(3) g(2) by (intro exI [of _ ?d1]) simp
qed

text \<open>The whole of \<^verbatim>\<open>newNode\<close>: a fresh node of the current epoch that no edge touches.\<close>

lemma newNode_ok:
  assumes "Dok d" and "live d = {..<N} \<Longrightarrow> unat (dd_epoch d) + N < 2 ^ 64"
  defines "flush \<equiv> live d = {..<N}"
  shows "\<exists>d' node idx. newNode ops d data = Some (d', node) \<and> Dok d' \<and> nodeToIndex ops d' node = Some idx \<and>
    nodeBelongsToCurrentEpoch ops d' node \<and> dd_getData ops d' node = Some data \<and>
    dd_epoch d' = (if flush then dd_epoch d + dd_size ops else dd_epoch d) \<and>
    (flush \<or> idx \<notin> live d) \<and> live d' = insert idx (if flush then {} else live d) \<and>
    idx \<notin> Domain (E (dd_g d')) \<union> Range (E (dd_g d')) \<and>
    (\<forall>a\<in>live d. \<forall>b\<in>live d. (a, b) \<in> E (dd_g d') \<longleftrightarrow> \<not> flush \<and> (a, b) \<in> E (dd_g d)) \<and>
    (\<not> flush \<longrightarrow> (\<forall>i\<in>live d. dd_data d' ! i = dd_data d ! i))"
proof -
  note d = DokD [OF assms(1)]
  have sub: "abs (dd_available d) \<subseteq> {..<N}" "abs (dd_recycled d) \<subseteq> {..<N}"
    using abs_bound d(1,2) by auto
  then have fl: "flush \<longleftrightarrow> abs (dd_available d) = {} \<and> abs (dd_recycled d) = {}"
    unfolding flush_def dd_live_def by blast
  consider "abs (dd_available d) \<noteq> {}" | "abs (dd_available d) = {}" "abs (dd_recycled d) \<noteq> {}"
    | "abs (dd_available d) = {}" "abs (dd_recycled d) = {}"
    by blast
  then show ?thesis
  proof cases
    case 1
    then have "newNode ops d data = getAvailableNode ops d data" "\<not> flush"
      using empty_ok [OF d(1)] fl by (simp_all add: newNode_def)
    moreover obtain d' node idx where "getAvailableNode ops d data = Some (d', node)" "Dok d'"
      "nodeToIndex ops d' node = Some idx" "nodeBelongsToCurrentEpoch ops d' node"
      "dd_getData ops d' node = Some data" "idx \<notin> live d" "live d' = insert idx (live d)"
      "idx \<notin> Domain (E (dd_g d)) \<union> Range (E (dd_g d))"
      "dd_epoch d' = dd_epoch d" "dd_g d' = dd_g d" "\<forall>i\<in>live d. dd_data d' ! i = dd_data d ! i"
      using getAvailableNode_ok [OF assms(1) 1, of data] by blast
    ultimately show ?thesis
      by (intro exI [of _ d'] exI [of _ node] exI [of _ idx]) auto
  next
    case 2
    then obtain d1 where d1: "newNode ops d data = getAvailableNode ops d1 data" "Dok d1"
      "abs (dd_available d1) = abs (dd_recycled d)" "abs (dd_recycled d1) = {}"
      "E (dd_g d1) = E (dd_g d) - UNIV \<times> abs (dd_recycled d)" "dd_epoch d1 = dd_epoch d"
      "dd_data d1 = dd_data d"
      using recycle_ok [OF assms(1), of data] by blast
    have lv: "live d1 = live d" "\<not> flush" "abs (dd_available d1) \<noteq> {}"
      using d1(3,4) 2 fl by (simp_all add: dd_live_def)
    obtain d' node idx where "getAvailableNode ops d1 data = Some (d', node)" "Dok d'"
      "nodeToIndex ops d' node = Some idx" "nodeBelongsToCurrentEpoch ops d' node"
      "dd_getData ops d' node = Some data" "idx \<notin> live d" "live d' = insert idx (live d)"
      "idx \<notin> Domain (E (dd_g d1)) \<union> Range (E (dd_g d1))"
      "dd_epoch d' = dd_epoch d" "dd_g d' = dd_g d1" "\<forall>i\<in>live d. dd_data d' ! i = dd_data d ! i"
      using getAvailableNode_ok [OF d1(2) lv(3), of data] unfolding lv(1) d1(6,7) by blast
    moreover have "(a, b) \<in> E (dd_g d1) \<longleftrightarrow> (a, b) \<in> E (dd_g d)" if "b \<in> live d" for a b
      using that unfolding d1(5) by (simp add: dd_live_def)
    ultimately show ?thesis
      using lv(2) d1(1) by (intro exI [of _ d'] exI [of _ node] exI [of _ idx]) auto
  next
    case 3
    then obtain d1 where d1: "newNode ops d data = getAvailableNode ops d1 data" "Dok d1"
      "abs (dd_available d1) = {..<N}" "E (dd_g d1) = {}" "dd_epoch d1 = dd_epoch d + dd_size ops"
      using flush_ok [OF assms(1), of data] assms(2) fl by (auto simp: flush_def)
    have lv: "live d1 = {}" "flush"
      using d1(3) 3 fl by (simp_all add: dd_live_def)
    have "abs (dd_available d1) \<noteq> {}"
      using d1(3) size_pos by auto
    then obtain d' node idx where "getAvailableNode ops d1 data = Some (d', node)" "Dok d'"
      "nodeToIndex ops d' node = Some idx" "nodeBelongsToCurrentEpoch ops d' node"
      "dd_getData ops d' node = Some data" "live d' = insert idx {}" "dd_epoch d' = dd_epoch d1" "dd_g d' = dd_g d1"
      using getAvailableNode_ok [OF d1(2), of data] unfolding lv(1) by blast
    then show ?thesis
      using lv(2) d1(1,4,5) by (intro exI [of _ d'] exI [of _ node] exI [of _ idx]) simp
  qed
qed

lemma removeNode_ok:
  assumes "Dok d" and "nodeToIndex ops d node = Some i" and "dd_epoch d \<noteq> 0"
  shows "i \<notin> live d \<Longrightarrow> removeNode ops d node = None"
    and "i \<in> live d \<Longrightarrow> \<exists>d'. removeNode ops d node = Some d' \<and> Dok d' \<and> live d' = live d - {i} \<and>
      dd_epoch d' = dd_epoch d \<and> E (dd_g d') = E (dd_g d) - {i} \<times> UNIV \<and> dd_data d' = dd_data d"
proof -
  note d = DokD [OF assms(1)] and i = nodeToIndex_less [OF assms(2)]
  note av = getBit_ok [OF d(1) i]
  obtain r where r: "bv_setBit ops (dd_recycled d) i = Some (r, i \<notin> abs (dd_recycled d))" "inv r"
    "abs r = insert i (abs (dd_recycled d))"
    using setBit_ok [OF d(2) i] by blast
  obtain g where g: "removeEdgesFrom ops (dd_g d) i = Some g" "Ginv g" "E g = E (dd_g d) - {i} \<times> UNIV"
    using removeEdgesFrom_ok [OF d(4) i] by blast
  show "removeNode ops d node = None" if "i \<notin> live d"
    using that i av r(1) assms(2) by (auto simp: removeNode_def check_def dd_live_def)
  assume "i \<in> live d"
  then have l: "i \<notin> abs (dd_available d)" "i \<notin> abs (dd_recycled d)"
    by (simp_all add: dd_live_def)
  let ?d = "d\<lparr>dd_recycled := r, dd_g := g\<rparr>"
  have lv: "live ?d = live d - {i}"
    using r(3) by (auto simp: dd_live_def)
  have "log_ok ops abs ?d e" if "log_ok ops abs d e" for e
    using that r(3) g(3) by (auto simp: log_ok_def)
  then have "Dok ?d"
    using d l assms(3) r(2,3) g(2,3) lv by (auto simp: dd_ok_def list_all_iff)
  moreover have "removeNode ops d node = Some ?d"
    using l av r(1) g(1) assms(2) by (simp add: removeNode_def check_def)
  ultimately show "\<exists>d'. removeNode ops d node = Some d' \<and> Dok d' \<and> live d' = live d - {i} \<and>
      dd_epoch d' = dd_epoch d \<and> E (dd_g d') = E (dd_g d) - {i} \<times> UNIV \<and> dd_data d' = dd_data d"
    using lv g(3) by (intro exI [of _ ?d]) simp
qed

end

section \<open>Lock events\<close>

text \<open>Adding the edges from a set of nodes to one node closes a cycle exactly when the node reaches the set.\<close>

lemma trancl_add_edges:
  "(x, y) \<in> (R \<union> H \<times> {c})\<^sup>+ \<Longrightarrow> (x, y) \<in> R\<^sup>+ \<or> (\<exists>h\<in>H. (x, h) \<in> R\<^sup>*) \<and> (c, y) \<in> R\<^sup>*"
proof (induction rule: trancl_induct)
  case (base y)
  then show ?case by auto
next
  case (step y z)
  then show ?case
    by (auto intro: trancl_into_trancl rtrancl_into_rtrancl trancl_into_rtrancl)
qed

lemma acyclic_add_edges:
  assumes "acyclic R"
  shows "acyclic (R \<union> H \<times> {c}) \<longleftrightarrow> H \<inter> R\<^sup>* `` {c} = {}"
proof
  assume "H \<inter> R\<^sup>* `` {c} = {}"
  then show "acyclic (R \<union> H \<times> {c})"
    using assms by (auto simp: acyclic_def dest!: trancl_add_edges intro: rtrancl_trans)
next
  assume a: "acyclic (R \<union> H \<times> {c})"
  have "(c, c) \<in> (R \<union> H \<times> {c})\<^sup>+" if "h \<in> H" "(c, h) \<in> R\<^sup>*" for h
  proof -
    have "(c, h) \<in> (R \<union> H \<times> {c})\<^sup>*"
      using that(2) rtrancl_mono [of R "R \<union> H \<times> {c}"] by auto
    then show ?thesis
      using that(1) by (auto intro: rtrancl_into_trancl1)
  qed
  then show "H \<inter> R\<^sup>* `` {c} = {}"
    using a by (auto simp: acyclic_def)
qed

lemma rtrancl_minus_Id: "(R - Id)\<^sup>* = R\<^sup>*"
  by (metis rtrancl_r_diff_Id)

context detector
begin

lemma Dok_graph:
  assumes "Dok d" and "Ginv g" and "E g = E (dd_g d)"
  shows "Dok (d\<lparr>dd_g := g\<rparr>)" and "live (d\<lparr>dd_g := g\<rparr>) = live d"
  using assms by (auto simp: dd_ok_def dd_live_def log_ok_def list_all_iff)

lemma nodeToIndex_epoch: "dd_epoch d' = dd_epoch d \<Longrightarrow> nodeToIndex ops d' node = nodeToIndex ops d node"
  by (simp add: nodeToIndex_def check_node_def)

lemma onLockBefore_ok:
  assumes "Dok d" and "Tok t" and "dt_epoch t = dd_epoch d" and "nodeToIndex ops d node = Some i"
  shows "\<exists>g. onLockBefore ops d t node =
      Some (d\<lparr>dd_g := g\<rparr>, t, set_mset (held t) \<inter> (E (dd_g d))\<^sup>* `` {i} \<noteq> {}) \<and>
    Ginv g \<and> E g = E (dd_g d)"
proof -
  obtain g where "isReachable ops (dd_g d) i (dt_bv t) = Some (g, abs (dt_bv t) \<inter> (E (dd_g d))\<^sup>* `` {i} \<noteq> {})"
    "Ginv g" "E g = E (dd_g d)"
    using isReachable_ok [OF DokD(4) [OF assms(1)] nodeToIndex_less [OF assms(4)] TokD(1) [OF assms(2)]] by blast
  then show ?thesis
    using assms(3,4) set_mset_held [OF assms(2)]
    by (intro exI [of _ g]) (simp add: onLockBefore_def dd_ensureCurrentEpoch_def tls_ensureCurrentEpoch_def tls_getLocks_def check_def)
qed

lemma unat_short16: "i < N \<Longrightarrow> unat (word_of_nat i :: 16 word) = i"
  using N_short by (simp add: unat_of_nat)

lemma findLockContext_total:
  assumes "Tok t"
  shows "\<exists>c. tls_findLockContext t l = Some c"
  using TokD(4,5) [OF assms] by (simp add: tls_findLockContext_def search_up_from_0)

lemma log_edges_ok:
  assumes "Tok t" and "length es = N * 32" and "n \<le> N * 32" and "list_all P (take n es)" and "k \<le> length added"
    and "i < N" and "\<And>j. j < k \<Longrightarrow> added ! j < N"
    and "\<And>e j. \<lbrakk> j < k; unat (de_from e) = added ! j; unat (de_to e) = i \<rbrakk> \<Longrightarrow> P e"
  shows "\<exists>es' n'. foldM (log_step ops t i stk tid added) [0..<k] (es, n) = Some (es', n') \<and>
    length es' = N * 32 \<and> n' \<le> N * 32 \<and> list_all P (take n' es')"
proof -
  let ?I = "\<lambda>(_ :: nat) (es', n'). length es' = N * 32 \<and> n' \<le> N * 32 \<and> list_all P (take n' es')"
  have "\<exists>s. foldM (log_step ops t i stk tid added) [0..<k] (es, n) = Some s \<and> ?I k s"
  proof (rule foldM_upt_invariant)
    fix j and s :: "dd_edge list \<times> nat"
    assume j: "j < k" and I: "?I j s"
    obtain es1 n1 where s: "s = (es1, n1)" by fastforce
    have s1: "length es1 = N * 32" "n1 \<le> N * 32" "list_all P (take n1 es1)"
      using I by (simp_all add: s)
    show "\<exists>s'. log_step ops t i stk tid added j s = Some s' \<and> ?I (Suc j) s'"
    proof (cases "n1 < N * 32")
      case True
      obtain c where c: "tls_findLockContext t (added ! j) = Some c"
        using findLockContext_total [OF assms(1)] by blast
      let ?e = "\<lparr>de_from = word_of_nat (added ! j), de_to = word_of_nat i, de_stk_from = c,
         de_stk_to = stk, de_unique_tid = tid\<rparr>"
      have "P ?e"
        using assms(8) [OF j, of ?e] assms(6) assms(7) [OF j] by (simp add: unat_short16)
      then have "list_all P (take (Suc n1) (es1[n1 := ?e]))"
        using s1 True by (simp add: take_Suc_conv_app_nth)
      moreover have "log_step ops t i stk tid added j s = Some (es1[n1 := ?e], Suc n1)"
        using True c s1(1) j assms(5) by (simp add: log_step_def s)
      ultimately show ?thesis
        using s1(1) True by simp
    next
      case False
      then show ?thesis
        using s1 by (simp add: log_step_def s)
    qed
  qed (use assms(2-4) in simp_all)
  then show ?thesis
    by auto
qed

lemma dd_addEdges_ok:
  assumes "Dok d" and "Tok t" and "dt_epoch t = dd_epoch d" and "nodeToIndex ops d node = Some i"
    and "i \<in> live d" and "set_mset (held t) \<subseteq> live d"
  shows "\<exists>d' k. dd_addEdges ops d t node stk tid = Some (d', t, k) \<and> Dok d' \<and> live d' = live d \<and>
    dd_epoch d' = dd_epoch d \<and> dd_data d' = dd_data d \<and> E (dd_g d') = E (dd_g d) \<union> set_mset (held t) \<times> {i}"
proof -
  note d = DokD [OF assms(1)] and i = nodeToIndex_less [OF assms(4)]
  define new where "new = sorted_list_of_set {n \<in> abs (dt_bv t). (n, i) \<notin> E (dd_g d)}"
  obtain g added where g: "addEdges ops (dd_g d) (dt_bv t) i (replicate 40 0) 40 = Some (g, added, min 40 (length new))"
    "Ginv g" "E g = E (dd_g d) \<union> abs (dt_bv t) \<times> {i}" "length added = 40"
    "take (min 40 (length new)) added = take 40 new"
    using addEdges_ok [OF d(4) TokD(1) [OF assms(2)] i, of 40 "replicate 40 0"] by (auto simp: new_def)
  have h: "abs (dt_bv t) \<subseteq> live d"
    using assms(6) set_mset_held [OF assms(2)] by simp
  have src: "added ! j \<in> abs (dt_bv t)" if "j < min 40 (length new)" for j
  proof -
    have "added ! j = take 40 new ! j"
      using that g(5) by (metis nth_take)
    then have "added ! j \<in> set new"
      using that by simp
    then show ?thesis
      using finite_abs [OF TokD(1) [OF assms(2)]] by (simp add: new_def)
  qed
  let ?d1 = "d\<lparr>dd_g := g\<rparr>"
  have log: "list_all (log_ok ops abs ?d1) (take (dd_n_edges d) (dd_log d))"
    using d(11) g(3) by (auto simp: list_all_iff log_ok_def)
  obtain es n where l: "foldM (log_step ops t i stk tid added) [0..<min 40 (length new)] (dd_log d, dd_n_edges d) = Some (es, n)"
    "length es = N * 32" "n \<le> N * 32" "list_all (log_ok ops abs ?d1) (take n es)"
  proof -
    have "\<exists>es n. foldM (log_step ops t i stk tid added) [0..<min 40 (length new)] (dd_log d, dd_n_edges d) = Some (es, n) \<and>
      length es = N * 32 \<and> n \<le> N * 32 \<and> list_all (log_ok ops abs ?d1) (take n es)"
    proof (rule log_edges_ok [OF assms(2) d(6,7) log _ i])
      show "added ! j < N" if "j < min 40 (length new)" for j
        using src [OF that] h by (auto simp: dd_live_def)
      show "log_ok ops abs ?d1 e"
        if "j < min 40 (length new)" "unat (de_from e) = added ! j" "unat (de_to e) = i" for e j
        using src [OF that(1)] h assms(5) that(2,3) g(3) by (auto simp: log_ok_def dd_live_def)
    qed (simp add: g(4))
    then show thesis
      using that by blast
  qed
  let ?d = "d\<lparr>dd_g := g, dd_log := es, dd_n_edges := n\<rparr>"
  have "live ?d = live d"
    by (simp add: dd_live_def)
  moreover have "log_ok ops abs ?d = log_ok ops abs ?d1"
    by (intro ext) (simp add: log_ok_def)
  moreover have "Dok ?d"
    using d(1-3,5,8-10,12) g(2,3) l(2-4) h assms(5) calculation by (auto simp: dd_ok_def)
  moreover have "dd_addEdges ops d t node stk tid = Some (?d, t, min 40 (length new))"
    using assms(3,4) g(1) l(1)
    by (simp add: dd_addEdges_def dd_ensureCurrentEpoch_def tls_ensureCurrentEpoch_def tls_getLocks_def check_def)
  ultimately show ?thesis
    using g(3) set_mset_held [OF assms(2)] by (intro exI [of _ ?d]) simp
qed

lemma isHeld_ok:
  assumes "Dok d" and "Tok t" and "dt_epoch t = dd_epoch d" and "nodeToIndex ops d node = Some i"
  shows "isHeld ops d t node = Some (i \<in># held t)"
  using assms(3,4) getBit_ok [OF TokD(1) [OF assms(2)] nodeToIndex_less [OF assms(4)]] set_mset_held [OF assms(2)]
  by (simp add: isHeld_def tls_getLocks_def check_def)

lemma onLockAfter_ok:
  assumes "Tok t" and "dt_epoch t = dd_epoch d" and "nodeToIndex ops d node = Some i"
    and "if i \<in># held t then dt_n_recursive_locks t < 64 else dt_n_all_locks t < 64"
  shows "\<exists>t'. onLockAfter ops d t node stk = Some t' \<and> Tok t' \<and> dt_epoch t' = dd_epoch d \<and>
    held t' = add_mset i (held t)"
  using tls_addLock_ok [OF assms(1) nodeToIndex_less [OF assms(3)] assms(2,4), of stk] assms(2,3)
  by (auto simp: onLockAfter_def dd_ensureCurrentEpoch_def tls_ensureCurrentEpoch_def)

text \<open>The whole lock event.  Self loops come from recursive locks and are not cycles.\<close>

lemma onLock_ok:
  assumes "Dok d" and "Tok t" and "dt_epoch t = dd_epoch d" and "nodeToIndex ops d node = Some i"
    and "i \<in> live d" and "set_mset (held t) \<subseteq> live d"
    and "if i \<in># held t then dt_n_recursive_locks t < 64 else dt_n_all_locks t < 64"
  shows "\<exists>d' t'. onLock ops d t node stk =
      Some (d', t', i \<notin># held t \<and> set_mset (held t) \<inter> (E (dd_g d))\<^sup>* `` {i} \<noteq> {}) \<and>
    Dok d' \<and> live d' = live d \<and> dd_epoch d' = dd_epoch d \<and> E (dd_g d') = E (dd_g d) \<union> set_mset (held t) \<times> {i} \<and>
    Tok t' \<and> dt_epoch t' = dd_epoch d \<and> held t' = add_mset i (held t)"
proof -
  let ?r = "i \<notin># held t \<and> set_mset (held t) \<inter> (E (dd_g d))\<^sup>* `` {i} \<noteq> {}"
  obtain g where g: "onLockBefore ops d t node =
      Some (d\<lparr>dd_g := g\<rparr>, t, set_mset (held t) \<inter> (E (dd_g d))\<^sup>* `` {i} \<noteq> {})" "Ginv g" "E g = E (dd_g d)"
    using onLockBefore_ok [OF assms(1-4)] by blast
  define d1 where "d1 = (if i \<in># held t then d else d\<lparr>dd_g := g\<rparr>)"
  have d1: "Dok d1" "live d1 = live d" "dd_epoch d1 = dd_epoch d" "E (dd_g d1) = E (dd_g d)"
    using assms(1) Dok_graph [OF assms(1) g(2,3)] g(3) by (simp_all add: d1_def)
  have run: "(if i \<in># held t then Some (d, t, False) else onLockBefore ops d t node) = Some (d1, t, ?r)"
    using g(1) by (auto simp: d1_def)
  have n1: "nodeToIndex ops d1 node = Some i"
    using assms(4) nodeToIndex_epoch [OF d1(3)] by simp
  obtain d' k where d': "dd_addEdges ops d1 t node stk 0 = Some (d', t, k)" "Dok d'" "live d' = live d"
    "dd_epoch d' = dd_epoch d" "E (dd_g d') = E (dd_g d) \<union> set_mset (held t) \<times> {i}"
    using dd_addEdges_ok [OF d1(1) assms(2) _ n1, of stk 0] assms(3,5,6) d1(2-4) by auto
  have "nodeToIndex ops d' node = Some i"
    using assms(4) nodeToIndex_epoch [OF d'(4)] by simp
  then obtain t' where t': "onLockAfter ops d' t node stk = Some t'" "Tok t'" "dt_epoch t' = dd_epoch d"
    "held t' = add_mset i (held t)"
    using onLockAfter_ok [OF assms(2) _ _ assms(7), of d' node stk] assms(3) d'(4) by auto
  have "onLock ops d t node stk = Some (d', t', ?r)"
    unfolding onLock_def dd_ensureCurrentEpoch_def tls_ensureCurrentEpoch_def Let_def
      if_P [OF assms(3)] isHeld_ok [OF assms(1-4)] Option.bind.bind_lunit case_prod_conv run
    using d'(1) t'(1) by (simp only: Option.bind.bind_lunit case_prod_conv)
  then show ?thesis
    using d' t' by blast
qed

end

subsection \<open>Fast paths, unlocks and paths\<close>

context detector
begin

lemma hasAllEdges_loop_ok:
  assumes "Ginv g" and "i < N" and "\<And>j. j \<in> set js \<Longrightarrow> j < length (dt_all_locks t)"
    and "\<And>j. j \<in> set js \<Longrightarrow> unat (lwc_lock (dt_all_locks t ! j)) < N"
  shows "hasAllEdges_loop ops g t i js = Some (\<forall>j\<in>set js. (unat (lwc_lock (dt_all_locks t ! j)), i) \<in> E g)"
  using assms(3,4) by (induction js) (auto simp: tls_getLock_def hasEdge_ok [OF assms(1) _ assms(2)])

lemma locks_image:
  assumes "Tok t"
  shows "(\<lambda>j. unat (lwc_lock (dt_all_locks t ! j))) ` {0..<dt_n_all_locks t} = set_mset (held t)"
proof -
  have "(\<lambda>l. unat (lwc_lock l)) ` set (take (dt_n_all_locks t) (dt_all_locks t)) = abs (dt_bv t)"
    using arg_cong [OF TokD(7) [OF assms], of set_mset] finite_abs [OF TokD(1) [OF assms]] by simp
  moreover have "set (take (dt_n_all_locks t) (dt_all_locks t)) = (\<lambda>j. dt_all_locks t ! j) ` {0..<dt_n_all_locks t}"
    using TokD(4,5) [OF assms] by (intro nth_image [symmetric]) simp
  ultimately show ?thesis
    by (simp add: set_mset_held [OF assms] image_image)
qed

lemma hasAllEdges_ok:
  assumes "Dok d" and "Tok t" and "dt_epoch t = dd_epoch d" and "nodeToIndex ops d node = Some i"
  shows "hasAllEdges ops d t node = Some (\<forall>h\<in>#held t. (h, i) \<in> E (dd_g d))"
proof -
  have n: "node \<noteq> 0" "nodeToEpoch ops node = dd_epoch d" "nodeToIndexUnchecked ops node = i"
    using assms(4) size_pos by (auto simp: nodeToIndex_eq_Some nodeToIndexUnchecked_eq)
  note im = locks_image [OF assms(2)]
  have "unat (lwc_lock (dt_all_locks t ! j)) < N" if "j \<in> set [0..<dt_n_all_locks t]" for j
  proof -
    have "unat (lwc_lock (dt_all_locks t ! j)) \<in> set_mset (held t)"
      unfolding im [symmetric] using that by auto
    then show ?thesis
      using set_mset_held [OF assms(2)] abs_less [OF TokD(1) [OF assms(2)]] by simp
  qed
  then have "hasAllEdges_loop ops (dd_g d) t i [0..<dt_n_all_locks t] =
      Some (\<forall>j\<in>set [0..<dt_n_all_locks t]. (unat (lwc_lock (dt_all_locks t ! j)), i) \<in> E (dd_g d))"
    using TokD(4,5) [OF assms(2)]
    by (intro hasAllEdges_loop_ok [OF DokD(4) [OF assms(1)] nodeToIndex_less [OF assms(4)]]) auto
  then show ?thesis
    using n assms(3) unfolding im [symmetric] by (simp add: hasAllEdges_def)
qed

lemma onLockFast_ok:
  assumes "Dok d" and "Tok t" and "dt_epoch t = dd_epoch d" and "nodeToIndex ops d node = Some i"
    and "if i \<in># held t then dt_n_recursive_locks t < 64 else dt_n_all_locks t < 64"
  shows "\<exists>t'. onLockFast ops d t node stk = Some (t', \<forall>h\<in>#held t. (h, i) \<in> E (dd_g d)) \<and> Tok t' \<and>
    dt_epoch t' = dd_epoch d \<and>
    held t' = (if \<forall>h\<in>#held t. (h, i) \<in> E (dd_g d) then add_mset i (held t) else held t) \<and>
    ((\<exists>h\<in>#held t. (h, i) \<notin> E (dd_g d)) \<longrightarrow> t' = t)"
proof -
  have n: "nodeToEpoch ops node = dd_epoch d" "nodeToIndexUnchecked ops node = i"
    using assms(4) by (auto simp: nodeToIndex_eq_Some nodeToIndexUnchecked_eq)
  obtain t' where "tls_addLock ops t i (dd_epoch d) stk = Some (t', i \<notin># held t)" "Tok t'"
    "dt_epoch t' = dd_epoch d" "held t' = add_mset i (held t)"
    using tls_addLock_ok [OF assms(2) nodeToIndex_less [OF assms(4)] assms(3,5)] by blast
  then show ?thesis
    using hasAllEdges_ok [OF assms(1-4)] n assms(2,3)
    by (cases "\<forall>h\<in>#held t. (h, i) \<in> E (dd_g d)") (auto simp: onLockFast_def)
qed

lemma onFirstLock_ok:
  assumes "Tok t" and "dt_epoch t = dd_epoch d" and "dd_epoch d \<noteq> 0" and "nodeToIndex ops d node = Some i"
    and "dt_n_all_locks t < 64"
  shows "\<exists>t'. onFirstLock ops t node stk = Some (t', held t = {#}) \<and> Tok t' \<and> dt_epoch t' = dd_epoch d \<and>
    held t' = (if held t = {#} then {#i#} else held t) \<and> (held t \<noteq> {#} \<longrightarrow> t' = t)"
proof (cases "held t = {#}")
  case True
  have n: "nodeToEpoch ops node = dd_epoch d" "nodeToIndexUnchecked ops node = i"
    using assms(4) by (auto simp: nodeToIndex_eq_Some nodeToIndexUnchecked_eq)
  obtain t' where "tls_addLock ops t i (dd_epoch d) stk = Some (t', i \<notin># held t)" "Tok t'"
    "dt_epoch t' = dd_epoch d" "held t' = add_mset i (held t)"
    using tls_addLock_ok [OF assms(1) nodeToIndex_less [OF assms(4)] assms(2)] assms(5) True by auto
  then show ?thesis
    using True n assms(2,3) tls_empty_ok [OF assms(1)] by (auto simp: onFirstLock_def)
next
  case False
  then show ?thesis
    using assms(1,2) tls_empty_ok [OF assms(1)] by (simp add: onFirstLock_def)
qed

lemma onUnlock_ok:
  assumes "Tok t"
  shows "\<exists>t'. onUnlock ops t node = Some t' \<and> Tok t' \<and> dt_epoch t' = dt_epoch t \<and>
    held t' = (if nodeToEpoch ops node = dt_epoch t then held t - {#unat node mod N#} else held t)"
proof (cases "nodeToEpoch ops node = dt_epoch t")
  case True
  have "unat node mod N < N"
    using size_pos by simp
  from tls_removeLock_ok [OF assms this] show ?thesis
    using True by (auto simp: onUnlock_def nodeToIndexUnchecked_eq)
next
  case False
  then show ?thesis
    using assms by (simp add: onUnlock_def)
qed

lemma node_path_ok:
  assumes "N dvd unat (dd_epoch d)" and "dd_epoch d \<noteq> 0" and "r \<le> length ipath" and "length path = length ipath"
    and "\<And>j. j < r \<Longrightarrow> ipath ! j < N"
  shows "\<exists>np. foldM (node_path_step ops d ipath) [0..<r] path = Some np \<and> length np = length ipath \<and>
    (\<forall>j<r. nodeToIndex ops d (np ! j) = Some (ipath ! j))"
proof (rule foldM_upt_invariant [where I = "\<lambda>k np. length np = length ipath \<and>
    (\<forall>j<k. nodeToIndex ops d (np ! j) = Some (ipath ! j))"])
  fix j np
  assume j: "j < r" and I: "length np = length ipath \<and> (\<forall>l<j. nodeToIndex ops d (np ! l) = Some (ipath ! l))"
  obtain node where "indexToNode ops d (ipath ! j) = Some node" "nodeToIndex ops d node = Some (ipath ! j)"
    using indexToNode_ok [OF assms(5) [OF j] assms(1,2)] by blast
  then show "\<exists>np'. node_path_step ops d ipath j np = Some np' \<and> length np' = length ipath \<and>
      (\<forall>l<Suc j. nodeToIndex ops d (np' ! l) = Some (ipath ! l))"
    using I j assms(3) by (auto simp: node_path_step_def nth_list_update)
qed (use assms(4) in simp_all)

lemma nodeToIndex_inj:
  assumes "nodeToIndex ops d a = Some i" and "nodeToIndex ops d b = Some i"
  shows "a = b"
proof -
  have "unat a div N * N = unat b div N * N" "unat a mod N = unat b mod N"
    using assms unat_nodeToEpoch [of a] unat_nodeToEpoch [of b] by (auto simp: nodeToIndex_eq_Some)
  then have "unat a = unat b"
    by (metis div_mult_mod_eq)
  then show ?thesis
    by (simp add: word_unat_eq_iff)
qed

lemma path_to_less:
  assumes "Ginv g" and "path_to (E g) i T ps" and "i < N" and "x \<in> set ps"
  shows "x < N"
proof -
  have "list_all (\<lambda>x. x < N) ps" if "successively (\<lambda>a b. (a, b) \<in> E g) ps" "ps \<noteq> []" "hd ps < N"
    using that
  proof (induction ps rule: induct_list012)
    case (3 a b ps)
    then have "b < N"
      using E_bound [OF assms(1), of a b] by simp
    then show ?case
      using 3 by simp
  qed simp_all
  then show ?thesis
    using assms(2-4) by (simp add: path_to_def list_all_iff)
qed

lemma findPathToLock_ok:
  assumes "Dok d" and "Tok t" and "dt_epoch t = dd_epoch d" and "dd_epoch d \<noteq> 0" and "nodeToIndex ops d node = Some i"
    and "i \<notin># held t" and "n \<le> length path"
  shows "\<exists>tmp np r ps. findPathToLock ops its d t node path n = Some (d\<lparr>dd_tmp := tmp\<rparr>, np, r) \<and> shape tmp \<and>
    length np = length path \<and> r \<le> n \<and>
    (if r = 0 then \<forall>ps. path_to (E (dd_g d)) i (set_mset (held t)) ps \<longrightarrow> n < length ps
     else path_to (E (dd_g d)) i (set_mset (held t)) ps \<and> length ps = r \<and>
       (\<forall>j<r. nodeToIndex ops d (np ! j) = Some (ps ! j)) \<and>
       (\<forall>qs. path_to (E (dd_g d)) i (set_mset (held t)) qs \<longrightarrow> r \<le> length qs))"
proof -
  note d = DokD [OF assms(1)] and i = nodeToIndex_less [OF assms(5)] and h = set_mset_held [OF assms(2)]
  obtain tmp where tmp: "bv_copyFrom ops (dd_tmp d) (dt_bv t) = Some tmp" "inv tmp" "abs tmp = abs (dt_bv t)"
    using copyFrom_ok [OF d(3) TokD(1) [OF assms(2)]] by blast
  have bit: "bv_getBit ops tmp i = Some False"
    using getBit_ok [OF tmp(2) i] tmp(3) h assms(6) by simp
  have one: "1 \<le> length ps" if "path_to (E (dd_g d)) i (abs tmp) ps" for ps
    using that by (cases ps) (auto simp: path_to_def)
  obtain p r where p: "findShortestPath ops its (dd_g d) i tmp path n = Some (p, r)"
    "length p = length path" "r \<le> n" and fin: "if r = 0 then \<forall>ps. path_to (E (dd_g d)) i (abs tmp) ps \<longrightarrow> n < length ps
     else path_to (E (dd_g d)) i (abs tmp) (take r p) \<and> (\<forall>ps. path_to (E (dd_g d)) i (abs tmp) ps \<longrightarrow> r \<le> length ps)"
    using findShortestPath_from_ok [OF d(4) tmp(2) i assms(7), of 1] one unfolding findShortestPath_def by auto
  have hh: "abs tmp = set_mset (held t)"
    using tmp(3) h by simp
  have lt: "p ! j < N" if "j < r" for j
  proof -
    have "j < length (take r p)" "path_to (E (dd_g d)) i (abs tmp) (take r p)"
      using fin that p(2,3) assms(7) by auto
    from path_to_less [OF d(4) this(2) i nth_mem [OF this(1)]] show ?thesis
      using that by simp
  qed
  obtain np where np: "foldM (node_path_step ops d p) [0..<r] (map word_of_nat p) = Some np" "length np = length p"
    "\<forall>j<r. nodeToIndex ops d (np ! j) = Some (p ! j)"
    using node_path_ok [OF d(8) assms(4), of r p "map word_of_nat p"] lt p(2,3) assms(7) by auto
  have c: "r = 0 \<or> arr_get np 0 = Some node"
  proof (cases "r = 0")
    case False
    then have "p ! 0 = i" "0 < length np"
      using fin p(2,3) assms(7) np(2) by (auto simp: path_to_def hd_conv_nth)
    then show ?thesis
      using nodeToIndex_inj [OF _ assms(5), of "np ! 0"] np(3) False by simp
  qed simp
  have "findPathToLock ops its d t node path n = Some (d\<lparr>dd_tmp := tmp\<rparr>, np, r)"
    unfolding findPathToLock_def tls_getLocks_def check_def if_P [OF assms(3)]
    using tmp(1) assms(5) bit p(1) np(1) c by (auto simp: check_def)
  moreover have "if r = 0 then \<forall>ps. path_to (E (dd_g d)) i (set_mset (held t)) ps \<longrightarrow> n < length ps
     else path_to (E (dd_g d)) i (set_mset (held t)) (take r p) \<and> length (take r p) = r \<and>
       (\<forall>j<r. nodeToIndex ops d (np ! j) = Some (take r p ! j)) \<and>
       (\<forall>qs. path_to (E (dd_g d)) i (set_mset (held t)) qs \<longrightarrow> r \<le> length qs)"
    using fin np(3) p(2,3) assms(7) unfolding hh by auto
  ultimately show ?thesis
    using inv_shape [OF tmp(2)] np(2) p(2,3) by metis
qed

end

section \<open>The detector over TwoLevelBitVector<>\<close>

interpretation ddd: detector "two_level_ops basic_ops 1 :: 64 word two_level bv_ops"
  "tl_shape basic_ops (\<lambda>_. True) 1" "tl_inv basic_ops (\<lambda>_. True) (\<lambda>_. True) basic_abs 1"
  "tl_abs basic_ops basic_abs" "tl_it_ops basic_ops basic_it_ops 1"
  "tl_it_inv basic_ops (\<lambda>_. True) (\<lambda>_. True) basic_abs 1 (\<lambda>_. True) basic_abs"
  "tl_it_abs basic_ops basic_abs basic_abs"
  by unfold_locales (simp_all only: ddbv_size, simp_all)

abbreviation ddtls_ok :: "ddbv dd_tls \<Rightarrow> bool" where
  "ddtls_ok \<equiv> tls_ok ddbv_inv ddbv_abs"

abbreviation ddtls_held :: "ddbv dd_tls \<Rightarrow> nat multiset" where
  "ddtls_held \<equiv> tls_held ddbv_abs"

abbreviation ddstate_ok :: "ddbv dd_state \<Rightarrow> bool" where
  "ddstate_ok \<equiv> dd_ok ddbv_ops ddbv_shape ddbv_inv ddbv_abs"

abbreviation ddstate_live :: "ddbv dd_state \<Rightarrow> nat set" where
  "ddstate_live \<equiv> dd_live ddbv_ops ddbv_abs"

abbreviation ddstate_edges :: "ddbv dd_state \<Rightarrow> (nat \<times> nat) set" where
  "ddstate_edges d \<equiv> dd_edges (dd_g d)"

text \<open>There is room for one more acquisition of lock \<open>l\<close>.\<close>

abbreviation tls_room :: "ddbv dd_tls \<Rightarrow> nat \<Rightarrow> bool" where
  "tls_room t l \<equiv> if l \<in># ddtls_held t then dt_n_recursive_locks t < 64 else dt_n_all_locks t < 64"

text \<open>C26: The state of a thread refines the multiset of the locks it holds, counting recursive
  acquisitions: \<^verbatim>\<open>addLock\<close> adds one occurrence and tells whether it is the first (and stops
  when an array is full), \<^verbatim>\<open>removeLock\<close> removes one, \<^verbatim>\<open>ensureCurrentEpoch\<close> forgets
  all of them when the epoch changed, and each keeps the representation invariant.
\<close>

theorem tls_refines_multiset:
  assumes "ddtls_ok t" and "l < 4096"
  shows "(if tls_room t l
      then \<exists>t'. tls_addLock ddbv_ops t l (dt_epoch t) stk = Some (t', l \<notin># ddtls_held t) \<and> ddtls_ok t' \<and>
        dt_epoch t' = dt_epoch t \<and> ddtls_held t' = add_mset l (ddtls_held t)
      else tls_addLock ddbv_ops t l (dt_epoch t) stk = None) \<and>
    (\<exists>t'. tls_removeLock ddbv_ops t l = Some t' \<and> ddtls_ok t' \<and> dt_epoch t' = dt_epoch t \<and>
      ddtls_held t' = ddtls_held t - {#l#}) \<and>
    ddtls_ok (tls_ensureCurrentEpoch ddbv_ops t e) \<and>
    ddtls_held (tls_ensureCurrentEpoch ddbv_ops t e) = (if dt_epoch t = e then ddtls_held t else {#}) \<and>
    (tls_empty ddbv_ops t \<longleftrightarrow> ddtls_held t = {#})"
proof -
  have l: "l < bv_size ddbv_ops"
    using assms(2) by (simp only: ddbv_size)
  show ?thesis
    using ddd.tls_addLock_ok [OF assms(1) l refl, of stk] ddd.tls_addLock_full [OF assms(1) l, of "dt_epoch t" stk]
      ddd.tls_removeLock_ok [OF assms(1) l] ddd.tls_ensure_ok [OF assms(1), of e] ddd.tls_empty_ok [OF assms(1)]
    by (cases "tls_room t l") simp_all
qed

definition dd_tls_ex :: "ddbv dd_tls" where
  "dd_tls_ex = tls_clear ddbv_ops \<lparr>dt_bv = ddbv_ex 1, dt_epoch = 0, dt_recursive_locks = replicate 64 0,
     dt_n_recursive_locks = 0, dt_all_locks = replicate 64 \<lparr>lwc_lock = 0, lwc_stk = 0\<rparr>, dt_n_all_locks = 0\<rparr>"

lemma dd_tls_ex_ok: "ddtls_ok dd_tls_ex \<and> ddtls_held dd_tls_ex = {#} \<and> dt_epoch dd_tls_ex = 0"
  unfolding dd_tls_ex_def using dd_bv.tl_inv_shape [OF ddbv_ex_inv, of 1] by (intro ddd.tls_clear_ok) simp_all

lemma dd_tls_ex_room: "dt_n_all_locks dd_tls_ex = 0"
  by (simp add: dd_tls_ex_def tls_clear_def)

theorem tls_refines_multiset_witness:
  "\<exists>t'. tls_addLock ddbv_ops dd_tls_ex 5 (dt_epoch dd_tls_ex) 9 = Some (t', True) \<and> ddtls_held t' = {#5#}"
  using tls_refines_multiset [of dd_tls_ex 5 9 0] dd_tls_ex_ok dd_tls_ex_room by auto

text \<open>C25: Unless the epochs are used up, \<^verbatim>\<open>newNode\<close> gives a node of the current epoch that was not
  in use and that no edge touches, with its data; the invariant is kept.  When no node is free or
  recycled it starts a new epoch with an empty graph; otherwise the epoch, the edges between live
  nodes and their data are unchanged.
\<close>

theorem newNode_fresh:
  assumes "ddstate_ok d" and "unat (dd_epoch d) + 4096 < 2 ^ 64"
  shows "\<exists>d' node idx. newNode ddbv_ops d data = Some (d', node) \<and> ddstate_ok d' \<and>
    nodeToIndex ddbv_ops d' node = Some idx \<and> nodeBelongsToCurrentEpoch ddbv_ops d' node \<and>
    dd_getData ddbv_ops d' node = Some data \<and> idx \<notin> Domain (ddstate_edges d') \<union> Range (ddstate_edges d') \<and>
    (if ddstate_live d = {..<4096}
     then dd_epoch d' = dd_epoch d + 4096 \<and> ddstate_live d' = {idx} \<and> ddstate_edges d' = {}
     else dd_epoch d' = dd_epoch d \<and> idx \<notin> ddstate_live d \<and> ddstate_live d' = insert idx (ddstate_live d) \<and>
       (\<forall>a\<in>ddstate_live d. dd_data d' ! a = dd_data d ! a \<and>
         (\<forall>b\<in>ddstate_live d. (a, b) \<in> ddstate_edges d' \<longleftrightarrow> (a, b) \<in> ddstate_edges d)))"
proof -
  define full where "full \<longleftrightarrow> ddstate_live d = {..<4096}"
  have sz: "dd_size ddbv_ops = 4096"
    unfolding dd_size_def ddbv_size by simp
  have room: "unat (dd_epoch d) + bv_size ddbv_ops < 2 ^ 64"
    using assms(2) by (simp only: ddbv_size)
  obtain d' node idx where *: "newNode ddbv_ops d data = Some (d', node)" "ddstate_ok d'"
    "nodeToIndex ddbv_ops d' node = Some idx" "nodeBelongsToCurrentEpoch ddbv_ops d' node"
    "dd_getData ddbv_ops d' node = Some data"
    and ep: "dd_epoch d' = (if full then dd_epoch d + 4096 else dd_epoch d)"
    and lv: "full \<or> idx \<notin> ddstate_live d" "ddstate_live d' = insert idx (if full then {} else ddstate_live d)"
    and fr: "idx \<notin> Domain (ddstate_edges d') \<union> Range (ddstate_edges d')"
    and ed: "\<forall>a\<in>ddstate_live d. \<forall>b\<in>ddstate_live d. (a, b) \<in> ddstate_edges d' \<longleftrightarrow> \<not> full \<and> (a, b) \<in> ddstate_edges d"
    and dt: "\<not> full \<longrightarrow> (\<forall>i\<in>ddstate_live d. dd_data d' ! i = dd_data d ! i)"
    using ddd.newNode_ok [OF assms(1) room, of data, unfolded sz, unfolded ddbv_size, folded full_def]
    by (elim exE conjE) (rule that)
  have "(a, b) \<notin> ddstate_edges d'" if full for a b
  proof
    assume e: "(a, b) \<in> ddstate_edges d'"
    from dd_graph.E_bound [OF ddd.DokD(4) [OF *(2)] this] have "a < 4096 \<and> b < 4096"
      unfolding ddbv_size .
    then have "a \<in> ddstate_live d" "b \<in> ddstate_live d"
      using that unfolding full_def by auto
    then show False
      using ed e that by blast
  qed
  then have "ddstate_edges d' = {}" if full
    using that by auto
  then show ?thesis
    unfolding full_def [symmetric]
    using * ep lv fr ed dt by (intro exI [of _ d'] exI [of _ node] exI [of _ idx]) (cases full; simp)
qed

definition dd_state_ex :: "ddbv dd_state" where
  "dd_state_ex = dd_clear ddbv_ops \<lparr>dd_epoch = 0, dd_available = ddbv_ex 1, dd_recycled = ddbv_ex 1, dd_tmp = ddbv_ex 1,
     dd_g = dd_graph_ex, dd_data = replicate 4096 0,
     dd_log = replicate 131072 \<lparr>de_from = 0, de_to = 0, de_stk_from = 0, de_stk_to = 0, de_unique_tid = 0\<rparr>,
     dd_n_edges = 0\<rparr>"

lemma dd_state_ex_ok: "ddstate_ok dd_state_ex \<and> ddstate_edges dd_state_ex = {} \<and> dd_epoch dd_state_ex = 0"
proof -
  have s: "ddbv_shape (ddbv_ex n)" if "n < 64" for n
    by (rule dd_bv.tl_inv_shape [OF ddbv_ex_inv [OF that]])
  have "list_all ddbv_shape (gr_v dd_graph_ex)"
    using s [of 1] by (simp add: dd_graph_ex_def list_all_length)
  moreover have "length (gr_v dd_graph_ex) = bv_size ddbv_ops" "131072 = bv_size ddbv_ops * 32" "4096 = bv_size ddbv_ops"
    unfolding ddbv_size by (simp_all add: dd_graph_ex_def)
  moreover have "ddbv_shape (gr_t1 dd_graph_ex)" "ddbv_shape (gr_t2 dd_graph_ex)"
    using s [of 0] by (simp_all add: dd_graph_ex_def)
  ultimately show ?thesis
    unfolding dd_state_ex_def using s [of 1] by (intro ddd.dd_clear_ok) simp_all
qed

lemma dd_state_ex_live: "ddstate_live dd_state_ex = {..<4096}"
proof -
  note d = ddd.DokD(12) [OF conjunct1 [OF dd_state_ex_ok]]
  show ?thesis
    using d dd_state_ex_ok unfolding dd_live_def ddbv_size by simp
qed

theorem newNode_fresh_witness:
  "\<exists>d' node idx. newNode ddbv_ops dd_state_ex 77 = Some (d', node) \<and> ddstate_ok d' \<and> dd_epoch d' = 4096 \<and>
    nodeToIndex ddbv_ops d' node = Some idx \<and> ddstate_live d' = {idx} \<and> ddstate_edges d' = {}"
  using newNode_fresh [of dd_state_ex 77] dd_state_ex_ok unfolding dd_state_ex_live by auto

text \<open>C23: \<^verbatim>\<open>onLock\<close> on a graph without cycles other than self loops.  The graph gains exactly the
  edges from the held locks to the new one, and the thread holds it once more.  For a lock that the
  thread does not hold yet the result is true if and only if the graph after the event has a cycle; for
  one that it already holds the result is always false, even when the new edges close a cycle.
\<close>

theorem onLock_detects_cycles:
  assumes "ddstate_ok d" and "ddtls_ok t" and "dt_epoch t = dd_epoch d" and "nodeToIndex ddbv_ops d node = Some i"
    and "i \<in> ddstate_live d" and "set_mset (ddtls_held t) \<subseteq> ddstate_live d" and "tls_room t i"
    and "acyclic (ddstate_edges d - Id)"
  shows "\<exists>d' t' r. onLock ddbv_ops d t node stk = Some (d', t', r) \<and> ddstate_ok d' \<and> ddtls_ok t' \<and>
    ddstate_edges d' = ddstate_edges d \<union> set_mset (ddtls_held t) \<times> {i} \<and>
    ddtls_held t' = add_mset i (ddtls_held t) \<and>
    (if i \<in># ddtls_held t then \<not> r else r \<longleftrightarrow> \<not> acyclic (ddstate_edges d' - Id))"
proof -
  let ?H = "set_mset (ddtls_held t)" and ?E = "ddstate_edges d"
  obtain d' t' where run: "onLock ddbv_ops d t node stk = Some (d', t', i \<notin> ?H \<and> ?H \<inter> ?E\<^sup>* `` {i} \<noteq> {})"
    "ddstate_ok d'" "ddstate_edges d' = ?E \<union> ?H \<times> {i}" "ddtls_ok t'" "ddtls_held t' = add_mset i (ddtls_held t)"
    using ddd.onLock_ok [OF assms(1-7), of stk] by (elim exE conjE) (rule that)
  have "?H \<inter> ?E\<^sup>* `` {i} \<noteq> {} \<longleftrightarrow> \<not> acyclic (ddstate_edges d' - Id)" if "i \<notin> ?H"
  proof -
    have "ddstate_edges d' - Id = (?E - Id) \<union> ?H \<times> {i}"
      using that run(3) by auto
    then show ?thesis
      using acyclic_add_edges [OF assms(8), of ?H i] by (simp add: rtrancl_minus_Id)
  qed
  then show ?thesis
    using run by (intro exI [of _ d'] exI [of _ t'] exI [of _ "i \<notin> ?H \<and> ?H \<inter> ?E\<^sup>* `` {i} \<noteq> {}"]) simp
qed

lemma dd_node_ex:
  "\<exists>d node i. ddstate_ok d \<and> dd_epoch d = 4096 \<and> nodeToIndex ddbv_ops d node = Some i \<and>
    ddstate_live d = {i} \<and> ddstate_edges d = {}"
proof -
  have e: "ddbv_abs (dd_available dd_state_ex) = {}" "ddbv_abs (dd_recycled dd_state_ex) = {}"
    "unat (dd_epoch dd_state_ex) + bv_size ddbv_ops < 2 ^ 64"
    using ddd.DokD(12) [OF conjunct1 [OF dd_state_ex_ok]] dd_state_ex_ok unfolding ddbv_size by simp_all
  obtain d1 where d1: "ddstate_ok d1" "ddbv_abs (dd_available d1) = {..<bv_size ddbv_ops}" "ddstate_edges d1 = {}"
    "dd_epoch d1 = dd_epoch dd_state_ex + dd_size ddbv_ops"
    using ddd.flush_ok [OF conjunct1 [OF dd_state_ex_ok] e] by blast
  have lv: "ddstate_live d1 = {}" and ne: "ddbv_abs (dd_available d1) \<noteq> {}"
    using d1(2) unfolding dd_live_def ddbv_size by (auto simp: lessThan_empty_iff)
  have ep: "dd_epoch d1 = 4096"
    using d1(4) dd_state_ex_ok unfolding dd_size_def ddbv_size by simp
  obtain d node i where "ddstate_ok d" "nodeToIndex ddbv_ops d node = Some i" "ddstate_live d = insert i {}"
    "dd_epoch d = 4096" "dd_g d = dd_g d1"
    using ddd.getAvailableNode_ok [OF d1(1) ne] unfolding lv ep by blast
  then show ?thesis
    using d1(3) by (intro exI [of _ d] exI [of _ node] exI [of _ i]) simp
qed

lemma dd_tls_epoch_ex:
  "\<exists>t. ddtls_ok t \<and> dt_epoch t = 4096 \<and> ddtls_held t = {#} \<and> dt_n_all_locks t = 0"
  using ddd.tls_ensure_ok [OF conjunct1 [OF dd_tls_ex_ok], of 4096] dd_tls_ex_ok dd_tls_ex_room
  by (intro exI [of _ "tls_ensureCurrentEpoch ddbv_ops dd_tls_ex 4096"]) (auto simp: tls_ensureCurrentEpoch_def)

text \<open>
  A recursive acquisition is not reported although it closes a cycle: a thread that holds \<open>i\<close> and \<open>j\<close>,
  taken in this order, and takes \<open>i\<close> again adds the edge back to \<open>i\<close>.
\<close>

lemma onLock_recursive_unreported:
  assumes "ddstate_ok d" and "ddtls_ok t" and "dt_epoch t = dd_epoch d" and "nodeToIndex ddbv_ops d node = Some i"
    and "i \<in> ddstate_live d" and "set_mset (ddtls_held t) \<subseteq> ddstate_live d" and "tls_room t i"
    and "i \<in># ddtls_held t" and "j \<in># ddtls_held t" and "i \<noteq> j" and "(i, j) \<in> ddstate_edges d"
  shows "\<exists>d' t'. onLock ddbv_ops d t node stk = Some (d', t', False) \<and> \<not> acyclic (ddstate_edges d' - Id)"
proof -
  obtain d' t' where r: "onLock ddbv_ops d t node stk = Some (d', t', i \<notin># ddtls_held t \<and>
      set_mset (ddtls_held t) \<inter> (ddstate_edges d)\<^sup>* `` {i} \<noteq> {})"
    "ddstate_edges d' = ddstate_edges d \<union> set_mset (ddtls_held t) \<times> {i}"
    using ddd.onLock_ok [OF assms(1-7), of stk] by (elim exE conjE) (rule that)
  have "(i, j) \<in> ddstate_edges d' - Id" "(j, i) \<in> ddstate_edges d' - Id"
    using assms(9-11) by (auto simp: r(2))
  then have "(i, i) \<in> (ddstate_edges d' - Id)\<^sup>+"
    by (meson trancl.r_into_trancl trancl_into_trancl)
  then show ?thesis
    using r(1) assms(8) by (auto simp: acyclic_def)
qed

lemma getAvailableNode_recycled: "getAvailableNode ops d data = Some (d', node) \<Longrightarrow> dd_recycled d' = dd_recycled d"
  by (auto simp: getAvailableNode_def Let_def split: Option.bind_splits prod.splits)

lemma dd_two_nodes_ex:
  "\<exists>d a b i j. ddstate_ok d \<and> dd_epoch d = 4096 \<and> nodeToIndex ddbv_ops d a = Some i \<and> nodeToIndex ddbv_ops d b = Some j \<and>
    i \<noteq> j \<and> ddstate_live d = {i, j} \<and> ddstate_edges d = {}"
proof -
  have e: "ddbv_abs (dd_available dd_state_ex) = {}" "ddbv_abs (dd_recycled dd_state_ex) = {}"
    "unat (dd_epoch dd_state_ex) + bv_size ddbv_ops < 2 ^ 64"
    using ddd.DokD(12) [OF conjunct1 [OF dd_state_ex_ok]] dd_state_ex_ok unfolding ddbv_size by simp_all
  obtain d1 where d1: "ddstate_ok d1" "ddbv_abs (dd_available d1) = {..<bv_size ddbv_ops}" "ddstate_edges d1 = {}"
    "dd_epoch d1 = dd_epoch dd_state_ex + dd_size ddbv_ops"
    using ddd.flush_ok [OF conjunct1 [OF dd_state_ex_ok] e] by blast
  have ep: "dd_epoch d1 = 4096" and ne: "ddbv_abs (dd_available d1) \<noteq> {}" and lv: "ddstate_live d1 = {}"
    using d1(2,4) dd_state_ex_ok unfolding dd_size_def dd_live_def ddbv_size by (auto simp: lessThan_empty_iff)
  obtain d2 a i where d2': "getAvailableNode ddbv_ops d1 0 = Some (d2, a)" and d2: "ddstate_ok d2" "nodeToIndex ddbv_ops d2 a = Some i" "ddstate_live d2 = {i}" "dd_epoch d2 = 4096" "dd_g d2 = dd_g d1"
    using ddd.getAvailableNode_ok [OF d1(1) ne] unfolding lv ep by blast
  have ne2: "ddbv_abs (dd_available d2) \<noteq> {}"
  proof
    assume "ddbv_abs (dd_available d2) = {}"
    moreover have "ddbv_abs (dd_recycled d1) = {}"
      using dd_bv.tl.abs_bound [OF ddd.DokD(2) [OF d1(1)]] ddd.DokD(9) [OF d1(1)] unfolding d1(2) by blast
    ultimately have "ddstate_live d2 = {..<bv_size ddbv_ops}"
      using getAvailableNode_recycled [OF d2'] by (simp add: dd_live_def)
    then have "card {..<bv_size ddbv_ops} = card {i}"
      using d2(3) by (simp only:)
    then show False
      unfolding ddbv_size by simp
  qed
  obtain d3 b j where d3: "ddstate_ok d3" "nodeToIndex ddbv_ops d3 b = Some j" "j \<notin> {i}" "ddstate_live d3 = {j, i}" "dd_epoch d3 = 4096" "dd_g d3 = dd_g d2"
    using ddd.getAvailableNode_ok [OF d2(1) ne2] unfolding d2(3,4) by blast
  have "nodeToIndex ddbv_ops d3 a = Some i"
    using d2(2,4) d3(5) ddd.nodeToIndex_epoch [of d3 d2] by simp
  then show ?thesis
    using d1(3) d2(5) d3 by (intro exI [of _ d3] exI [of _ a] exI [of _ b] exI [of _ i] exI [of _ j]) auto
qed

lemma few_locks_room:
  assumes "ddtls_ok t" and "size (ddtls_held t) \<le> 1"
  shows "dt_n_all_locks t < 64"
proof -
  have "card (set_mset (ddtls_held t)) \<le> 1"
    using assms(2) by (cases "ddtls_held t") auto
  then show ?thesis
    using ddd.n_all_locks_card [OF assms(1)] ddd.set_mset_held [OF assms(1)] by (simp only:)
qed

lemma onLock_step:
  assumes "ddstate_ok d" and "ddtls_ok t" and "dt_epoch t = dd_epoch d" and "nodeToIndex ddbv_ops d node = Some i"
    and "i \<in> ddstate_live d" and "set_mset (ddtls_held t) \<subseteq> ddstate_live d" and "i \<notin># ddtls_held t" and "dt_n_all_locks t < 64"
  shows "\<exists>d' t'. ddstate_ok d' \<and> ddstate_live d' = ddstate_live d \<and> dd_epoch d' = dd_epoch d \<and>
    ddstate_edges d' = ddstate_edges d \<union> set_mset (ddtls_held t) \<times> {i} \<and> ddtls_ok t' \<and> dt_epoch t' = dd_epoch d \<and>
    ddtls_held t' = add_mset i (ddtls_held t)"
proof -
  have "tls_room t i"
    using assms(7,8) by simp
  from ddd.onLock_ok [OF assms(1-6) this] show ?thesis
    by blast
qed

text \<open>
  Two threads that take two locks in different orders: the first one has held the lock of \<open>a\<close> while
  taking the other one, the second one holds the other one.
\<close>

lemma dd_conflict_ex:
  "\<exists>d t a i j. ddstate_ok d \<and> dd_epoch d = 4096 \<and> ddtls_ok t \<and> dt_epoch t = 4096 \<and> nodeToIndex ddbv_ops d a = Some i \<and> i \<noteq> j \<and>
    ddstate_live d = {i, j} \<and> ddtls_held t = {#j#} \<and> ddstate_edges d = {(i, j)} \<and> dt_n_all_locks t < 64"
proof -
  obtain d a b i j where d: "ddstate_ok d" "dd_epoch d = 4096" "nodeToIndex ddbv_ops d a = Some i" "nodeToIndex ddbv_ops d b = Some j"
    "i \<noteq> j" "ddstate_live d = {i, j}" "ddstate_edges d = {}"
    using dd_two_nodes_ex by blast
  obtain t where t: "ddtls_ok t" "dt_epoch t = 4096" "ddtls_held t = {#}" "dt_n_all_locks t = 0"
    using dd_tls_epoch_ex by blast
  have idx: "nodeToIndex ddbv_ops d' a = Some i" "nodeToIndex ddbv_ops d' b = Some j" if "dd_epoch d' = 4096" for d'
    using d(2-4) that ddd.nodeToIndex_epoch [of d' d] by (simp_all only:)
  have "dt_epoch t = dd_epoch d" "i \<in> ddstate_live d" "set_mset (ddtls_held t) \<subseteq> ddstate_live d" "i \<notin># ddtls_held t" "dt_n_all_locks t < 64"
    unfolding d t by simp_all
  from onLock_step [OF d(1) t(1) this(1) d(3) this(2-5)] obtain d1 t1 where
    1: "ddstate_ok d1" "ddstate_live d1 = {i, j}" "dd_epoch d1 = 4096" "ddstate_edges d1 = {}" "ddtls_ok t1" "dt_epoch t1 = 4096" "ddtls_held t1 = {#i#}"
    unfolding d(2,6,7) t(3) by auto
  have "dt_epoch t1 = dd_epoch d1" "j \<in> ddstate_live d1" "set_mset (ddtls_held t1) \<subseteq> ddstate_live d1" "j \<notin># ddtls_held t1"
    using d(5) unfolding 1 by simp_all
  from onLock_step [OF 1(1,5) this(1) idx(2) [OF 1(3)] this(2-4) few_locks_room [OF 1(5)]] obtain d2 where
    2: "ddstate_ok d2" "ddstate_live d2 = {i, j}" "dd_epoch d2 = 4096" "ddstate_edges d2 = {(i, j)}"
    unfolding 1(2-4,7) by auto
  have "dt_epoch t = dd_epoch d2" "j \<in> ddstate_live d2" "set_mset (ddtls_held t) \<subseteq> ddstate_live d2" "j \<notin># ddtls_held t" "dt_n_all_locks t < 64"
    unfolding 2 t by simp_all
  from onLock_step [OF 2(1) t(1) this(1) idx(2) [OF 2(3)] this(2-5)] obtain d3 t3 where
    3: "ddstate_ok d3" "ddstate_live d3 = {i, j}" "dd_epoch d3 = 4096" "ddstate_edges d3 = {(i, j)}" "ddtls_ok t3" "dt_epoch t3 = 4096" "ddtls_held t3 = {#j#}"
    unfolding 2(2-4) t(3) by auto
  then show ?thesis
    using d(5) idx(1) [OF 3(3)] few_locks_room [OF 3(5)] by (intro exI [of _ d3] exI [of _ t3] exI [of _ a] exI [of _ i] exI [of _ j]) simp
qed

theorem onLock_detects_cycles_witness:
  "\<exists>d t node i j d' t'. ddstate_ok d \<and> ddtls_held t = {#j#} \<and> ddstate_edges d = {(i, j)} \<and> i \<noteq> j \<and>
     onLock ddbv_ops d t node 7 = Some (d', t', True) \<and> ddstate_edges d' = {(i, j), (j, i)}"
proof -
  obtain d t node i j where c: "ddstate_ok d" "dd_epoch d = 4096" "ddtls_ok t" "dt_epoch t = 4096" "nodeToIndex ddbv_ops d node = Some i"
    "i \<noteq> j" "ddstate_live d = {i, j}" "ddtls_held t = {#j#}" "ddstate_edges d = {(i, j)}" "dt_n_all_locks t < 64"
    using dd_conflict_ex by blast
  have h: "dt_epoch t = dd_epoch d" "i \<in> ddstate_live d" "set_mset (ddtls_held t) \<subseteq> ddstate_live d" "tls_room t i"
    using c(6,10) unfolding c(2,4,7,8) by simp_all
  have "acyclic {}"
    by (simp add: acyclic_def)
  then have ac: "acyclic (ddstate_edges d - Id)"
    using c(6) unfolding c(9) by (auto simp: acyclic_insert insert_Diff_if dest: rtranclD)
  obtain d' t' r where r: "onLock ddbv_ops d t node 7 = Some (d', t', r)" "ddstate_edges d' = {(i, j), (j, i)}" "r \<longleftrightarrow> \<not> acyclic (ddstate_edges d' - Id)"
    using onLock_detects_cycles [OF c(1,3) h(1) c(5) h(2-4) ac, of 7] c(6) unfolding c(8,9) by (auto simp: insert_commute)
  have "{(i, j), (j, i)} - Id = {(i, j), (j, i)}"
    using c(6) by auto
  then have "(i, i) \<in> (ddstate_edges d' - Id)\<^sup>+"
    unfolding r(2) by (simp only:) (rule trancl_into_trancl [of _ j], auto)
  then have "r"
    using r(3) by (auto simp: acyclic_def)
  then show ?thesis
    using r c by (intro exI [of _ d] exI [of _ t] exI [of _ node] exI [of _ i] exI [of _ j] exI [of _ d'] exI [of _ t']) simp
qed


end
