(* ===== verification/Deadlock_Detector1.thy ===== *)
theory Deadlock_Detector1
  imports Deadlock_Detector
begin

text \<open>
  \<^verbatim>\<open>sanitizer_deadlock_detector1.cpp\<close> and the structures of
  \<^verbatim>\<open>sanitizer_deadlock_detector_interface.h\<close>: the handlers that the runtime calls around
  every mutex operation.  The mutexes live in the program's memory, a map from addresses, and the
  data of a node is the address of its mutex.  The two callbacks are arguments: \<open>cb_Unwind\<close> gives
  the result of each successive call of a handler, \<open>cb_UniqueTid\<close> the thread id.  The handlers
  run one after the other, as the spin mutex arranges for everything but the racy read in
  \<^verbatim>\<open>hasAllEdges\<close>.
\<close>

section \<open>Structures\<close>

record dd_mutex =
  dm_id :: u64
  dm_stk :: u32
  dm_ctx :: u64

record dd_loop_entry =
  dl_thr_ctx :: u64
  dl_mtx_ctx0 :: u64
  dl_mtx_ctx1 :: u64
  dl_stk0 :: u32
  dl_stk1 :: u32

record dd_report =
  dr_n :: nat
  dr_loop :: "dd_loop_entry list"

record dd_lthread =
  lt_ctx :: u64
  lt_dd :: "ddbv dd_tls"
  lt_rep :: dd_report
  lt_report_pending :: bool

record dd_callback =
  cb_Unwind :: "nat \<Rightarrow> u32"
  cb_UniqueTid :: "32 word"

record dd_detector =
  ddd_dd :: "ddbv dd_state"
  ddd_second_deadlock_stack :: bool
  ddd_mutexes :: "u64 \<rightharpoonup> dd_mutex"

section \<open>Handlers\<close>

text \<open>The memory of the detector and of a thread comes from the allocator, with arbitrary contents.\<close>

definition DD_Create :: "dd_detector \<Rightarrow> bool \<Rightarrow> dd_detector" where
  "DD_Create mem flag = mem\<lparr>ddd_dd := dd_clear ddbv_ops (ddd_dd mem), ddd_second_deadlock_stack := flag\<rparr>"

definition CreateLogicalThread :: "dd_lthread \<Rightarrow> u64 \<Rightarrow> dd_lthread" where
  "CreateLogicalThread mem ctx =
     mem\<lparr>lt_ctx := ctx, lt_dd := tls_clear ddbv_ops (lt_dd mem), lt_report_pending := False\<rparr>"

definition MutexInit :: "dd_detector \<Rightarrow> dd_callback \<Rightarrow> u64 \<Rightarrow> dd_detector option" where
  "MutexInit D cb m = do {
     mu \<leftarrow> ddd_mutexes D m;
     Some (D\<lparr>ddd_mutexes := (ddd_mutexes D)(m \<mapsto> mu\<lparr>dm_id := 0, dm_stk := cb_Unwind cb 0\<rparr>)\<rparr>) }"

definition MutexEnsureID :: "dd_detector \<Rightarrow> dd_lthread \<Rightarrow> u64 \<Rightarrow> (dd_detector \<times> dd_lthread) option" where
  "MutexEnsureID D lt m = do {
     mu \<leftarrow> ddd_mutexes D m;
     D \<leftarrow> (if \<not> nodeBelongsToCurrentEpoch ddbv_ops (ddd_dd D) (dm_id mu) then do {
         (d, node) \<leftarrow> newNode ddbv_ops (ddd_dd D) m;
         Some (D\<lparr>ddd_dd := d, ddd_mutexes := (ddd_mutexes D)(m \<mapsto> mu\<lparr>dm_id := node\<rparr>)\<rparr>) }
       else Some D);
     Some (D, lt\<lparr>lt_dd := dd_ensureCurrentEpoch ddbv_ops (ddd_dd D) (lt_dd lt)\<rparr>) }"

text \<open>
  One entry of the report.  \<^verbatim>\<open>findEdge\<close> leaves the zeros in place when the edge was not
  logged.
\<close>

definition report_step :: "dd_detector \<Rightarrow> u64 list \<Rightarrow> nat \<Rightarrow> nat \<Rightarrow> dd_loop_entry list \<Rightarrow> dd_loop_entry list option" where
  "report_step D path len i entries = do {
     from \<leftarrow> arr_get path i;
     to \<leftarrow> arr_get path ((i + 1) mod len);
     a0 \<leftarrow> dd_getData ddbv_ops (ddd_dd D) from;
     a1 \<leftarrow> dd_getData ddbv_ops (ddd_dd D) to;
     hit \<leftarrow> findEdge ddbv_ops (ddd_dd D) from to;
     let (stk_from, stk_to, unique_tid) =
       (case hit of Some e \<Rightarrow> (de_stk_from e, de_stk_to e, de_unique_tid e) | None \<Rightarrow> (0, 0, 0));
     m0 \<leftarrow> ddd_mutexes D a0;
     m1 \<leftarrow> ddd_mutexes D a1;
     arr_set entries i \<lparr>dl_thr_ctx = scast unique_tid, dl_mtx_ctx0 = dm_ctx m0, dl_mtx_ctx1 = dm_ctx m1,
       dl_stk0 = stk_to, dl_stk1 = stk_from\<rparr> }"

definition ReportDeadlock :: "dd_detector \<Rightarrow> dd_lthread \<Rightarrow> u64 \<Rightarrow> (dd_detector \<times> dd_lthread) option" where
  "ReportDeadlock D lt m = do {
     mu \<leftarrow> ddd_mutexes D m;
     (d, path, len) \<leftarrow> findPathToLock ddbv_ops ddbv_it_ops (ddd_dd D) (lt_dd lt) (dm_id mu) (replicate 20 0) 20;
     let D = D\<lparr>ddd_dd := d\<rparr>;
     if len = 0 then Some (D, lt)
     else do {
       p0 \<leftarrow> arr_get path 0;
       check (dm_id mu = p0);
       let len = min len 20;
       entries \<leftarrow> foldM (report_step D path len) [0..<len] (dr_loop (lt_rep lt));
       Some (D, lt\<lparr>lt_report_pending := True, lt_rep := \<lparr>dr_n = len, dr_loop = entries\<rparr>\<rparr>) } }"

definition MutexBeforeLock :: "dd_detector \<Rightarrow> dd_callback \<Rightarrow> dd_lthread \<Rightarrow> u64 \<Rightarrow> (dd_detector \<times> dd_lthread) option" where
  "MutexBeforeLock D cb lt m = do {
     mu \<leftarrow> ddd_mutexes D m;
     if tls_empty ddbv_ops (lt_dd lt) then Some (D, lt)
     else do {
       all \<leftarrow> hasAllEdges ddbv_ops (ddd_dd D) (lt_dd lt) (dm_id mu);
       if all then Some (D, lt)
       else do {
         (D, lt) \<leftarrow> MutexEnsureID D lt m;
         mu \<leftarrow> ddd_mutexes D m;
         held \<leftarrow> isHeld ddbv_ops (ddd_dd D) (lt_dd lt) (dm_id mu);
         if held then Some (D, lt)
         else do {
           (d, t, cycle) \<leftarrow> onLockBefore ddbv_ops (ddd_dd D) (lt_dd lt) (dm_id mu);
           let D = D\<lparr>ddd_dd := d\<rparr>;
           let lt = lt\<lparr>lt_dd := t\<rparr>;
           if cycle then do {
             (d, t, _) \<leftarrow> dd_addEdges ddbv_ops (ddd_dd D) (lt_dd lt) (dm_id mu) (cb_Unwind cb 0) (cb_UniqueTid cb);
             ReportDeadlock (D\<lparr>ddd_dd := d\<rparr>) (lt\<lparr>lt_dd := t\<rparr>) m }
           else Some (D, lt) } } } }"


definition MutexBeforeUnlock :: "dd_detector \<Rightarrow> dd_lthread \<Rightarrow> u64 \<Rightarrow> dd_lthread option" where
  "MutexBeforeUnlock D lt m = do {
     mu \<leftarrow> ddd_mutexes D m;
     t \<leftarrow> onUnlock ddbv_ops (lt_dd lt) (dm_id mu);
     Some (lt\<lparr>lt_dd := t\<rparr>) }"

definition MutexDestroy :: "dd_detector \<Rightarrow> u64 \<Rightarrow> dd_detector option" where
  "MutexDestroy D m = do {
     mu \<leftarrow> ddd_mutexes D m;
     if dm_id mu = 0 then Some D
     else do {
       d \<leftarrow> (if nodeBelongsToCurrentEpoch ddbv_ops (ddd_dd D) (dm_id mu)
         then removeNode ddbv_ops (ddd_dd D) (dm_id mu) else Some (ddd_dd D));
       Some (D\<lparr>ddd_dd := d, ddd_mutexes := (ddd_mutexes D)(m \<mapsto> mu\<lparr>dm_id := 0\<rparr>)\<rparr>) } }"

definition GetReport :: "dd_lthread \<Rightarrow> dd_lthread \<times> dd_report option" where
  "GetReport lt =
     (if \<not> lt_report_pending lt then (lt, None)
      else (lt\<lparr>lt_report_pending := False\<rparr>, Some (lt_rep lt)))"

section \<open>The handlers on a mutex of the current epoch\<close>

text \<open>The thread is in the detector's epoch, and mutex \<open>m\<close> has the live index \<open>i\<close> there.\<close>

definition dd_setup :: "dd_detector \<Rightarrow> dd_lthread \<Rightarrow> u64 \<Rightarrow> dd_mutex \<Rightarrow> nat \<Rightarrow> bool" where
  "dd_setup D lt m mu i \<longleftrightarrow> ddstate_ok (ddd_dd D) \<and> ddtls_ok (lt_dd lt) \<and>
     dt_epoch (lt_dd lt) = dd_epoch (ddd_dd D) \<and> dd_epoch (ddd_dd D) \<noteq> 0 \<and>
     ddd_mutexes D m = Some mu \<and> nodeToIndex ddbv_ops (ddd_dd D) (dm_id mu) = Some i \<and>
     i \<in> ddstate_live (ddd_dd D) \<and> set_mset (ddtls_held (lt_dd lt)) \<subseteq> ddstate_live (ddd_dd D)"

lemma dd_setupD:
  assumes "dd_setup D lt m mu i"
  shows "ddstate_ok (ddd_dd D)" and "ddtls_ok (lt_dd lt)" and "dt_epoch (lt_dd lt) = dd_epoch (ddd_dd D)"
    and "nodeToIndex ddbv_ops (ddd_dd D) (dm_id mu) = Some i" and "i \<in> ddstate_live (ddd_dd D)"
    and "set_mset (ddtls_held (lt_dd lt)) \<subseteq> ddstate_live (ddd_dd D)"
    and "dd_epoch (ddd_dd D) \<noteq> 0" and "ddd_mutexes D m = Some mu"
  using assms by (simp_all add: dd_setup_def)

lemma MutexEnsureID_current:
  assumes "dd_setup D lt m mu i"
  shows "MutexEnsureID D lt m = Some (D, lt)"
proof -
  note s = dd_setupD [OF assms]
  have "nodeBelongsToCurrentEpoch ddbv_ops (ddd_dd D) (dm_id mu)"
    using ddd.nodeBelongs_iff [OF s(1,7)] s(4) by blast
  then show ?thesis
    using s(3,8) by (simp add: MutexEnsureID_def dd_ensureCurrentEpoch_def tls_ensureCurrentEpoch_def)
qed





section \<open>Reports\<close>

text \<open>The address of the mutex that stands for an index.\<close>

definition ctx_at :: "dd_detector \<Rightarrow> nat \<Rightarrow> u64 option" where
  "ctx_at D j = map_option dm_ctx (ddd_mutexes D (dd_data (ddd_dd D) ! j))"

lemma findEdge_total:
  assumes "ddstate_ok d" and "nodeToIndex ddbv_ops d a = Some i" and "nodeToIndex ddbv_ops d b = Some j"
  shows "\<exists>r. findEdge ddbv_ops d a b = Some r"
  using ddd.DokD(6,7) [OF assms(1)] assms(2,3) by (simp add: findEdge_def search_up_from_0)

lemma getData_index:
  assumes "ddstate_ok d" and "nodeToIndex ddbv_ops d a = Some i"
  shows "dd_getData ddbv_ops d a = Some (dd_data d ! i)"
  using ddd.DokD(5) [OF assms(1)] ddd.nodeToIndex_less [OF assms(2)] assms(2) by (simp add: dd_getData_def)

lemma report_entries_ok:
  assumes "ddstate_ok (ddd_dd D)" and "0 < len" and "len \<le> length path" and "len \<le> length entries"
    and "\<And>j. j < len \<Longrightarrow> nodeToIndex ddbv_ops (ddd_dd D) (path ! j) = Some (ps ! j)"
    and "\<And>j. j < len \<Longrightarrow> ctx_at D (ps ! j) \<noteq> None"
  shows "\<exists>entries'. foldM (report_step D path len) [0..<len] entries = Some entries' \<and>
    (\<forall>j<len. Some (dl_mtx_ctx0 (entries' ! j)) = ctx_at D (ps ! j) \<and>
      Some (dl_mtx_ctx1 (entries' ! j)) = ctx_at D (ps ! (Suc j mod len)))"
proof -
  let ?I = "\<lambda>k (entries' :: dd_loop_entry list). length entries' = length entries \<and>
    (\<forall>j<k. Some (dl_mtx_ctx0 (entries' ! j)) = ctx_at D (ps ! j) \<and>
      Some (dl_mtx_ctx1 (entries' ! j)) = ctx_at D (ps ! (Suc j mod len)))"
  have "\<exists>entries'. foldM (report_step D path len) [0..<len] entries = Some entries' \<and> ?I len entries'"
  proof (rule foldM_upt_invariant [where I = ?I])
    fix j and es :: "dd_loop_entry list"
    assume j: "j < len" and I: "?I j es"
    define k where "k = (j + 1) mod len"
    have k: "k < len" "Suc j mod len = k"
      using assms(2) by (simp_all add: k_def)
    note n = assms(5) [OF j] assms(5) [OF k(1)]
    obtain m0 m1 where m: "ddd_mutexes D (dd_data (ddd_dd D) ! (ps ! j)) = Some m0"
      "ddd_mutexes D (dd_data (ddd_dd D) ! (ps ! k)) = Some m1"
      using assms(6) [OF j] assms(6) [OF k(1)] by (auto simp: ctx_at_def)
    obtain r where r: "findEdge ddbv_ops (ddd_dd D) (path ! j) (path ! k) = Some r"
      using findEdge_total [OF assms(1) n] by blast
    have len: "j < length path" "k < length path" "j < length es"
      using j k(1) assms(3,4) I by auto
    obtain e where "report_step D path len j es = Some (es[j := e])" "dl_mtx_ctx0 e = dm_ctx m0" "dl_mtx_ctx1 e = dm_ctx m1"
      unfolding report_step_def k_def [symmetric]
      using len m r getData_index [OF assms(1) n(1)] getData_index [OF assms(1) n(2)]
      by (cases r) auto
    then show "\<exists>es'. report_step D path len j es = Some es' \<and> ?I (Suc j) es'"
      using I m len(3) by (auto simp: ctx_at_def less_Suc_eq k(2))
  qed simp_all
  then show ?thesis
    by blast
qed

text \<open>A path that ends in a live node has only live nodes: a recycled node has no successors.\<close>

lemma path_in_domain:
  assumes "successively (\<lambda>a b. (a, b) \<in> E) ps" and "x \<in> set ps"
  shows "x \<in> Domain E \<or> x = last ps"
  using assms by (induction ps rule: induct_list012) auto

lemma path_live:
  assumes "ddstate_ok d" and "path_to (ddstate_edges d) i H ps" and "H \<subseteq> ddstate_live d" and "x \<in> set ps"
  shows "x \<in> ddstate_live d"
  using path_in_domain [of "ddstate_edges d" ps x] ddd.DokD(10) [OF assms(1)] assms(2-4)
  by (auto simp: path_to_def)

lemma ReportDeadlock_ok:
  assumes "dd_setup D lt m mu i" and "i \<notin># ddtls_held (lt_dd lt)" and "length (dr_loop (lt_rep lt)) = 20"
    and "\<And>j. j \<in> ddstate_live (ddd_dd D) \<Longrightarrow> ctx_at D j \<noteq> None"
  defines "H \<equiv> set_mset (ddtls_held (lt_dd lt))" and "E \<equiv> ddstate_edges (ddd_dd D)"
  shows "\<exists>D' lt'. ReportDeadlock D lt m = Some (D', lt') \<and> ddstate_ok (ddd_dd D') \<and>
    ddstate_edges (ddd_dd D') = E \<and> lt_dd lt' = lt_dd lt \<and>
    (if \<forall>ps. path_to E i H ps \<longrightarrow> 20 < length ps then lt' = lt
     else lt_report_pending lt' \<and> (\<exists>ps. path_to E i H ps \<and> dr_n (lt_rep lt') = length ps \<and>
       (\<forall>j<length ps. Some (dl_mtx_ctx0 (dr_loop (lt_rep lt') ! j)) = ctx_at D (ps ! j) \<and>
         Some (dl_mtx_ctx1 (dr_loop (lt_rep lt') ! j)) = ctx_at D (ps ! (Suc j mod length ps)))))"
proof -
  note s = dd_setupD [OF assms(1)]
  obtain tmp np r ps where p: "findPathToLock ddbv_ops ddbv_it_ops (ddd_dd D) (lt_dd lt) (dm_id mu) (replicate 20 0) 20 =
      Some ((ddd_dd D)\<lparr>dd_tmp := tmp\<rparr>, np, r)" "ddbv_shape tmp" "length np = 20" "r \<le> 20"
    and fin: "if r = 0 then \<forall>ps. path_to E i H ps \<longrightarrow> 20 < length ps
     else path_to E i H ps \<and> length ps = r \<and> (\<forall>j<r. nodeToIndex ddbv_ops (ddd_dd D) (np ! j) = Some (ps ! j)) \<and>
       (\<forall>qs. path_to E i H qs \<longrightarrow> r \<le> length qs)"
    using ddd.findPathToLock_ok [OF s(1,2,3,7,4) assms(2), of 20 "replicate 20 0"] unfolding H_def E_def by auto
  let ?D = "D\<lparr>ddd_dd := (ddd_dd D)\<lparr>dd_tmp := tmp\<rparr>\<rparr>"
  have ok: "ddstate_ok (ddd_dd ?D)"
    using s(1) p(2) by (simp add: dd_ok_def dd_live_def log_ok_def list_all_iff)
  have idx: "nodeToIndex ddbv_ops (ddd_dd ?D) = nodeToIndex ddbv_ops (ddd_dd D)"
    by (intro ext ddd.nodeToIndex_epoch) simp
  show ?thesis
  proof (cases "r = 0")
    case True
    then have "ReportDeadlock D lt m = Some (?D, lt)"
      using s(8) p(1) by (simp add: ReportDeadlock_def)
    then show ?thesis
      using ok fin True by (simp add: E_def)
  next
    case False
    then have ps: "path_to E i H ps" "length ps = r" "\<And>j. j < r \<Longrightarrow> nodeToIndex ddbv_ops (ddd_dd D) (np ! j) = Some (ps ! j)"
      using fin by auto
    have "ps ! j \<in> ddstate_live (ddd_dd D)" if "j < r" for j
      using path_live [OF s(1) ps(1) [unfolded E_def], of "ps ! j"] s(6) that ps(2) unfolding H_def by simp
    moreover have ctx: "ctx_at ?D = ctx_at D"
      by (intro ext) (simp add: ctx_at_def)
    ultimately obtain es where es: "foldM (report_step ?D np r) [0..<r] (dr_loop (lt_rep lt)) = Some es"
      "\<forall>j<r. Some (dl_mtx_ctx0 (es ! j)) = ctx_at D (ps ! j) \<and> Some (dl_mtx_ctx1 (es ! j)) = ctx_at D (ps ! (Suc j mod r))"
      using report_entries_ok [OF ok, of r np "dr_loop (lt_rep lt)" ps] False p(3,4) assms(3,4) ps(3)
      unfolding idx ctx by auto
    have "ps ! 0 = i"
      using ps(1) by (auto simp: path_to_def hd_conv_nth)
    then have "np ! 0 = dm_id mu"
      using ddd.nodeToIndex_inj [OF ps(3) [of 0], of "dm_id mu"] s(4) False by simp
    then have "ReportDeadlock D lt m = Some (?D, lt\<lparr>lt_report_pending := True, lt_rep := \<lparr>dr_n = r, dr_loop = es\<rparr>\<rparr>)"
      using s(8) p(1,3,4) es(1) False by (simp add: ReportDeadlock_def check_def min_def)
    moreover have "\<not> (\<forall>ps. path_to E i H ps \<longrightarrow> 20 < length ps)"
      using ps(1,2) p(4) by auto
    ultimately show ?thesis
      using ok ps(1,2) es(2) by (auto simp: E_def)
  qed
qed

text \<open>C22: when \<^verbatim>\<open>MutexBeforeLock\<close> reports a deadlock.  It returns at once, leaving graph and report
  alone, when the thread already holds the mutex, when every edge from a held lock to the mutex is known
  (in particular when nothing is held), and when no held lock is reachable from the mutex.  Otherwise it
  adds the edges, and makes a report exactly when a held lock is reachable through a path of at most 20
  locks, the length of the report.  A report names a real cycle of the graph: entry \<open>j\<close> joins lock \<open>j\<close> of
  a path from the mutex to a held lock to the next one, and the last one back to the mutex.
\<close>

theorem MutexBeforeLock_reports_cycles:
  assumes "dd_setup D lt m mu i" and "length (dr_loop (lt_rep lt)) = 20"
    and "\<And>j. j \<in> ddstate_live (ddd_dd D) \<Longrightarrow> ctx_at D j \<noteq> None"
  defines "H \<equiv> set_mset (ddtls_held (lt_dd lt))" and "E \<equiv> ddstate_edges (ddd_dd D)"
  shows "\<exists>D' lt'. MutexBeforeLock D cb lt m = Some (D', lt') \<and> ddstate_ok (ddd_dd D') \<and> lt_dd lt' = lt_dd lt \<and>
    (if i \<in> H \<or> H \<times> {i} \<subseteq> E \<or> H \<inter> E\<^sup>* `` {i} = {} then ddstate_edges (ddd_dd D') = E \<and> lt' = lt
     else ddstate_edges (ddd_dd D') = E \<union> H \<times> {i} \<and>
       (if \<forall>ps. path_to (E \<union> H \<times> {i}) i H ps \<longrightarrow> 20 < length ps then lt' = lt
        else lt_report_pending lt' \<and> (\<exists>ps. path_to (E \<union> H \<times> {i}) i H ps \<and> dr_n (lt_rep lt') = length ps \<and>
          (\<forall>j<length ps. Some (dl_mtx_ctx0 (dr_loop (lt_rep lt') ! j)) = ctx_at D (ps ! j) \<and>
            Some (dl_mtx_ctx1 (dr_loop (lt_rep lt') ! j)) = ctx_at D (ps ! (Suc j mod length ps))))))"
proof -
  note s = dd_setupD [OF assms(1)]
  let ?t = "lt_dd lt" and ?d = "ddd_dd D" and ?id = "dm_id mu"
  have all: "hasAllEdges ddbv_ops ?d ?t ?id = Some (H \<times> {i} \<subseteq> E)"
    using ddd.hasAllEdges_ok [OF s(1-4)] by (auto simp: H_def E_def)
  have emp: "tls_empty ddbv_ops ?t \<longleftrightarrow> H = {}"
    using ddd.tls_empty_ok [OF s(2)] by (simp add: H_def)
  have held: "isHeld ddbv_ops ?d ?t ?id = Some (i \<in> H)"
    using ddd.isHeld_ok [OF s(1-4)] by (simp add: H_def)
  obtain g where g: "onLockBefore ddbv_ops ?d ?t ?id = Some (?d\<lparr>dd_g := g\<rparr>, ?t, H \<inter> E\<^sup>* `` {i} \<noteq> {})"
    "dd_graph_inv g" "dd_edges g = E"
    using ddd.onLockBefore_ok [OF s(1-4)] unfolding H_def E_def by blast
  let ?d1 = "?d\<lparr>dd_g := g\<rparr>"
  have d1: "ddstate_ok ?d1" "ddstate_live ?d1 = ddstate_live ?d"
    using ddd.Dok_graph [OF s(1) g(2)] g(3) by (simp_all add: E_def)
  note unfold = MutexBeforeLock_def Let_def s(8) Option.bind.bind_lunit emp all MutexEnsureID_current [OF assms(1)]
    case_prod_conv held g(1)
  consider "H \<times> {i} \<subseteq> E" | "\<not> H \<times> {i} \<subseteq> E" "i \<in> H" | "\<not> H \<times> {i} \<subseteq> E" "i \<notin> H" "H \<inter> E\<^sup>* `` {i} = {}"
    | "\<not> H \<times> {i} \<subseteq> E" "i \<notin> H" "H \<inter> E\<^sup>* `` {i} \<noteq> {}"
    by blast
  then show ?thesis
  proof cases
    case 1
    then have "MutexBeforeLock D cb lt m = Some (D, lt)"
      unfolding unfold by simp
    then show ?thesis
      using 1 s(1) by (simp add: E_def)
  next
    case 2
    then have "MutexBeforeLock D cb lt m = Some (D, lt)"
      unfolding unfold by auto
    then show ?thesis
      using 2 s(1) by (simp add: E_def)
  next
    case 3
    then have "MutexBeforeLock D cb lt m = Some (D\<lparr>ddd_dd := ?d1\<rparr>, lt)"
      unfolding unfold by auto
    then show ?thesis
      using 3 d1(1) g(3) by simp
  next
    case 4
    have n1: "nodeToIndex ddbv_ops ?d1 ?id = Some i"
      using s(4) ddd.nodeToIndex_epoch [of ?d1 ?d] by simp
    obtain d2 k where d2: "dd_addEdges ddbv_ops ?d1 ?t ?id (cb_Unwind cb 0) (cb_UniqueTid cb) = Some (d2, ?t, k)"
      "ddstate_ok d2" "ddstate_live d2 = ddstate_live ?d" "dd_epoch d2 = dd_epoch ?d" "dd_data d2 = dd_data ?d"
      "ddstate_edges d2 = E \<union> H \<times> {i}"
      using ddd.dd_addEdges_ok [OF d1(1) s(2) _ n1, of "cb_Unwind cb 0" "cb_UniqueTid cb"] s(3,5,6) d1(2) g(3)
      by (auto simp: H_def)
    let ?D = "D\<lparr>ddd_dd := d2\<rparr>"
    have "MutexBeforeLock D cb lt m = ReportDeadlock ?D lt m"
      unfolding unfold using 4 d2(1) by auto
    moreover have st: "dd_setup ?D lt m mu i"
      using s d2 ddd.nodeToIndex_epoch [OF d2(4)] by (simp add: dd_setup_def)
    have ctx: "ctx_at ?D = ctx_at D" and sel: "ddd_dd ?D = d2"
      by (auto simp: ctx_at_def d2(5))
    have "\<not> (i \<in> H \<or> H \<times> {i} \<subseteq> E \<or> H \<inter> E\<^sup>* `` {i} = {})"
      using 4 by blast
    moreover have "i \<notin># ddtls_held (lt_dd lt)"
      using 4(2) by (simp add: H_def)
    note R = ReportDeadlock_ok [OF st this assms(2), unfolded ctx sel d2(3,6), folded H_def, OF assms(3)]
    ultimately show ?thesis
      using R by (simp only: if_False) blast
  qed
qed

theorem MutexBeforeLock_reports_cycles_witness:
  "\<exists>D lt D' lt'. \<not> lt_report_pending lt \<and> size (ddtls_held (lt_dd lt)) = 1 \<and> card (ddstate_edges (ddd_dd D)) = 1 \<and>
    MutexBeforeLock D \<lparr>cb_Unwind = \<lambda>_. 5, cb_UniqueTid = 1\<rparr> lt 1000 = Some (D', lt') \<and>
    lt_report_pending lt' \<and> 2 \<le> dr_n (lt_rep lt')"
proof -
  obtain d t node i j where c: "ddstate_ok d" "dd_epoch d = 4096" "ddtls_ok t" "dt_epoch t = 4096" "nodeToIndex ddbv_ops d node = Some i"
    "i \<noteq> j" "ddstate_live d = {i, j}" "ddtls_held t = {#j#}" "ddstate_edges d = {(i, j)}"
    using dd_conflict_ex by blast
  define mu where "mu = \<lparr>dm_id = node, dm_stk = 0, dm_ctx = 3\<rparr>"
  define D where "D = \<lparr>ddd_dd = d, ddd_second_deadlock_stack = False, ddd_mutexes = \<lambda>_. Some mu\<rparr>"
  define lt where "lt = \<lparr>lt_ctx = 0, lt_dd = t, lt_rep = \<lparr>dr_n = 0, dr_loop = replicate 20
    \<lparr>dl_thr_ctx = 0, dl_mtx_ctx0 = 0, dl_mtx_ctx1 = 0, dl_stk0 = 0, dl_stk1 = 0\<rparr>\<rparr>, lt_report_pending = False\<rparr>"
  have sel: "ddd_dd D = d" "ddd_mutexes D a = Some mu" "dm_id mu = node" "lt_dd lt = t" "length (dr_loop (lt_rep lt)) = 20" for a
    by (simp_all add: D_def lt_def mu_def)
  have s: "dd_setup D lt 1000 mu i" and ctx: "ctx_at D k \<noteq> None" for k
    unfolding dd_setup_def ctx_at_def sel using c(1,3,5) unfolding c(2,4,7,8) by simp_all
  let ?E = "{(i, j), (j, i)}"
  have n: "\<not> (i \<in> set_mset {#j#} \<or> set_mset {#j#} \<times> {i} \<subseteq> {(i, j)} \<or> set_mset {#j#} \<inter> {(i, j)}\<^sup>* `` {i} = {})"
    using c(6) by auto
  have E: "{(i, j)} \<union> set_mset {#j#} \<times> {i} = ?E"
    by auto
  have "path_to ?E i (set_mset {#j#}) [i, j]"
    by (simp add: path_to_def)
  then have p: "\<not> (\<forall>ps. path_to ?E i (set_mset {#j#}) ps \<longrightarrow> 20 < length ps)"
    by fastforce
  obtain D' lt' ps where r: "MutexBeforeLock D \<lparr>cb_Unwind = \<lambda>_. 5, cb_UniqueTid = 1\<rparr> lt 1000 = Some (D', lt')" "lt_report_pending lt'"
    "path_to ?E i (set_mset {#j#}) ps" "dr_n (lt_rep lt') = length ps"
    using MutexBeforeLock_reports_cycles [OF s sel(5) ctx, of "\<lparr>cb_Unwind = \<lambda>_. 5, cb_UniqueTid = 1\<rparr>"]
    unfolding sel c(8,9) if_not_P [OF n] E if_not_P [OF p] by blast
  have "2 \<le> length ps"
    using r(3) c(6) by (cases ps rule: remdups_adj.cases) (auto simp: path_to_def)
  then show ?thesis
    using r c(8,9) by (intro exI [of _ D] exI [of _ lt] exI [of _ D'] exI [of _ lt']) (simp add: sel, simp add: lt_def)
qed


end
