(* ===== verification/San_Math.thy ===== *)
theory San_Math
  imports Int_Div_DI
begin

text \<open>
  The arithmetic and character helpers of \<^verbatim>\<open>sanitizer_common.h\<close> on 64-bit words: powers of two,
  rounding to a power-of-two boundary, alignment, bit indices.  \<^verbatim>\<open>usize\<close>, \<^verbatim>\<open>uptr\<close> and
  \<^verbatim>\<open>u64\<close> are 64-bit words, arithmetic wraps as in the code.  The branch without
  \<^verbatim>\<open>__builtin_align_up\<close> and its relatives is the one modelled; \<^verbatim>\<open>__builtin_clzl\<close> and
  \<^verbatim>\<open>__builtin_ctzl\<close> are \<open>builtin_clz\<close> and \<open>builtin_ctz\<close>.
\<close>

section \<open>Definitions\<close>

definition MostSignificantSetBitIndex :: "u64 \<Rightarrow> u64 option" where
  "MostSignificantSetBitIndex x = do {
     check (x \<noteq> 0);
     Some (64 - 1 - word_of_nat (builtin_clz x)) }"

definition LeastSignificantSetBitIndex :: "u64 \<Rightarrow> u64 option" where
  "LeastSignificantSetBitIndex x = do { check (x \<noteq> 0); Some (word_of_nat (builtin_ctz x)) }"

definition IsPowerOfTwo :: "u64 \<Rightarrow> bool" where
  "IsPowerOfTwo x \<longleftrightarrow> x AND (x - 1) = 0"

definition RoundUpToPowerOfTwo :: "u64 \<Rightarrow> u64 option" where
  "RoundUpToPowerOfTwo sz = do {
     check (sz \<noteq> 0);
     if IsPowerOfTwo sz then Some sz
     else do {
       up \<leftarrow> MostSignificantSetBitIndex sz;
       check (sz < push_bit (unat (up + 1)) 1);
       check (sz > push_bit (unat up) 1);
       Some (push_bit (unat (up + 1)) 1) } }"

definition RoundUpTo :: "u64 \<Rightarrow> u64 \<Rightarrow> u64 option" where
  "RoundUpTo p boundary = do {
     check (IsPowerOfTwo boundary);
     Some ((p + boundary - 1) AND NOT (boundary - 1)) }"

definition RoundDownTo :: "u64 \<Rightarrow> u64 \<Rightarrow> u64" where
  "RoundDownTo x boundary = x AND NOT (boundary - 1)"

definition IsAligned :: "u64 \<Rightarrow> u64 \<Rightarrow> bool" where
  "IsAligned a alignment \<longleftrightarrow> a AND (alignment - 1) = 0"

definition Log2 :: "u64 \<Rightarrow> u64 option" where
  "Log2 x = do { check (IsPowerOfTwo x); LeastSignificantSetBitIndex x }"

definition IsSpace :: "int \<Rightarrow> bool" where
  "IsSpace c \<longleftrightarrow> c = 32 \<or> c = 10 \<or> c = 9 \<or> c = 12 \<or> c = 13 \<or> c = 11"

definition IsDigit :: "int \<Rightarrow> bool" where
  "IsDigit c \<longleftrightarrow> c \<ge> 48 \<and> c \<le> 57"

definition ToLower :: "int \<Rightarrow> int" where
  "ToLower c = (if c \<ge> 65 \<and> c \<le> 90 then c + 97 - 65 else c)"

section \<open>Powers of two\<close>

lemma IsPowerOfTwo_exp:
  assumes "x \<noteq> 0" and "IsPowerOfTwo x"
  shows "unat x = 2 ^ builtin_ctz x" and "builtin_ctz x < 64"
proof -
  show e: "unat x = 2 ^ builtin_ctz x"
    using assms by (intro and_pred_eq_0) (simp_all add: IsPowerOfTwo_def)
  show "builtin_ctz x < 64"
    using mod_power_of_two(3) [OF e] by simp
qed

lemma exp_and_pred:
  assumes "unat x = 2 ^ n"
  shows "x AND (x - 1) = (0 :: 'a::len word)"
proof -
  have "x AND (x - 1) = x mod x"
    by (rule mod_power_of_two(1) [OF assms])
  also have "\<dots> = 0"
    by simp
  finally show ?thesis .
qed

lemma IsPowerOfTwo_iff: "x \<noteq> 0 \<Longrightarrow> IsPowerOfTwo x \<longleftrightarrow> (\<exists>n. unat x = 2 ^ n)"
  using IsPowerOfTwo_exp(1) exp_and_pred by (auto simp: IsPowerOfTwo_def)

lemma MostSignificantSetBitIndex_ok:
  assumes "x \<noteq> 0"
  obtains n where "MostSignificantSetBitIndex x = Some (word_of_nat n)" "n < 64" "2 ^ n \<le> unat x"
    "unat x < 2 ^ Suc n"
proof -
  note b = builtin_clz_bounds [OF assms]
  define n where "n = 63 - builtin_clz x"
  have "(64 :: u64) - 1 - word_of_nat (builtin_clz x) = word_of_nat (63 - builtin_clz x)"
    using b(1) by (simp add: of_nat_diff)
  moreover have "64 - Suc (builtin_clz x) = n" "64 - builtin_clz x = Suc n"
    using b(1) by (simp_all add: n_def)
  ultimately show thesis
    using that [of n] b assms by (simp add: MostSignificantSetBitIndex_def n_def)
qed

section \<open>Rounding\<close>

lemma unat_and_not_pred:
  fixes x b :: "'a::len word"
  assumes "unat b = 2 ^ n"
  shows "unat (x AND NOT (b - 1)) = unat x div 2 ^ n * 2 ^ n"
proof -
  have "(x AND (b - 1)) + (x AND NOT (b - 1)) = x"
    by (subst disjunctive_add_eq_or) (auto simp: bit_simps intro!: bit_eqI)
  then have "x AND NOT (b - 1) = x - (x AND (b - 1))"
    by (simp add: eq_diff_eq add.commute)
  also have "x AND (b - 1) = x mod b"
    by (rule mod_power_of_two(1) [OF assms])
  finally have "unat (x AND NOT (b - 1)) = unat x - unat x mod 2 ^ n"
    using assms unat_mod [of x b] by (simp add: unat_sub word_le_nat_alt)
  then show ?thesis
    by (simp add: minus_mod_eq_div_mult)
qed

lemma IsAligned_iff:
  assumes "unat b = 2 ^ n"
  shows "IsAligned a b \<longleftrightarrow> 2 ^ n dvd unat a"
  using mod_power_of_two(1) [OF assms] assms unat_mod [of a b]
  by (auto simp: IsAligned_def dvd_eq_mod_eq_0 unat_eq_0 [symmetric])

lemma RoundDownTo_ok:
  assumes "unat b = 2 ^ n"
  shows "unat (RoundDownTo x b) = unat x div 2 ^ n * 2 ^ n"
  unfolding RoundDownTo_def by (rule unat_and_not_pred [OF assms])

lemma RoundUpTo_ok:
  assumes "unat b = 2 ^ n" and "unat p + 2 ^ n \<le> 2 ^ 64"
  shows "\<exists>r. RoundUpTo p b = Some r \<and> unat r = (unat p + 2 ^ n - 1) div 2 ^ n * 2 ^ n"
proof -
  have b: "b \<noteq> 0"
    using assms(1) by auto
  have "unat (p + (b - 1)) = unat p + (2 ^ n - 1)"
    using assms unat_minus_one [OF b] by (simp add: unat_word_ariths(1))
  then have "unat (p + b - 1) = unat p + 2 ^ n - 1"
    by (simp add: add_diff_eq)
  then show ?thesis
    using unat_and_not_pred [OF assms(1), of "p + b - 1"] b assms(1)
    by (auto simp: RoundUpTo_def IsPowerOfTwo_iff check_def)
qed

lemma IsAligned_multiple: "unat b = 2 ^ n \<Longrightarrow> unat r = q * 2 ^ n \<Longrightarrow> IsAligned r b"
  by (simp add: IsAligned_iff)

lemma round_up_bounds:
  fixes p m :: nat
  assumes "0 < m"
  shows "p \<le> (p + m - 1) div m * m" and "(p + m - 1) div m * m < p + m"
proof -
  have "(p + m - 1) div m * m + (p + m - 1) mod m = p + m - 1" "(p + m - 1) mod m < m"
    using assms by (simp_all add: div_mult_mod_eq)
  then show "p \<le> (p + m - 1) div m * m" "(p + m - 1) div m * m < p + m"
    using assms by linarith+
qed

lemma round_down_bounds:
  fixes p m :: nat
  assumes "0 < m"
  shows "p div m * m \<le> p" and "p < p div m * m + m"
  using assms div_mult_mod_eq [of p m] mod_less_divisor [OF assms, of p] by linarith+

text \<open>C34: For a boundary that is a power of two, \<^verbatim>\<open>RoundDownTo\<close> is the greatest aligned
  address at or below its argument and \<^verbatim>\<open>RoundUpTo\<close> the least at or above it, unless the
  sum with the boundary leaves 64 bits; \<^verbatim>\<open>IsAligned\<close> is divisibility by the boundary.
\<close>

theorem rounding_correct:
  assumes "b \<noteq> 0" and "IsPowerOfTwo b" and "unat p + unat b \<le> 2 ^ 64"
  shows "(\<exists>r. RoundUpTo p b = Some r \<and> IsAligned r b \<and> p \<le> r \<and> unat r < unat p + unat b) \<and>
    IsAligned (RoundDownTo p b) b \<and> RoundDownTo p b \<le> p \<and>
    unat p < unat (RoundDownTo p b) + unat b \<and> (IsAligned p b \<longleftrightarrow> unat b dvd unat p)"
proof -
  note b = IsPowerOfTwo_exp(1) [OF assms(1,2)]
  obtain r where r: "RoundUpTo p b = Some r" "unat r = (unat p + unat b - 1) div unat b * unat b"
    using RoundUpTo_ok [OF b, of p] assms(3) b by auto
  have d: "unat (RoundDownTo p b) = unat p div unat b * unat b"
    using RoundDownTo_ok [OF b] b by simp
  have "0 < unat b"
    using assms(1) by (simp add: unat_gt_0)
  note bounds = round_up_bounds [OF this, of "unat p"] round_down_bounds [OF this, of "unat p"]
  have "IsAligned r b" "IsAligned (RoundDownTo p b) b"
    using IsAligned_multiple [OF b] r(2) d b by auto
  moreover have "IsAligned p b \<longleftrightarrow> unat b dvd unat p"
    using IsAligned_iff [OF b] b by simp
  ultimately show ?thesis
    using r(1) bounds by (auto simp: word_le_nat_alt r(2) d)
qed

theorem rounding_correct_witness:
  "(\<exists>r. RoundUpTo 13 8 = Some r \<and> IsAligned r 8 \<and> 13 \<le> r \<and> unat r < unat (13 :: u64) + unat (8 :: u64)) \<and>
   RoundDownTo 13 8 \<le> 13"
  using rounding_correct [of 8 13] by (simp add: IsPowerOfTwo_def)

text \<open>C35: \<^verbatim>\<open>RoundUpToPowerOfTwo\<close> of a size from 1 to \<open>2 ^ 63\<close> is the least power of two that is
  not smaller, and none of its checks fails; a larger size is stopped by the checks.
  \<^verbatim>\<open>Log2\<close> of a power of two is its exponent.
\<close>

theorem power_of_two_correct:
  assumes "s \<noteq> 0"
  shows "(if unat s \<le> 2 ^ 63
     then \<exists>r n. RoundUpToPowerOfTwo s = Some r \<and> unat r = 2 ^ n \<and> s \<le> r \<and>
       (\<forall>m. unat s \<le> 2 ^ m \<longrightarrow> n \<le> m) \<and> Log2 r = Some (word_of_nat n)
     else RoundUpToPowerOfTwo s = None)"
proof -
  obtain n where n: "MostSignificantSetBitIndex s = Some (word_of_nat n)" "n < 64" "2 ^ n \<le> unat s"
    "unat s < 2 ^ Suc n"
    using MostSignificantSetBitIndex_ok [OF assms] .
  have log: "Log2 r = Some (word_of_nat m)" if "unat r = 2 ^ m" for r m
  proof -
    have "r \<noteq> 0"
      using that by auto
    moreover from this have "builtin_ctz r = m"
      using IsPowerOfTwo_exp(1) [of r] IsPowerOfTwo_iff [of r] that by auto
    ultimately show ?thesis
      using that by (auto simp: Log2_def LeastSignificantSetBitIndex_def IsPowerOfTwo_iff check_def)
  qed
  show ?thesis
  proof (cases "IsPowerOfTwo s")
    case True
    then obtain m where m: "unat s = 2 ^ m"
      using IsPowerOfTwo_iff [OF assms] by blast
    then have "m < 64"
      using exp_le_unat [of m s] by simp
    then have "(2 :: nat) ^ m \<le> 2 ^ 63"
      by (intro power_increasing) auto
    moreover have "RoundUpToPowerOfTwo s = Some s"
      using True assms by (simp add: RoundUpToPowerOfTwo_def)
    ultimately show ?thesis
      using m log [OF m] by auto
  next
    case False
    then have ne: "unat s \<noteq> 2 ^ n"
      using IsPowerOfTwo_iff [OF assms] by blast
    have up: "unat (word_of_nat n + 1 :: u64) = Suc n"
    proof -
      have "(word_of_nat n + 1 :: u64) = word_of_nat (Suc n)"
        by (simp add: add.commute)
      moreover have "unat (word_of_nat (Suc n) :: u64) = Suc n"
        by (rule unat_of_nat_small) (use n(2) in simp)
      ultimately show ?thesis by (simp only:)
    qed
    have nn: "unat (word_of_nat n :: u64) = n"
      using n(2) by (simp add: unat_of_nat)
    have exp: "unat (push_bit n 1 :: u64) = 2 ^ n"
      using n(2) by (simp add: unat_2p)
    have run: "RoundUpToPowerOfTwo s = (if s < push_bit (Suc n) 1 \<and> push_bit n 1 < s
        then Some (push_bit (Suc n) 1) else None)"
      unfolding RoundUpToPowerOfTwo_def n(1) using False assms by (simp only: up nn bind.bind_lunit check_bind simp_thms if_True if_False) auto
    show ?thesis
    proof (cases "n = 63")
      case True
      then have "\<not> unat s \<le> 2 ^ 63" "push_bit (Suc n) 1 = (0 :: u64)"
        using n(3) ne by simp_all
      then show ?thesis
        unfolding run by simp
    next
      case f: False
      then have lt: "Suc n < 64"
        using n(2) by simp
      then have exp': "unat (push_bit (Suc n) 1 :: u64) = 2 ^ Suc n"
        by (simp add: unat_2p del: power_Suc)
      have "(2 :: nat) ^ Suc n \<le> 2 ^ 63"
        using lt by (intro power_increasing) auto
      then have le: "unat s \<le> 2 ^ 63"
        using n(4) by linarith
      have "RoundUpToPowerOfTwo s = Some (push_bit (Suc n) 1)"
        unfolding run word_less_nat_alt exp exp' using n(3,4) ne by simp
      moreover have "Suc n \<le> m" if "unat s \<le> 2 ^ m" for m
        using n(3) ne that power_strict_increasing_iff [of "2 :: nat" n m] by linarith
      moreover have "s \<le> push_bit (Suc n) 1"
        unfolding word_le_nat_alt exp' using n(4) by linarith
      ultimately show ?thesis
        unfolding if_P [OF le] using log [OF exp'] exp' by blast
    qed
  qed
qed

theorem power_of_two_correct_witness:
  "\<exists>r n. RoundUpToPowerOfTwo 100 = Some r \<and> unat r = 2 ^ n \<and> 100 \<le> r"
  using power_of_two_correct [of 100] by auto

end
