(* ===== verification/San_Libc.thy ===== *)
theory San_Libc
  imports San_Math
begin

text \<open>
  The string and memory routines of \<^verbatim>\<open>sanitizer_libc.cpp\<close>.  Memory is one array of bytes and
  a pointer an index into it, so that source and destination may overlap; an access outside the
  array is \<^term>\<open>None\<close>.  A \<^verbatim>\<open>char\<close> is a signed byte (as on x86-64): where the code widens
  one to an integer it is sign-extended.  A wide string is an array of 32-bit words.
  Loops that run until a zero byte are partial functions, shown to end on a terminated string;
  counted loops are folds over the indices.

  Not modelled: \<^verbatim>\<open>internal_strdup\<close> (it allocates) and the variants for pure-capability
  builds, which call the C library.
\<close>

type_synonym memory = "u8 list"

section \<open>Memory blocks\<close>

fun memchr_loop :: "memory \<Rightarrow> nat \<Rightarrow> int \<Rightarrow> nat \<Rightarrow> nat option option" where
  "memchr_loop m t c 0 = Some None"
| "memchr_loop m t c (Suc n) = do {
     b \<leftarrow> arr_get m t;
     if sint b = c then Some (Some t) else memchr_loop m (t + 1) c n }"

definition internal_memchr :: "memory \<Rightarrow> nat \<Rightarrow> int \<Rightarrow> nat \<Rightarrow> nat option option" where
  "internal_memchr m s c n = memchr_loop m s c n"

fun memrchr_loop :: "memory \<Rightarrow> nat \<Rightarrow> int \<Rightarrow> nat \<Rightarrow> nat option \<Rightarrow> nat option option" where
  "memrchr_loop m t c 0 res = Some res"
| "memrchr_loop m t c (Suc n) res = do {
     b \<leftarrow> arr_get m t;
     memrchr_loop m (t + 1) c n (if sint b = c then Some t else res) }"

definition internal_memrchr :: "memory \<Rightarrow> nat \<Rightarrow> int \<Rightarrow> nat \<Rightarrow> nat option option" where
  "internal_memrchr m s c n = memrchr_loop m s c n None"

fun internal_memcmp :: "memory \<Rightarrow> nat \<Rightarrow> nat \<Rightarrow> nat \<Rightarrow> int option" where
  "internal_memcmp m t1 t2 0 = Some 0"
| "internal_memcmp m t1 t2 (Suc n) = do {
     b1 \<leftarrow> arr_get m t1;
     b2 \<leftarrow> arr_get m t2;
     if b1 \<noteq> b2 then Some (if sint b1 < sint b2 then - 1 else 1)
     else internal_memcmp m (t1 + 1) (t2 + 1) n }"

definition copy_byte :: "nat \<Rightarrow> nat \<Rightarrow> nat \<Rightarrow> memory \<Rightarrow> memory option" where
  "copy_byte d s i m = do { b \<leftarrow> arr_get m (s + i); arr_set m (d + i) b }"

definition internal_memcpy :: "memory \<Rightarrow> nat \<Rightarrow> nat \<Rightarrow> nat \<Rightarrow> memory option" where
  "internal_memcpy m d s n = foldM (copy_byte d s) [0..<n] m"

definition internal_memmove :: "memory \<Rightarrow> nat \<Rightarrow> nat \<Rightarrow> nat \<Rightarrow> memory option" where
  "internal_memmove m d s n = do {
     check (n < 2 ^ 63);
     if d < s then foldM (copy_byte d s) [0..<n] m
     else if d > s \<and> n > 0 then foldM (copy_byte d s) (rev [0..<n]) m
     else Some m }"

text \<open>A 64-bit store, lowest byte first.\<close>

definition store64 :: "nat \<Rightarrow> u64 \<Rightarrow> memory \<Rightarrow> memory option" where
  "store64 p v m = foldM (\<lambda>i. \<lambda>m. arr_set m (p + i) (ucast (drop_bit (8 * i) v))) [0..<8] m"

definition internal_memset :: "memory \<Rightarrow> nat \<Rightarrow> int \<Rightarrow> nat \<Rightarrow> memory option" where
  "internal_memset m s c n =
     (if IsAligned (word_of_nat s) 16 \<and> n mod 16 = 0 then
        let v = word_of_int c;
            v = v OR push_bit 8 v;
            v = v OR push_bit 16 v;
            v = v OR push_bit 32 v
        in foldM (\<lambda>j m. do { m \<leftarrow> store64 (s + 16 * j + 8) v m; store64 (s + 16 * j) v m }) [0..<n div 16] m
      else foldM (\<lambda>i m. arr_set m (s + i) (word_of_int c)) [0..<n] m)"

section \<open>Strings\<close>

text \<open>Also \<^verbatim>\<open>internal_wcslen\<close> and \<^verbatim>\<open>internal_wcsnlen\<close>, on an array of wide characters.\<close>

partial_function (option) strlen_loop :: "'a::len word list \<Rightarrow> nat \<Rightarrow> nat \<Rightarrow> nat option" where
  "strlen_loop m s i = do {
     b \<leftarrow> arr_get m (s + i);
     if b \<noteq> 0 then strlen_loop m s (i + 1) else Some i }"

definition internal_strlen :: "memory \<Rightarrow> nat \<Rightarrow> nat option" where
  "internal_strlen m s = strlen_loop m s 0"

definition internal_wcslen :: "u32 list \<Rightarrow> nat \<Rightarrow> nat option" where
  "internal_wcslen m s = strlen_loop m s 0"

fun strnlen_loop :: "'a::len word list \<Rightarrow> nat \<Rightarrow> nat \<Rightarrow> nat \<Rightarrow> nat option" where
  "strnlen_loop m s i 0 = Some i"
| "strnlen_loop m s i (Suc n) = do {
     b \<leftarrow> arr_get m (s + i);
     if b \<noteq> 0 then strnlen_loop m s (i + 1) n else Some i }"

definition internal_strnlen :: "memory \<Rightarrow> nat \<Rightarrow> nat \<Rightarrow> nat option" where
  "internal_strnlen m s maxlen = strnlen_loop m s 0 maxlen"

definition internal_wcsnlen :: "u32 list \<Rightarrow> nat \<Rightarrow> nat \<Rightarrow> nat option" where
  "internal_wcsnlen m s maxlen = strnlen_loop m s 0 maxlen"

partial_function (option) internal_strchr :: "memory \<Rightarrow> nat \<Rightarrow> int \<Rightarrow> nat option option" where
  "internal_strchr m s c = do {
     b \<leftarrow> arr_get m s;
     if b = word_of_int c then Some (Some s)
     else if b = 0 then Some None
     else internal_strchr m (s + 1) c }"

definition internal_strchrnul :: "memory \<Rightarrow> nat \<Rightarrow> int \<Rightarrow> nat option" where
  "internal_strchrnul m s c = do {
     res \<leftarrow> internal_strchr m s c;
     case res of Some p \<Rightarrow> Some p | None \<Rightarrow> do { n \<leftarrow> internal_strlen m s; Some (s + n) } }"

partial_function (option) strrchr_loop :: "memory \<Rightarrow> nat \<Rightarrow> int \<Rightarrow> nat \<Rightarrow> nat option \<Rightarrow> nat option option" where
  "strrchr_loop m s c i res = do {
     b \<leftarrow> arr_get m (s + i);
     if b \<noteq> 0 then strrchr_loop m s c (i + 1) (if sint b = c then Some (s + i) else res)
     else Some res }"

definition internal_strrchr :: "memory \<Rightarrow> nat \<Rightarrow> int \<Rightarrow> nat option option" where
  "internal_strrchr m s c = strrchr_loop m s c 0 None"

partial_function (option) strcspn_loop :: "memory \<Rightarrow> nat \<Rightarrow> nat \<Rightarrow> nat \<Rightarrow> nat option" where
  "strcspn_loop m s reject i = do {
     b \<leftarrow> arr_get m (s + i);
     if b \<noteq> 0 then do {
       hit \<leftarrow> internal_strchr m reject (sint b);
       if hit \<noteq> None then Some i else strcspn_loop m s reject (i + 1) }
     else Some i }"

definition internal_strcspn :: "memory \<Rightarrow> nat \<Rightarrow> nat \<Rightarrow> nat option" where
  "internal_strcspn m s reject = strcspn_loop m s reject 0"

text \<open>A \<^verbatim>\<open>char\<close> assigned to an \<^verbatim>\<open>unsigned\<close>.\<close>

definition char_unsigned :: "u8 \<Rightarrow> u32" where
  "char_unsigned b = word_of_int (sint b)"

partial_function (option) internal_strcmp :: "memory \<Rightarrow> nat \<Rightarrow> nat \<Rightarrow> int option" where
  "internal_strcmp m s1 s2 = do {
     b1 \<leftarrow> arr_get m s1;
     b2 \<leftarrow> arr_get m s2;
     let c1 = char_unsigned b1;
     let c2 = char_unsigned b2;
     if c1 \<noteq> c2 then Some (if c1 < c2 then - 1 else 1)
     else if c1 = 0 then Some 0
     else internal_strcmp m (s1 + 1) (s2 + 1) }"

fun internal_strncmp :: "memory \<Rightarrow> nat \<Rightarrow> nat \<Rightarrow> nat \<Rightarrow> int option" where
  "internal_strncmp m s1 s2 0 = Some 0"
| "internal_strncmp m s1 s2 (Suc n) = do {
     b1 \<leftarrow> arr_get m s1;
     b2 \<leftarrow> arr_get m s2;
     let c1 = char_unsigned b1;
     let c2 = char_unsigned b2;
     if c1 \<noteq> c2 then Some (if c1 < c2 then - 1 else 1)
     else if c1 = 0 then Some 0
     else internal_strncmp m (s1 + 1) (s2 + 1) n }"

definition internal_strlcat :: "memory \<Rightarrow> nat \<Rightarrow> nat \<Rightarrow> nat \<Rightarrow> (memory \<times> nat) option" where
  "internal_strlcat m dst src maxlen = do {
     srclen \<leftarrow> internal_strlen m src;
     dstlen \<leftarrow> internal_strnlen m dst maxlen;
     if dstlen = maxlen then Some (m, maxlen + srclen)
     else do {
       m \<leftarrow> (if srclen < maxlen - dstlen then internal_memmove m (dst + dstlen) src (srclen + 1)
         else do {
           m \<leftarrow> internal_memmove m (dst + dstlen) src (maxlen - dstlen - 1);
           arr_set m (dst + (maxlen - 1)) 0 });
       Some (m, dstlen + srclen) } }"

text \<open>The loop \<^verbatim>\<open>for (i = 0; i < n && src[i]; i++) d[i] = src[i]\<close>; it returns the final \<open>i\<close>.\<close>

fun copy_string :: "nat \<Rightarrow> nat \<Rightarrow> nat \<Rightarrow> nat \<Rightarrow> memory \<Rightarrow> (memory \<times> nat) option" where
  "copy_string d src i 0 m = Some (m, i)"
| "copy_string d src i (Suc n) m = do {
     b \<leftarrow> arr_get m (src + i);
     if b \<noteq> 0 then do { m \<leftarrow> arr_set m (d + i) b; copy_string d src (i + 1) n m }
     else Some (m, i) }"

definition internal_strncat :: "memory \<Rightarrow> nat \<Rightarrow> nat \<Rightarrow> nat \<Rightarrow> memory option" where
  "internal_strncat m dst src n = do {
     len \<leftarrow> internal_strlen m dst;
     (m, i) \<leftarrow> copy_string (dst + len) src 0 n m;
     arr_set m (dst + len + i) 0 }"

definition internal_strlcpy :: "memory \<Rightarrow> nat \<Rightarrow> nat \<Rightarrow> nat \<Rightarrow> (memory \<times> nat) option" where
  "internal_strlcpy m dst src maxlen = do {
     srclen \<leftarrow> internal_strlen m src;
     m \<leftarrow> (if srclen < maxlen then internal_memmove m dst src (srclen + 1)
       else if maxlen \<noteq> 0 then do {
         m \<leftarrow> internal_memmove m dst src (maxlen - 1);
         arr_set m (dst + (maxlen - 1)) 0 }
       else Some m);
     Some (m, srclen) }"

definition internal_strncpy :: "memory \<Rightarrow> nat \<Rightarrow> nat \<Rightarrow> nat \<Rightarrow> memory option" where
  "internal_strncpy m dst src n = do {
     (m, i) \<leftarrow> copy_string dst src 0 n m;
     internal_memset m (dst + i) 0 (n - i) }"

fun strstr_loop :: "memory \<Rightarrow> nat \<Rightarrow> nat \<Rightarrow> nat \<Rightarrow> nat list \<Rightarrow> nat option option" where
  "strstr_loop m haystack needle len2 [] = Some None"
| "strstr_loop m haystack needle len2 (pos # ps) = do {
     r \<leftarrow> internal_memcmp m (haystack + pos) needle len2;
     if r = 0 then Some (Some (haystack + pos)) else strstr_loop m haystack needle len2 ps }"

definition internal_strstr :: "memory \<Rightarrow> nat \<Rightarrow> nat \<Rightarrow> nat option option" where
  "internal_strstr m haystack needle = do {
     len1 \<leftarrow> internal_strlen m haystack;
     len2 \<leftarrow> internal_strlen m needle;
     if len1 < len2 then Some None
     else strstr_loop m haystack needle len2 [0..<len1 - len2 + 1] }"

section \<open>Numbers\<close>

partial_function (option) skip_space :: "memory \<Rightarrow> nat \<Rightarrow> nat option" where
  "skip_space m p = do {
     b \<leftarrow> arr_get m p;
     if IsSpace (sint b) then skip_space m (p + 1) else Some p }"

partial_function (option) digit_loop :: "memory \<Rightarrow> nat \<Rightarrow> u64 \<Rightarrow> bool \<Rightarrow> (nat \<times> u64 \<times> bool) option" where
  "digit_loop m p res have_digits = do {
     b \<leftarrow> arr_get m p;
     if IsDigit (sint b) then
       let res = (if res \<le> (- 1) div 10 then res * 10 else - 1);
           digit = word_of_int (sint b - 48);
           res = (if res \<le> - 1 - digit then res + digit else - 1)
       in digit_loop m (p + 1) res True
     else Some (p, res, have_digits) }"

text \<open>The result and the value stored through \<^verbatim>\<open>endptr\<close>; \<open>INT64_MAX\<close> is \<open>2 ^ 63 - 1\<close>.\<close>

definition internal_simple_strtoll :: "memory \<Rightarrow> nat \<Rightarrow> int \<Rightarrow> (u64 \<times> nat) option" where
  "internal_simple_strtoll m nptr base = do {
     check (base = 10);
     p \<leftarrow> skip_space m nptr;
     let old_nptr = p;
     b \<leftarrow> arr_get m p;
     let sgn = (if sint b = 43 then 1 else if sint b = 45 then - 1 else (1 :: int));
     let p = (if sint b = 43 \<or> sint b = 45 then p + 1 else p);
     (p, res, have_digits) \<leftarrow> digit_loop m p 0 False;
     let endp = (if have_digits then p else old_nptr);
     if sgn > 0 then Some (min (2 ^ 63 - 1) res, endp)
     else Some (if res > 2 ^ 63 - 1 then - (2 ^ 63) else res * - 1, endp) }"

definition internal_atoll :: "memory \<Rightarrow> nat \<Rightarrow> u64 option" where
  "internal_atoll m nptr = map_option fst (internal_simple_strtoll m nptr 10)"

section \<open>Zero memory\<close>

definition load64 :: "memory \<Rightarrow> nat \<Rightarrow> u64 option" where
  "load64 m p = foldM (\<lambda>i w. do { b \<leftarrow> arr_get m (p + i); Some (w OR push_bit (8 * i) (ucast b)) }) [0..<8] 0"

definition mem_is_zero :: "memory \<Rightarrow> nat \<Rightarrow> nat \<Rightarrow> bool option" where
  "mem_is_zero m beg sz = do {
     check (sz \<le> 2 ^ 40);
     let fin = beg + sz;
     aligned_beg \<leftarrow> map_option unat (RoundUpTo (word_of_nat beg) 8);
     let aligned_end = unat (RoundDownTo (word_of_nat fin) 8);
     all \<leftarrow> foldM (\<lambda>a (w :: u64). do { b \<leftarrow> arr_get m a; Some (w OR scast b) }) [beg..<min aligned_beg fin] 0;
     all \<leftarrow> foldM (\<lambda>j w. do { v \<leftarrow> load64 m (aligned_beg + 8 * j); Some (w OR v) })
       [0..<(aligned_end - aligned_beg) div 8] all;
     all \<leftarrow> (if aligned_end \<ge> beg
       then foldM (\<lambda>a w. do { b \<leftarrow> arr_get m a; Some (w OR scast b) }) [aligned_end..<fin] all
       else Some all);
     Some (all = 0) }"

section \<open>Copies\<close>

definition overwrite :: "memory \<Rightarrow> nat \<Rightarrow> u8 list \<Rightarrow> memory" where
  "overwrite m d bs = take d m @ bs @ drop (d + length bs) m"

lemma length_overwrite: "d + length bs \<le> length m \<Longrightarrow> length (overwrite m d bs) = length m"
  by (simp add: overwrite_def)

lemma nth_overwrite:
  assumes "d + length bs \<le> length m" and "j < length m"
  shows "overwrite m d bs ! j = (if d \<le> j \<and> j < d + length bs then bs ! (j - d) else m ! j)"
  using assms by (auto simp: overwrite_def nth_append min_def)

lemma overwrite_eqI:
  assumes "d + length bs \<le> length m" and "length m' = length m"
    and "\<And>j. j < length m \<Longrightarrow> m' ! j = (if d \<le> j \<and> j < d + length bs then bs ! (j - d) else m ! j)"
  shows "m' = overwrite m d bs"
  using assms by (intro nth_equalityI) (simp_all add: length_overwrite nth_overwrite)

lemma copy_up_ok:
  assumes "d + n \<le> length m" and "s + n \<le> length m" and "d \<le> s \<or> s + n \<le> d"
  shows "foldM (copy_byte d s) [0..<n] m = Some (overwrite m d (take n (drop s m)))"
proof -
  define I where "I i m' \<longleftrightarrow> length m' = length m \<and>
      (\<forall>j<length m. m' ! j = (if d \<le> j \<and> j < d + i then m ! (s + (j - d)) else m ! j))" for i m'
  have "\<exists>m'. foldM (copy_byte d s) [0..<n] m = Some m' \<and> I n m'"
  proof (rule foldM_upt_invariant)
    fix i m1 assume i: "i < n" and I: "I i m1"
    have "m1 ! (s + i) = m ! (s + i)"
      using I i assms by (auto simp: I_def)
    then show "\<exists>m2. copy_byte d s i m1 = Some m2 \<and> I (Suc i) m2"
      using I i assms by (auto simp: I_def copy_byte_def nth_list_update less_Suc_eq)
  qed (auto simp: I_def)
  then obtain m' where m': "foldM (copy_byte d s) [0..<n] m = Some m'" "I n m'"
    by blast
  moreover have "m' = overwrite m d (take n (drop s m))"
    using m'(2) assms by (intro overwrite_eqI) (auto simp: I_def)
  ultimately show ?thesis by simp
qed

lemma copy_down_ok:
  assumes "d + n \<le> length m" and "s + n \<le> length m" and "s < d"
  shows "foldM (copy_byte d s) (rev [0..<n]) m = Some (overwrite m d (take n (drop s m)))"
proof -
  define I where "I i m' \<longleftrightarrow> length m' = length m \<and>
      (\<forall>j<length m. m' ! j = (if d + i \<le> j \<and> j < d + n then m ! (s + (j - d)) else m ! j))" for i m'
  have "\<exists>m'. foldM (copy_byte d s) (rev [0..<n]) m = Some m' \<and> I 0 m'"
  proof (rule foldM_rev_upt_invariant)
    fix i m1 assume i: "i < n" and I: "I (Suc i) m1"
    have "m1 ! (s + i) = m ! (s + i)"
      using I i assms by (auto simp: I_def)
    then show "\<exists>m2. copy_byte d s i m1 = Some m2 \<and> I i m2"
      using I i assms by (auto simp: I_def copy_byte_def nth_list_update Suc_le_eq)
  qed (auto simp: I_def)
  then obtain m' where m': "foldM (copy_byte d s) (rev [0..<n]) m = Some m'" "I 0 m'"
    by blast
  moreover have "m' = overwrite m d (take n (drop s m))"
    using m'(2) assms by (intro overwrite_eqI) (auto simp: I_def)
  ultimately show ?thesis by simp
qed

lemma memmove_ok:
  assumes "d + n \<le> length m" and "s + n \<le> length m" and "n < 2 ^ 63"
  shows "internal_memmove m d s n = Some (overwrite m d (take n (drop s m)))"
proof (cases d s rule: linorder_cases)
  case less
  then show ?thesis
    using assms copy_up_ok [of d n m s] by (simp add: internal_memmove_def)
next
  case equal
  then have "overwrite m d (take n (drop s m)) = m"
    using assms by (simp add: overwrite_def) (metis append_take_drop_id drop_drop add.commute)
  with equal show ?thesis
    using assms by (simp add: internal_memmove_def)
next
  case greater
  show ?thesis
  proof (cases "n = 0")
    case True
    then show ?thesis
      using greater by (simp add: internal_memmove_def overwrite_def)
  next
    case False
    then show ?thesis
      using greater assms copy_down_ok [of d n m s] by (simp add: internal_memmove_def)
  qed
qed

text \<open>C27: \<^verbatim>\<open>internal_memmove\<close> copies a block to its destination as it was before the call, however
  the two overlap, and changes nothing else; \<^verbatim>\<open>internal_memcpy\<close> does so when the blocks do not
  overlap, or when the destination is the lower one.
\<close>

theorem memmove_memcpy_correct:
  assumes "d + n \<le> length m" and "s + n \<le> length m" and "n < 2 ^ 63"
  shows "internal_memmove m d s n = Some (take d m @ take n (drop s m) @ drop (d + n) m) \<and>
    (d \<le> s \<or> s + n \<le> d \<longrightarrow> internal_memcpy m d s n = internal_memmove m d s n)"
proof -
  have "length (take n (drop s m)) = n"
    using assms(2) by simp
  then show ?thesis
    using memmove_ok [OF assms] copy_up_ok [OF assms(1,2)]
    by (auto simp: overwrite_def internal_memcpy_def)
qed

theorem memmove_memcpy_correct_witness:
  "internal_memmove [1, 2, 3, 4, 5] 1 0 3 = Some [1, 1, 2, 3, 5]"
  using memmove_memcpy_correct [of 1 3 "[1, 2, 3, 4, 5]" 0] by (simp add: numeral_3_eq_3)

section \<open>Fills\<close>

lemma fill_ok:
  assumes "s + n \<le> length m"
  shows "foldM (\<lambda>i m. arr_set m (s + i) b) [0..<n] m = Some (overwrite m s (replicate n b))"
proof -
  define I where "I i m' \<longleftrightarrow> length m' = length m \<and>
      (\<forall>j<length m. m' ! j = (if s \<le> j \<and> j < s + i then b else m ! j))" for i m'
  have "\<exists>m'. foldM (\<lambda>i m. arr_set m (s + i) b) [0..<n] m = Some m' \<and> I n m'"
    by (rule foldM_upt_invariant) (use assms in \<open>auto simp: I_def nth_list_update less_Suc_eq\<close>)
  then obtain m' where m': "foldM (\<lambda>i m. arr_set m (s + i) b) [0..<n] m = Some m'" "I n m'"
    by blast
  moreover have "m' = overwrite m s (replicate n b)"
    using m'(2) assms by (intro overwrite_eqI) (auto simp: I_def)
  ultimately show ?thesis by simp
qed

text \<open>The word that the fast path stores repeats its lowest byte, if the value fits in a byte.\<close>

lemma byte_repeat_step:
  fixes x v :: u64
  assumes "\<And>j. bit x j \<longleftrightarrow> j < n \<and> bit v (j mod 8)" and "8 dvd n" and "2 * n \<le> 64"
  shows "bit (x OR push_bit n x) j \<longleftrightarrow> j < 2 * n \<and> bit v (j mod 8)"
proof (cases "n \<le> j")
  case True
  then obtain k where k: "j = n + k"
    using le_Suc_ex by blast
  have "(n + k) mod 8 = k mod 8"
    using assms(2) by (metis add.commute dvd_def mod_mult_self2)
  then show ?thesis
    using assms(3) by (auto simp: k bit_simps assms(1))
qed (auto simp: bit_simps assms(1))

lemma fill_word_bytes:
  fixes c :: int
  assumes "0 \<le> c" and "c < 256" and "i < 8"
  defines "v \<equiv> word_of_int c :: u64"
  defines "v1 \<equiv> v OR push_bit 8 v"
  defines "v2 \<equiv> v1 OR push_bit 16 v1"
  defines "v3 \<equiv> v2 OR push_bit 32 v2"
  shows "(ucast (drop_bit (8 * i) v3) :: u8) = word_of_int c"
proof (rule bit_word_eqI)
  fix k assume k: "k < LENGTH(8)"
  have "take_bit 8 c = c"
    using assms(1,2) by (simp add: take_bit_int_eq_self)
  then have "bit c j \<longleftrightarrow> j < 8 \<and> bit c j" for j
    by (metis bit_take_bit_iff)
  then have v: "bit v j \<longleftrightarrow> j < 8 \<and> bit v (j mod 8)" for j
    by (cases "j < 8") (auto simp: v_def bit_simps)
  have v1: "bit v1 j \<longleftrightarrow> j < 16 \<and> bit v (j mod 8)" for j
    using byte_repeat_step [OF v, of j] by (simp add: v1_def)
  have v2: "bit v2 j \<longleftrightarrow> j < 32 \<and> bit v (j mod 8)" for j
    using byte_repeat_step [OF v1, of j] by (simp add: v2_def)
  have v3: "bit v3 j \<longleftrightarrow> j < 64 \<and> bit v (j mod 8)" for j
    using byte_repeat_step [OF v2, of j] by (simp add: v3_def)
  show "bit (ucast (drop_bit (8 * i) v3) :: u8) k = bit (word_of_int c :: u8) k"
    using k assms(3) by (simp add: bit_simps v3) (simp add: v_def bit_simps)
qed

lemma store64_ok:
  assumes "p + 8 \<le> length m" and "\<And>i. i < 8 \<Longrightarrow> (ucast (drop_bit (8 * i) v) :: u8) = b"
  shows "store64 p v m = Some (overwrite m p (replicate 8 b))"
proof -
  have "store64 p v m = foldM (\<lambda>i m. arr_set m (p + i) b) [0..<8] m"
    unfolding store64_def using assms(2) by (intro foldM_cong) auto
  then show ?thesis
    using fill_ok [OF assms(1)] by simp
qed

lemma overwrite_replicate_split:
  assumes "s + k + n \<le> length m"
  shows "overwrite (overwrite m (s + k) (replicate n b)) s (replicate k b) = overwrite m s (replicate (k + n) b)"
  using assms
  by (intro overwrite_eqI) (auto simp: length_overwrite nth_overwrite)

lemma overwrite_replicate_append:
  assumes "s + k + n \<le> length m"
  shows "overwrite (overwrite m s (replicate k b)) (s + k) (replicate n b) = overwrite m s (replicate (k + n) b)"
  using assms
  by (intro overwrite_eqI) (auto simp: length_overwrite nth_overwrite)

lemma memset_ok:
  assumes "s + n \<le> length m" and "0 \<le> c" and "c < 256"
  shows "internal_memset m s c n = Some (overwrite m s (replicate n (word_of_int c)))"
proof (cases "IsAligned (word_of_nat s) 16 \<and> n mod 16 = 0")
  case False
  then show ?thesis
    using fill_ok [OF assms(1)] by (auto simp: internal_memset_def)
next
  case True
  define v where "v = (let v = word_of_int c :: u64; v = v OR push_bit 8 v; v = v OR push_bit 16 v
    in v OR push_bit 32 v)"
  let ?b = "word_of_int c :: u8"
  let ?step = "\<lambda>j m. do { m \<leftarrow> store64 (s + 16 * j + 8) v m; store64 (s + 16 * j) v m }"
  have bytes: "(ucast (drop_bit (8 * i) v) :: u8) = ?b" if "i < 8" for i
    using fill_word_bytes [OF assms(2,3) that] by (simp add: v_def Let_def)
  define I where "I j m' \<longleftrightarrow> m' = overwrite m s (replicate (16 * j) ?b)" for j m'
  obtain q where q: "n = 16 * q"
    using True by (auto simp: mod_eq_0_iff_dvd)
  have "\<exists>m'. foldM ?step [0..<q] m = Some m' \<and> I q m'"
  proof (rule foldM_upt_invariant)
    fix j m1 assume j: "j < q" and I: "I j m1"
    have len: "length m1 = length m" "s + 16 * j + 8 + 8 \<le> length m"
      using I j assms(1) q by (simp_all add: I_def length_overwrite)
    have "store64 (s + 16 * j + 8) v m1 = Some (overwrite m1 (s + 16 * j + 8) (replicate 8 ?b))"
      using len by (intro store64_ok bytes) simp
    moreover have "store64 (s + 16 * j) v (overwrite m1 (s + 16 * j + 8) (replicate 8 ?b)) =
        Some (overwrite m1 (s + 16 * j) (replicate 16 ?b))"
      using len store64_ok [OF _ bytes, of "s + 16 * j" "overwrite m1 (s + 16 * j + 8) (replicate 8 ?b)"]
        overwrite_replicate_split [of "s + 16 * j" 8 8 m1 ?b] by (simp add: length_overwrite)
    moreover have "overwrite m1 (s + 16 * j) (replicate 16 ?b) = overwrite m s (replicate (16 * Suc j) ?b)"
      using I len overwrite_replicate_append [of s "16 * j" 16 m ?b] by (simp add: I_def add.commute)
    ultimately show "\<exists>m2. ?step j m1 = Some m2 \<and> I (Suc j) m2"
      by (simp add: I_def)
  qed (simp_all add: I_def overwrite_def)
  then show ?thesis
    using True q by (simp add: internal_memset_def I_def v_def Let_def)
qed

text \<open>C28: For a fill value from 0 to 255 the unrolled path of \<^verbatim>\<open>internal_memset\<close> for aligned
  blocks and the byte loop agree: the block is filled with the byte and nothing else changes.
\<close>

theorem memset_correct:
  assumes "s + n \<le> length m" and "0 \<le> c" and "c < 256"
  shows "internal_memset m s c n = Some (take s m @ replicate n (word_of_int c) @ drop (s + n) m)"
  using memset_ok [OF assms] by (simp add: overwrite_def)

theorem memset_correct_witness:
  "internal_memset [1, 2, 3, 4] 1 7 2 = Some [1, 7, 7, 4]"
  using memset_correct [of 1 2 "[1, 2, 3, 4]" 7] by (simp add: numeral_2_eq_2)

lemma store64_bytes:
  assumes "p + 8 \<le> length m"
  shows "\<exists>m'. store64 p v m = Some m' \<and> length m' = length m \<and>
    (\<forall>x<length m. m' ! x = (if p \<le> x \<and> x < p + 8 then ucast (drop_bit (8 * (x - p)) v) else m ! x))"
proof -
  define I where "I i m' \<longleftrightarrow> length m' = length m \<and>
    (\<forall>x<length m. m' ! x = (if p \<le> x \<and> x < p + i then ucast (drop_bit (8 * (x - p)) v) else m ! x))" for i and m' :: memory
  have "\<exists>m'. store64 p v m = Some m' \<and> I 8 m'"
    unfolding store64_def
  proof (rule foldM_upt_invariant)
    fix i m1 assume "0 \<le> i" "i < 8" "I i m1"
    then show "\<exists>m2. arr_set m1 (p + i) (ucast (drop_bit (8 * i) v)) = Some m2 \<and> I (Suc i) m2"
      using assms by (auto simp: I_def nth_list_update)
  qed (auto simp: I_def)
  then show ?thesis
    by (simp only: I_def)
qed

lemma store64_pair:
  assumes "p + 16 \<le> length m"
  shows "\<exists>m'. do { m \<leftarrow> store64 (p + 8) v m; store64 p v m } = Some m' \<and> length m' = length m \<and>
    (\<forall>x<length m. m' ! x = (if p \<le> x \<and> x < p + 16 then ucast (drop_bit (8 * ((x - p) mod 8)) v) else m ! x))"
proof -
  have "p + 8 + 8 \<le> length m"
    using assms by simp
  then obtain m1 where m1: "store64 (p + 8) v m = Some m1" "length m1 = length m"
    "\<forall>x<length m. m1 ! x = (if p + 8 \<le> x \<and> x < p + 8 + 8 then ucast (drop_bit (8 * (x - (p + 8))) v) else m ! x)"
    using store64_bytes [of "p + 8" m v] by blast
  then obtain m2 where m2: "store64 p v m1 = Some m2" "length m2 = length m"
    "\<forall>x<length m. m2 ! x = (if p \<le> x \<and> x < p + 8 then ucast (drop_bit (8 * (x - p)) v) else m1 ! x)"
    using store64_bytes [of p m1 v] assms by auto
  have "m2 ! x = (if p \<le> x \<and> x < p + 16 then ucast (drop_bit (8 * ((x - p) mod 8)) v) else m ! x)" if "x < length m" for x
  proof -
    consider "x < p" | "p \<le> x" "x < p + 8" | "p + 8 \<le> x" "x < p + 16" | "p + 16 \<le> x"
      by linarith
    then show ?thesis
    proof cases
      case 3
      then have "(x - p) mod 8 = x - (p + 8)"
        by (simp add: mod_if)
      then show ?thesis
        using m1(3) m2(3) that 3 by simp
    qed (use m1(3) m2(3) that in simp_all)
  qed
  then show ?thesis
    using m1(1) m2(1,2) by simp
qed

text \<open>A negative character fills the word with ones above its lowest byte.\<close>

lemma negative_fill_word:
  fixes c :: int
  assumes "- 128 \<le> c" and "c < 0"
  defines "v \<equiv> word_of_int c :: u64"
  shows "8 \<le> n \<Longrightarrow> v OR push_bit n v = v"
    and "i < 8 \<Longrightarrow> (ucast (drop_bit (8 * i) v) :: u8) = (if i = 0 then word_of_int c else 0xff)"
proof -
  have c: "bit c j" if "7 \<le> j" for j
  proof -
    have "(2 :: int) ^ 7 \<le> 2 ^ j"
      using that by (intro power_increasing) simp_all
    then have "c div 2 ^ j = - 1"
      using assms(1,2) by (intro int_div_pos_eq [of _ _ _ "c + 2 ^ j"]) simp_all
    then show ?thesis
      by (simp add: bit_iff_odd)
  qed
  show "v OR push_bit n v = v" if "8 \<le> n"
    using that c by (intro bit_word_eqI) (auto simp: v_def bit_or_iff bit_push_bit_iff bit_word_of_int_iff)
  have "bit (0xff :: u8) k \<longleftrightarrow> k < 8" for k
    using bit_mask_iff [of 8 k, where ?'a = u8] by (simp add: mask_eq_exp_minus_1)
  then show "(ucast (drop_bit (8 * i) v) :: u8) = (if i = 0 then word_of_int c else 0xff)" if "i < 8"
    using that c by (intro bit_word_eqI) (auto simp: v_def bit_unsigned_iff bit_drop_bit_eq bit_word_of_int_iff)
qed

text \<open>
  The fill value is an \<^verbatim>\<open>int\<close> of which only the low byte should count.  The path for aligned blocks
  widens it with its sign: for every negative character \<open>c\<close> it stores the byte of \<open>c\<close> into the first
  byte of each word only and \<^verbatim>\<open>0xff\<close> into the other seven, which is wrong unless \<open>c\<close> is -1.
\<close>

theorem memset_sign_extension:
  assumes "s + n \<le> length m" and "- 128 \<le> c" and "c < 0" and "IsAligned (word_of_nat s) 16" and "n mod 16 = 0"
  shows "\<exists>m'. internal_memset m s c n = Some m' \<and>
    (\<forall>j<n. m' ! (s + j) = (if j mod 8 = 0 then word_of_int c else 0xff))"
proof -
  define v :: u64 where "v = word_of_int c"
  have v: "(let v = word_of_int c :: u64; v = v OR push_bit 8 v; v = v OR push_bit 16 v in v OR push_bit 32 v) = v"
    unfolding Let_def v_def by (simp only: negative_fill_word(1) [OF assms(2,3)] order.refl numeral_le_iff semiring_norm)
  note b = negative_fill_word(2) [OF assms(2,3), folded v_def]
  define pat :: "nat \<Rightarrow> u8" where "pat j = (if j mod 8 = 0 then word_of_int c else 0xff)" for j
  obtain q where q: "n = 16 * q"
    using assms(5) by (auto simp: mod_eq_0_iff_dvd)
  let ?step = "\<lambda>j m. do { m \<leftarrow> store64 (s + 16 * j + 8) v m; store64 (s + 16 * j) v m }"
  define I where "I j m' \<longleftrightarrow> length m' = length m \<and> (\<forall>k<16 * j. m' ! (s + k) = pat k)" for j and m' :: memory
  have "\<exists>m'. foldM ?step [0..<q] m = Some m' \<and> I q m'"
  proof (rule foldM_upt_invariant)
    fix j m1 assume j: "j < q" and I: "I j m1"
    have "s + 16 * j + 16 \<le> length m1"
      using I j assms(1) q by (simp add: I_def)
    then obtain m2 where m2: "?step j m1 = Some m2" "length m2 = length m1"
      "\<forall>x<length m1. m2 ! x = (if s + 16 * j \<le> x \<and> x < s + 16 * j + 16
        then ucast (drop_bit (8 * ((x - (s + 16 * j)) mod 8)) v) else m1 ! x)"
      using store64_pair [of "s + 16 * j" m1 v] by blast
    have "m2 ! (s + k) = pat k" if k: "k < 16 * Suc j" for k
    proof (cases "k < 16 * j")
      case False
      then obtain i where i: "k = 16 * j + i"
        using le_Suc_ex linorder_not_less by blast
      have "8 * (2 * j) + i = k"
        by (simp add: i)
      then have "k mod 8 = i mod 8"
        by (metis mod_mult_self4)
      then show ?thesis
        using I j assms(1) q k m2(3) b [of "i mod 8"] by (simp add: i I_def pat_def)
    qed (use I j assms(1) q m2(3) in \<open>simp add: I_def\<close>)
    then show "\<exists>m2. ?step j m1 = Some m2 \<and> I (Suc j) m2"
      using I m2(1,2) by (simp add: I_def)
  qed (simp_all add: I_def)
  then show ?thesis
    using assms(4,5) q v by (auto simp: internal_memset_def I_def pat_def Let_def)
qed

section \<open>Terminated strings\<close>

definition cstr :: "'a::len word list \<Rightarrow> nat \<Rightarrow> 'a word list \<Rightarrow> bool" where
  "cstr m p s \<longleftrightarrow> p + length s < length m \<and> take (length s) (drop p m) = s \<and>
     m ! (p + length s) = 0 \<and> 0 \<notin> set s"

lemma cstr_Nil [simp]: "cstr m p [] \<longleftrightarrow> p < length m \<and> m ! p = 0"
  by (simp add: cstr_def)

lemma cstr_Cons [simp]: "cstr m p (b # s) \<longleftrightarrow> p < length m \<and> m ! p = b \<and> b \<noteq> 0 \<and> cstr m (Suc p) s"
  by (cases "p < length m") (auto simp: cstr_def Cons_nth_drop_Suc [symmetric])

lemma strlen_loop_ok: "cstr m (s + i) t \<Longrightarrow> strlen_loop m s i = Some (i + length t)"
  by (induction t arbitrary: i) (subst strlen_loop.simps, simp)+

lemma strlen_ok: "cstr m s t \<Longrightarrow> internal_strlen m s = Some (length t)"
  using strlen_loop_ok [of m s 0 t] by (simp add: internal_strlen_def)

lemma strnlen_loop_ok: "cstr m (s + i) t \<Longrightarrow> strnlen_loop m s i n = Some (i + min n (length t))"
proof (induction t arbitrary: i n)
  case Nil
  then show ?case by (cases n) simp_all
next
  case (Cons b t)
  then show ?case by (cases n) simp_all
qed

lemma strnlen_ok: "cstr m s t \<Longrightarrow> internal_strnlen m s n = Some (min n (length t))"
  using strnlen_loop_ok [of m s 0 t n] by (simp add: internal_strnlen_def)

lemma strnlen_loop_full:
  "\<lbrakk> s + i + n \<le> length m; 0 \<notin> set (take n (drop (s + i) m)) \<rbrakk> \<Longrightarrow> strnlen_loop m s i n = Some (i + n)"
  by (induction n arbitrary: i) (auto simp: Cons_nth_drop_Suc [symmetric])

lemma strchr_ok:
  assumes "cstr m p t"
  shows "internal_strchr m p c = Some (if word_of_int c \<in> insert 0 (set t)
    then Some (p + length (takeWhile (\<lambda>b. b \<noteq> word_of_int c) t)) else None)"
  using assms
proof (induction t arbitrary: p)
  case Nil
  then show ?case by (subst internal_strchr.simps) auto
next
  case (Cons b t)
  then show ?case by (subst internal_strchr.simps) auto
qed

lemma strcspn_loop_ok:
  assumes "cstr m r rej"
  shows "cstr m (s + i) t \<Longrightarrow> strcspn_loop m s r i = Some (i + length (takeWhile (\<lambda>b. b \<notin> set rej) t))"
proof (induction t arbitrary: i)
  case Nil
  then show ?case by (subst strcspn_loop.simps) simp
next
  case (Cons b t)
  then show ?case
    using strchr_ok [OF assms, of "sint b"] by (subst strcspn_loop.simps) simp
qed

lemma memchr_loop_ok:
  "t + n \<le> length m \<Longrightarrow> memchr_loop m t c n =
    (let bs = take n (drop t m) in
     Some (if \<exists>b\<in>set bs. sint b = c then Some (t + length (takeWhile (\<lambda>b. sint b \<noteq> c) bs)) else None))"
  by (induction n arbitrary: t) (auto simp: Cons_nth_drop_Suc [symmetric] Let_def)

section \<open>Comparison\<close>

lemma char_unsigned_uint: "uint (char_unsigned b) = (if uint b < 128 then uint b else uint b + (2 ^ 32 - 256))"
proof -
  have "uint (char_unsigned b) = sint b mod 2 ^ 32"
    by (simp only: char_unsigned_def uint_word_of_int) simp
  moreover have "(uint b - 256) mod 2 ^ 32 = uint b + (2 ^ 32 - 256)" if "128 \<le> uint b"
  proof -
    have "(uint b - 256) mod 2 ^ 32 = (uint b - 256 + 2 ^ 32) mod 2 ^ 32"
      by (rule mod_add_self2 [symmetric])
    also have "\<dots> = uint b - 256 + 2 ^ 32"
      using uint_lt_2p [of b] that by (intro mod_pos_pos_trivial) simp_all
    finally show ?thesis by simp
  qed
  ultimately show ?thesis
    using uint_lt_2p [of b] by (cases "uint b < 128") (simp_all add: sint_eq_if)
qed

lemma char_unsigned_eq [simp]: "char_unsigned a = char_unsigned b \<longleftrightarrow> a = b"
  using uint_lt_2p [of a] uint_lt_2p [of b]
  by (auto simp: word_eq_iff_uint char_unsigned_uint split: if_splits)

lemma char_unsigned_less [simp]: "char_unsigned a < char_unsigned b \<longleftrightarrow> a < b"
  using uint_lt_2p [of a] uint_lt_2p [of b]
  by (auto simp: word_less_def char_unsigned_uint split: if_splits)

lemma char_unsigned_0 [simp]: "char_unsigned a = 0 \<longleftrightarrow> a = 0"
  using char_unsigned_eq [of a 0] by (simp add: char_unsigned_def)

definition bytes_compare :: "u8 list \<Rightarrow> u8 list \<Rightarrow> int" where
  "bytes_compare s t = (if s = t then 0 else if (s, t) \<in> lexord {(a, b). a < b} then - 1 else 1)"

lemma bytes_compare_simps [simp]:
  "bytes_compare [] [] = 0" "bytes_compare [] (b # t) = - 1" "bytes_compare (a # s) [] = 1"
  "bytes_compare (a # s) (b # t) = (if a < b then - 1 else if b < a then 1 else bytes_compare s t)"
  by (auto simp: bytes_compare_def)

lemma strcmp_ok: "cstr m p s \<Longrightarrow> cstr m q t \<Longrightarrow> internal_strcmp m p q = Some (bytes_compare s t)"
proof (induction s arbitrary: p q t)
  case Nil
  then show ?case
    by (cases t; subst internal_strcmp.simps) (auto simp: Let_def word_gt_0)
next
  case (Cons a s)
  then show ?case
    by (cases t; subst internal_strcmp.simps) (auto simp: Let_def)
qed

lemma strncmp_ok:
  "cstr m p s \<Longrightarrow> cstr m q t \<Longrightarrow> internal_strncmp m p q n = Some (bytes_compare (take n s) (take n t))"
proof (induction n arbitrary: p q s t)
  case 0
  then show ?case by simp
next
  case (Suc n)
  then show ?case
    by (cases s; cases t) (auto simp: Let_def word_gt_0)
qed

lemma memcmp_ok:
  "\<lbrakk> p + n \<le> length m; q + n \<le> length m \<rbrakk> \<Longrightarrow>
    \<exists>r. internal_memcmp m p q n = Some r \<and> (r = 0 \<longleftrightarrow> take n (drop p m) = take n (drop q m))"
proof (induction n arbitrary: p q)
  case 0
  then show ?case by simp
next
  case (Suc n)
  then have d: "drop p m = m ! p # drop (Suc p) m" "drop q m = m ! q # drop (Suc q) m"
    by (simp_all add: Cons_nth_drop_Suc)
  show ?case
    using Suc.IH [of "Suc p" "Suc q"] Suc.prems by (auto simp: d)
qed

definition chars_compare :: "u8 list \<Rightarrow> u8 list \<Rightarrow> int" where
  "chars_compare s t = (if s = t then 0 else if (s, t) \<in> lexord {(a, b). sint a < sint b} then - 1 else 1)"

lemma chars_compare_Cons:
  "chars_compare (a # s) (b # t) = (if a = b then chars_compare s t else if sint a < sint b then - 1 else 1)"
  by (auto simp: chars_compare_def)

lemma memcmp_order:
  "\<lbrakk> p + n \<le> length m; q + n \<le> length m \<rbrakk> \<Longrightarrow>
    internal_memcmp m p q n = Some (chars_compare (take n (drop p m)) (take n (drop q m)))"
proof (induction n arbitrary: p q)
  case 0
  then show ?case by (simp add: chars_compare_def)
next
  case (Suc n)
  then have d: "drop p m = m ! p # drop (Suc p) m" "drop q m = m ! q # drop (Suc q) m"
    by (simp_all add: Cons_nth_drop_Suc)
  show ?case
    using Suc.IH [of "Suc p" "Suc q"] Suc.prems by (simp add: d chars_compare_Cons)
qed

lemma strstr_loop_ok:
  assumes "\<forall>i\<in>set is. h + i + length t \<le> length m" and "cstr m n t"
  shows "strstr_loop m h n (length t) is =
    Some (map_option ((+) h) (find (\<lambda>i. take (length t) (drop (h + i) m) = t) is))"
  using assms(1)
proof (induction "is")
  case Nil
  then show ?case by simp
next
  case (Cons i "is")
  have "take (length t) (drop n m) = t" "n + length t \<le> length m"
    using assms(2) by (simp_all add: cstr_def)
  then show ?case
    using Cons memcmp_ok [of "h + i" "length t" m n] by auto
qed

text \<open>C29: On terminated strings \<^verbatim>\<open>internal_strcmp\<close> and \<^verbatim>\<open>internal_strncmp\<close> compare
  lexicographically by unsigned bytes, although they read signed characters; \<^verbatim>\<open>internal_memcmp\<close>
  compares two blocks lexicographically by signed characters; \<^verbatim>\<open>internal_strchr\<close>
  finds the first occurrence, the terminator included; \<^verbatim>\<open>internal_strcspn\<close> and
  \<^verbatim>\<open>internal_strnlen\<close> measure the prefixes they name.  All of them end and read no byte
  outside the strings and blocks.
\<close>

theorem string_scan_correct:
  assumes "cstr m p s" and "cstr m q t" and "x + n \<le> length m" and "y + n \<le> length m"
  shows "internal_strcmp m p q = Some (bytes_compare s t) \<and>
    internal_strncmp m p q n = Some (bytes_compare (take n s) (take n t)) \<and>
    internal_memcmp m x y n = Some (chars_compare (take n (drop x m)) (take n (drop y m))) \<and>
    internal_strlen m p = Some (length s) \<and> internal_strnlen m p n = Some (min n (length s)) \<and>
    internal_strchr m p c = Some (if word_of_int c \<in> insert 0 (set s)
      then Some (p + length (takeWhile (\<lambda>b. b \<noteq> word_of_int c) s)) else None) \<and>
    internal_strchrnul m p c = Some (p + length (takeWhile (\<lambda>b. b \<noteq> word_of_int c) s)) \<and>
    internal_strcspn m p q = Some (length (takeWhile (\<lambda>b. b \<notin> set t) s))"
proof -
  have "length (takeWhile (\<lambda>b. b \<noteq> word_of_int c) s) = length s" if "word_of_int c \<notin> set s"
    using that by (metis (mono_tags, lifting) takeWhile_eq_all_conv)
  then show ?thesis
    using strcmp_ok [OF assms(1,2)] strncmp_ok [OF assms(1,2)] strlen_ok [OF assms(1)] strnlen_ok [OF assms(1)]
      strchr_ok [OF assms(1)] strcspn_loop_ok [OF assms(2), of p 0 s] assms(1) memcmp_order [OF assms(3,4)]
    by (auto simp: internal_strchrnul_def internal_strcspn_def)
qed

theorem string_scan_correct_witness:
  "internal_strcmp [97, 0, 200, 0] 0 2 = Some (- 1) \<and> internal_strcspn [97, 0, 200, 0] 0 2 = Some 1 \<and>
   internal_memcmp [97, 0, 200, 0] 0 2 1 = Some 1"
proof -
  have h: "cstr [97, 0, 200, 0 :: u8] 0 [97]" "cstr [97, 0, 200, 0 :: u8] 2 [200]"
    "0 + 1 \<le> length [97, 0, 200, 0 :: u8]" "2 + 1 \<le> length [97, 0, 200, 0 :: u8]"
    by simp_all
  have "chars_compare [97] [200] = 1"
    by (simp add: chars_compare_def)
  with string_scan_correct [OF h] show ?thesis
    by simp
qed

lemma find_append_none: "\<forall>y\<in>set ys. \<not> P y \<Longrightarrow> find P (xs @ ys) = find P xs"
  by (induction xs) (auto simp: find_None_iff)

lemma take_drop_length:
  assumes "take (length t) (drop i s) = t"
  shows "length t \<le> length s - i"
  using arg_cong [OF assms, of length] by simp

lemma cstr_take_drop:
  assumes "cstr m h s" and "i + k \<le> length s"
  shows "take k (drop (h + i) m) = take k (drop i s)"
proof -
  have "take k (drop i s) = take k (drop i (take (length s) (drop h m)))"
    using assms(1) by (simp add: cstr_def)
  also have "\<dots> = take k (drop (h + i) m)"
    using assms(2) by (simp add: drop_take min_absorb1 add.commute)
  finally show ?thesis ..
qed

text \<open>C30: \<^verbatim>\<open>internal_strstr\<close> returns the first position at which the needle occurs in the haystack,
  and a null pointer exactly when it does not occur.
\<close>

theorem strstr_correct:
  assumes "cstr m h s" and "cstr m n t"
  shows "internal_strstr m h n = Some (map_option ((+) h)
    (find (\<lambda>i. take (length t) (drop i s) = t) [0..<Suc (length s)]))"
proof (cases "length s < length t")
  case True
  then have "take (length t) (drop i s) \<noteq> t" for i
    using take_drop_length [of t i s] by auto
  then have "find (\<lambda>i. take (length t) (drop i s) = t) [0..<Suc (length s)] = None"
    by (simp add: find_None_iff)
  then show ?thesis
    using True strlen_ok [OF assms(1)] strlen_ok [OF assms(2)] by (simp add: internal_strstr_def)
next
  case False
  define k where "k = length s - length t"
  have k: "length s = k + length t"
    using False by (simp add: k_def)
  have late: "take (length t) (drop i s) \<noteq> t" if "k < i" "i \<le> length s" for i
  proof
    assume "take (length t) (drop i s) = t"
    then show False
      using take_drop_length [of t i s] that k by simp
  qed
  have split: "[0..<Suc (length s)] = [0..<Suc k] @ [Suc k..<Suc (length s)]"
    using upt_add_eq_append [of 0 "Suc k" "length t"] k by simp
  have "\<forall>i\<in>set [Suc k..<Suc (length s)]. take (length t) (drop i s) \<noteq> t"
    using late by (simp del: upt_Suc)
  then have "find (\<lambda>i. take (length t) (drop i s) = t) [0..<Suc (length s)] =
      find (\<lambda>i. take (length t) (drop i s) = t) [0..<Suc k]"
    unfolding split by (rule find_append_none)
  also have "\<dots> = find (\<lambda>i. take (length t) (drop (h + i) m) = t) [0..<Suc k]"
    using k cstr_take_drop [OF assms(1)] by (intro find_cong) auto
  finally have "map_option ((+) h) (find (\<lambda>i. take (length t) (drop i s) = t) [0..<Suc (length s)]) =
      map_option ((+) h) (find (\<lambda>i. take (length t) (drop (h + i) m) = t) [0..<Suc k])"
    by simp
  moreover have "internal_strstr m h n = strstr_loop m h n (length t) [0..<Suc k]"
    using strlen_ok [OF assms(1)] strlen_ok [OF assms(2)] False
    by (simp add: internal_strstr_def k_def)
  moreover have "\<forall>i\<in>set [0..<Suc k]. h + i + length t \<le> length m"
    using assms(1) k by (auto simp: cstr_def)
  ultimately show ?thesis
    using strstr_loop_ok [OF _ assms(2), of "[0..<Suc k]" h] by simp
qed

theorem strstr_correct_witness:
  "internal_strstr [97, 98, 98, 0, 98, 0] 0 4 = Some (Some 1)"
proof -
  have "cstr [97, 98, 98, 0, 98, 0 :: u8] 0 [97, 98, 98]" "cstr [97, 98, 98, 0, 98, 0 :: u8] 4 [98]"
    by simp_all
  from strstr_correct [OF this] show ?thesis
    by (simp add: numeral_3_eq_3)
qed

section \<open>Numbers\<close>

text \<open>The number that a decimal string denotes: blanks, a sign, digits, anything.\<close>

abbreviation is_space :: "u8 \<Rightarrow> bool" where
  "is_space b \<equiv> IsSpace (sint b)"

abbreviation is_digit :: "u8 \<Rightarrow> bool" where
  "is_digit b \<equiv> IsDigit (sint b)"

definition digits_value :: "nat \<Rightarrow> u8 list \<Rightarrow> nat" where
  "digits_value a ds = foldl (\<lambda>a d. 10 * a + nat (sint d - 48)) a ds"

definition after_sign :: "u8 list \<Rightarrow> u8 list" where
  "after_sign u = (if u \<noteq> [] \<and> (hd u = 43 \<or> hd u = 45) then tl u else u)"

definition decimal_value :: "u8 list \<Rightarrow> int" where
  "decimal_value s = (let u = dropWhile is_space s; v = int (digits_value 0 (takeWhile is_digit (after_sign u)))
     in if u \<noteq> [] \<and> hd u = 45 then - v else v)"

lemma skip_space_ok:
  "cstr m p s \<Longrightarrow> skip_space m p = Some (p + length (takeWhile is_space s)) \<and>
    cstr m (p + length (takeWhile is_space s)) (dropWhile is_space s)"
proof (induction s arbitrary: p)
  case Nil
  then show ?case by (subst skip_space.simps) (simp add: IsSpace_def)
next
  case (Cons b s)
  then show ?case
    using Cons.IH [of "Suc p"] by (subst skip_space.simps) simp
qed

lemma sint_digit: "IsDigit (sint (b :: u8)) \<Longrightarrow> sint b = 48 + int (nat (sint b - 48)) \<and> nat (sint b - 48) < 10"
  by (auto simp: IsDigit_def)

lemma saturating_step:
  fixes res d :: u64
  assumes "unat res = min (2 ^ 64 - 1) a" and "unat d = k" and "k < 10"
  defines "r1 \<equiv> if res \<le> (- 1) div 10 then res * 10 else - 1"
  shows "unat (if r1 \<le> - 1 - d then r1 + d else - 1) = min (2 ^ 64 - 1) (10 * a + k)"
proof -
  have max: "unat (- 1 :: u64) = 2 ^ 64 - 1"
    by (simp add: unsigned_minus_1_eq_mask mask_eq_exp_minus_1)
  have le: "res \<le> (- 1) div 10 \<longleftrightarrow> 10 * unat res \<le> 2 ^ 64 - 1"
    by (auto simp: word_le_nat_alt unat_div max)
  have r1: "unat r1 = min (2 ^ 64 - 1) (10 * a)"
  proof (cases "10 * unat res \<le> 2 ^ 64 - 1")
    case True
    then have "r1 = res * 10" "unat (res * 10) = 10 * unat res"
      using le by (auto simp only: r1_def if_True simp_thms) (simp add: unat_word_ariths(2))
    then show ?thesis
      using True assms(1) by (simp add: min_def split: if_splits)
  next
    case False
    then have "r1 = - 1"
      using le by (auto simp only: r1_def if_False simp_thms)
    then show ?thesis
      using assms(1) False by (simp add: max min_def split: if_splits)
  qed
  have "unat (- 1 - d) = 2 ^ 64 - 1 - k"
    using assms(2,3) max by (subst unat_sub) (simp_all add: word_le_nat_alt)
  then have le2: "r1 \<le> - 1 - d \<longleftrightarrow> unat r1 + k \<le> 2 ^ 64 - 1"
    using assms(3) by (simp only: word_le_nat_alt) auto
  show ?thesis
  proof (cases "unat r1 + k \<le> 2 ^ 64 - 1")
    case True
    then have "unat (r1 + d) = unat r1 + k"
      using assms(2) by (simp add: unat_word_ariths(1))
    then show ?thesis
      using True r1 le2 by (simp only: if_True simp_thms) (simp add: min_def split: if_splits)
  next
    case False
    then show ?thesis
      using r1 le2 max by (simp only: if_False simp_thms)
  qed
qed

lemma digit_loop_ok:
  "\<lbrakk> cstr m p v; unat res = min (2 ^ 64 - 1) a \<rbrakk> \<Longrightarrow>
    \<exists>res'. digit_loop m p res h = Some (p + length (takeWhile is_digit v), res', h \<or> takeWhile is_digit v \<noteq> []) \<and>
      unat res' = min (2 ^ 64 - 1) (digits_value a (takeWhile is_digit v))"
proof (induction v arbitrary: p res a h)
  case Nil
  then show ?case
    by (subst digit_loop.simps) (simp add: IsDigit_def digits_value_def)
next
  case (Cons b v)
  show ?case
  proof (cases "is_digit b")
    case False
    then show ?thesis
      using Cons.prems by (subst digit_loop.simps) (simp add: digits_value_def)
  next
    case True
    define k where "k = nat (sint b - 48)"
    define r1 where "r1 = (if res \<le> (- 1) div 10 then res * 10 else - 1)"
    define r2 where "r2 = (if r1 \<le> - 1 - word_of_int (sint b - 48) then r1 + word_of_int (sint b - 48) else - 1)"
    have k: "sint b - 48 = int k" "k < 10"
      using sint_digit [OF True] by (simp_all add: k_def)
    then have "unat (word_of_int (sint b - 48) :: u64) = k"
      by (simp add: unat_of_nat)
    then have r2: "unat r2 = min (2 ^ 64 - 1) (10 * a + k)"
      unfolding r2_def r1_def using Cons.prems(2) k(2) by (intro saturating_step)
    have "digit_loop m p res h = digit_loop m (Suc p) r2 True"
      using Cons.prems(1) True by (subst digit_loop.simps) (simp add: Let_def r2_def r1_def)
    then show ?thesis
      using Cons.IH [of "Suc p" r2 "10 * a + k" True] Cons.prems(1) r2 True
      by (auto simp: digits_value_def k_def)
  qed
qed


lemma IsSpace_sign: "\<not> is_space 43" "\<not> is_space 45"
  by (simp_all add: IsSpace_def)

lemma sint_sign: "sint (b :: u8) = 43 \<longleftrightarrow> b = 43" "sint (b :: u8) = 45 \<longleftrightarrow> b = 45"
proof -
  have "sint b = sint c \<longleftrightarrow> b = c" for c :: u8
    by (auto intro: signed_word_eqI)
  from this [of 43] this [of 45] show "sint b = 43 \<longleftrightarrow> b = 43" "sint b = 45 \<longleftrightarrow> b = 45"
    by simp_all
qed

lemma cstr_after_sign:
  assumes "cstr m p u" and "b = m ! p"
  shows "p < length m" and "hd (u @ [0]) = b" and
    "cstr m (if b = 43 \<or> b = 45 then p + 1 else p) (after_sign u)"
  using assms by (cases u; auto simp: after_sign_def)+

lemma clamp_positive:
  fixes r :: u64
  assumes "unat r = min (2 ^ 64 - 1) v"
  shows "sint (min (2 ^ 63 - 1) r) = max (- (2 ^ 63)) (min (2 ^ 63 - 1) (int v))"
proof -
  have m: "unat (2 ^ 63 - 1 :: u64) = 2 ^ 63 - 1"
    by simp
  define x where "x = min (2 ^ 63 - 1) r"
  have "unat x = min (2 ^ 63 - 1) (unat r)"
    unfolding x_def min_def word_le_nat_alt m by simp
  then have "unat x = min (2 ^ 63 - 1) v"
    using assms by simp
  then have "int (unat x) = int (min (2 ^ 63 - 1) v)"
    by (rule arg_cong)
  then have u: "uint x = min (2 ^ 63 - 1) (int v)"
    unfolding of_nat_unat of_nat_min by simp
  show ?thesis
    unfolding x_def [symmetric] sint_eq_if u by simp
qed

lemma clamp_negative:
  fixes r :: u64
  assumes "unat r = min (2 ^ 64 - 1) v"
  shows "sint (if r > 2 ^ 63 - 1 then - (2 ^ 63) else r * - 1) = max (- (2 ^ 63)) (min (2 ^ 63 - 1) (- int v))"
proof (cases "v \<le> 2 ^ 63 - 1")
  case True
  then have r: "unat r = v"
    using assms by simp
  then have "\<not> r > 2 ^ 63 - 1"
    using True by (simp add: word_less_nat_alt)
  moreover have "r = word_of_nat v"
    using r by (metis of_nat_unat ucast_id)
  then have "r * - 1 = word_of_int (- int v)"
    by simp
  moreover have "sint (word_of_int (- int v) :: u64) = - int v"
    using True by (intro sint_of_int_small) simp_all
  ultimately show ?thesis
    using True by simp
next
  case False
  then have "2 ^ 63 \<le> unat r"
    using assms by simp
  then have "r > 2 ^ 63 - 1"
    by (simp add: word_less_nat_alt)
  then show ?thesis
    using False by simp
qed

text \<open>C31: \<^verbatim>\<open>internal_simple_strtoll\<close> of a terminated string is the number that its blanks, sign and
  decimal digits denote, clamped to the range of \<^verbatim>\<open>s64\<close>: neither the accumulation, which
  saturates, nor the final conversion wraps.  The end pointer is just after the digits, or at the
  sign when there are none.
\<close>

theorem strtoll_correct:
  assumes "cstr m p s"
  defines "u \<equiv> dropWhile is_space s"
  shows "\<exists>r e. internal_simple_strtoll m p 10 = Some (r, e) \<and>
    sint r = max (- (2 ^ 63)) (min (2 ^ 63 - 1) (decimal_value s)) \<and>
    e = p + length (takeWhile is_space s) + (if takeWhile is_digit (after_sign u) = [] then 0
      else length u - length (after_sign u) + length (takeWhile is_digit (after_sign u)))"
proof -
  let ?q = "p + length (takeWhile is_space s)"
  note sp = skip_space_ok [OF assms(1), folded u_def]
  define b where "b = m ! ?q"
  note sg = cstr_after_sign [OF conjunct2 [OF sp] b_def]
  let ?p = "if b = 43 \<or> b = 45 then ?q + 1 else ?q"
  let ?ds = "takeWhile is_digit (after_sign u)"
  obtain res where d: "digit_loop m ?p 0 False = Some (?p + length ?ds, res, ?ds \<noteq> [])"
    and res: "unat res = min (2 ^ 64 - 1) (digits_value 0 ?ds)"
    using digit_loop_ok [OF sg(3), of 0 0 False] by auto
  have neg: "(u \<noteq> [] \<and> hd u = 45) \<longleftrightarrow> b = 45" and len: "length u - length (after_sign u) = ?p - ?q"
    using sg(2) by (cases u; auto simp: after_sign_def)+
  define r where "r = (if b = 45 then if res > 2 ^ 63 - 1 then - (2 ^ 63) else res * - 1
    else min (2 ^ 63 - 1) res)"
  have run: "internal_simple_strtoll m p 10 = Some (r, if ?ds \<noteq> [] then ?p + length ?ds else ?q)"
    using sp sg(1) d b_def
    by (auto simp: internal_simple_strtoll_def Let_def sint_sign r_def)
  have "decimal_value s = (if b = 45 then - int (digits_value 0 ?ds) else int (digits_value 0 ?ds))"
    unfolding decimal_value_def Let_def u_def [symmetric] neg ..
  then have "sint r = max (- (2 ^ 63)) (min (2 ^ 63 - 1) (decimal_value s))"
    using clamp_positive [OF res] clamp_negative [OF res] by (simp only: r_def split: if_split) blast
  then show ?thesis
    using run len by auto
qed

theorem strtoll_correct_witness:
  "\<exists>r e. internal_simple_strtoll [32, 45, 52, 50, 0] 0 10 = Some (r, e) \<and> sint r = - 42"
proof -
  have "cstr [32, 45, 52, 50, 0 :: u8] 0 [32, 45, 52, 50]"
    by simp
  moreover have "decimal_value [32, 45, 52, 50] = - 42"
    by code_simp
  ultimately show ?thesis
    using strtoll_correct by fastforce
qed

section \<open>Bounded copies\<close>

lemma cstr_prefix: "cstr m p s \<Longrightarrow> n \<le> length s \<Longrightarrow> take n (drop p m) = take n s"
  using cstr_take_drop [of m p s 0 n] by simp

lemma cstr_all: "cstr m p s \<Longrightarrow> take (Suc (length s)) (drop p m) = s @ [0]"
  unfolding cstr_def using take_Suc_conv_app_nth [of "length s" "drop p m"] by (auto simp: less_diff_conv)

lemma overwrite_last:
  assumes "d + length bs < length m"
  shows "(overwrite m d bs)[d + length bs := b] = overwrite m d (bs @ [b])"
  using assms by (intro overwrite_eqI) (auto simp: length_overwrite nth_overwrite nth_list_update nth_append)

lemma overwrite_Nil [simp]: "overwrite m d [] = m"
  by (simp add: overwrite_def)

text \<open>The two copies of \<^verbatim>\<open>strlcpy\<close> and \<^verbatim>\<open>strlcat\<close>: as much of the string as fits, and a terminator.\<close>

lemma bounded_copy:
  assumes "cstr m src t" and "0 < k" and "d + k \<le> length m" and "length t < 2 ^ 62" and "k < 2 ^ 62"
  shows "(if length t < k then internal_memmove m d src (length t + 1)
    else do { m \<leftarrow> internal_memmove m d src (k - 1); arr_set m (d + (k - 1)) 0 }) =
    Some (overwrite m d (take (k - 1) t @ [0]))"
proof (cases "length t < k")
  case True
  have "src + Suc (length t) \<le> length m"
    using assms(1) by (simp add: cstr_def)
  then show ?thesis
    using True assms(3,4) memmove_ok [of d "Suc (length t)" m src] cstr_all [OF assms(1)] by simp
next
  case False
  have "src + (k - 1) \<le> length m"
    using assms(1) False unfolding cstr_def by linarith
  then have "internal_memmove m d src (k - 1) = Some (overwrite m d (take (k - 1) t))"
    using False assms(2,3,5) memmove_ok [of d "k - 1" m src] cstr_prefix [OF assms(1), of "k - 1"] by simp
  moreover have "length (take (k - 1) t) = k - 1"
    using False by simp
  ultimately show ?thesis
    using False assms(2,3) overwrite_last [of d "take (k - 1) t" m 0]
    by (simp add: arr_set_def length_overwrite)
qed

text \<open>C32: \<^verbatim>\<open>internal_strlcpy\<close> and \<^verbatim>\<open>internal_strlcat\<close> never write outside the \<open>n\<close> bytes of the
  destination, leave it terminated, store as much of the source as fits, and return the length of
  the string they tried to create.
\<close>

theorem strlcpy_strlcat_correct:
  assumes "cstr m src t" and "cstr m dst u" and "dst + n \<le> length m" and "length t < 2 ^ 62" and "n < 2 ^ 62"
  shows "internal_strlcpy m dst src n =
      Some (if n = 0 then m else overwrite m dst (take (n - 1) t @ [0]), length t) \<and>
    internal_strlcat m dst src n =
      (if n \<le> length u then Some (m, n + length t)
       else Some (overwrite m (dst + length u) (take (n - length u - 1) t @ [0]), length u + length t))"
proof
  show "internal_strlcpy m dst src n =
      Some (if n = 0 then m else overwrite m dst (take (n - 1) t @ [0]), length t)"
    using bounded_copy [OF assms(1) _ assms(3,4,5)] strlen_ok [OF assms(1)]
    by (cases "n = 0"; cases "length t < n") (simp_all add: internal_strlcpy_def)
  show "internal_strlcat m dst src n =
      (if n \<le> length u then Some (m, n + length t)
       else Some (overwrite m (dst + length u) (take (n - length u - 1) t @ [0]), length u + length t))"
  proof (cases "n \<le> length u")
    case True
    then show ?thesis
      using strlen_ok [OF assms(1)] strnlen_ok [OF assms(2), of n] by (simp add: internal_strlcat_def)
  next
    case False
    have "dst + length u + (n - length u - 1) = dst + (n - 1)"
      using False by simp
    then show ?thesis
      using False bounded_copy [OF assms(1), of "n - length u" "dst + length u"] assms(3-5)
        strlen_ok [OF assms(1)] strnlen_ok [OF assms(2), of n]
      by (cases "length t < n - length u") (simp_all add: internal_strlcat_def)
  qed
qed

theorem strlcpy_strlcat_correct_witness:
  "internal_strlcat [97, 0, 9, 9, 98, 99, 0] 0 4 3 = Some ([97, 98, 0, 9, 98, 99, 0], 3)"
proof -
  have "cstr [97, 0, 9, 9, 98, 99, 0 :: u8] 4 [98, 99]" "cstr [97, 0, 9, 9, 98, 99, 0 :: u8] 0 [97]"
    by simp_all
  from strlcpy_strlcat_correct [OF this, of 3] show ?thesis
    by (simp add: overwrite_def)
qed

section \<open>Zero memory\<close>

lemma fold_or_eq_0:
  fixes f :: "'b \<Rightarrow> 'a::len word"
  shows "fold (\<lambda>a w. w OR f a) as w = 0 \<longleftrightarrow> w = 0 \<and> (\<forall>a\<in>set as. f a = 0)"
  by (induction as arbitrary: w) (auto simp: or_eq_0_iff)

lemma scast_byte_eq_0: "(scast (b :: u8) :: u64) = 0 \<longleftrightarrow> b = 0"
proof
  assume "(scast b :: u64) = 0"
  then have "sint (scast b :: u64) = 0"
    by (simp only: signed_0)
  then have "sint b = sint (0 :: u8)"
    using sint_up_scast [of b, where 'b = 64] by (simp add: is_up)
  then show "b = 0"
    by (rule signed_word_eqI)
qed simp

lemma push_byte_eq_0: "push_bit (8 * i) (ucast (b :: u8)) = (0 :: u64) \<longleftrightarrow> b = 0" if "i < 8"
proof
  assume z: "push_bit (8 * i) (ucast b) = (0 :: u64)"
  have "\<not> bit b n" for n
  proof
    assume b: "bit b n"
    then have "n < 8"
      using bit_imp_le_length [OF b] by simp
    then have "bit (push_bit (8 * i) (ucast b) :: u64) (8 * i + n)"
      using b that by (simp add: bit_simps)
    then show False
      using z by simp
  qed
  then show "b = 0"
    by (simp add: word_eq_0_iff_bits)
qed simp

lemma load64_ok:
  assumes "p + 8 \<le> length m"
  shows "\<exists>v. load64 m p = Some v \<and> (v = 0 \<longleftrightarrow> (\<forall>i<8. m ! (p + i) = 0))"
proof -
  have "foldM (\<lambda>i w. do { b \<leftarrow> arr_get m (p + i); Some (w OR push_bit (8 * i) (ucast b)) }) is (w :: u64) =
      Some (fold (\<lambda>i w. w OR push_bit (8 * i) (ucast (m ! (p + i)))) is w)" if "\<forall>i\<in>set is. i < 8" for "is" w
    using that assms by (induction "is" arbitrary: w) (auto simp: arr_get_def)
  then show ?thesis
    using fold_or_eq_0 [of "\<lambda>i. push_bit (8 * i) (ucast (m ! (p + i))) :: u64" "[0..<8]" 0]
    by (auto simp: load64_def push_byte_eq_0)
qed

lemma or_bytes_ok:
  fixes m :: memory
  assumes "b \<le> length m"
  shows "\<exists>v. foldM (\<lambda>a (w :: u64). do { b \<leftarrow> arr_get m a; Some (w OR scast b) }) [a..<b] w = Some v \<and>
    (v = 0 \<longleftrightarrow> w = 0 \<and> (\<forall>i\<in>{a..<b}. m ! i = 0))"
proof -
  have "foldM (\<lambda>a (w :: u64). do { b \<leftarrow> arr_get m a; Some (w OR scast b) }) is w =
      Some (fold (\<lambda>i w. w OR scast (m ! i)) is w)" if "\<forall>i\<in>set is. i < b" for "is" w
    using that assms by (induction "is" arbitrary: w) (auto simp: arr_get_def)
  then show ?thesis
    using fold_or_eq_0 [of "\<lambda>i. scast (m ! i) :: u64" "[a..<b]" w] by (auto simp: scast_byte_eq_0)
qed

lemma or_words_ok:
  assumes "a + 8 * k \<le> length m"
  shows "\<exists>v. foldM (\<lambda>j w. do { v \<leftarrow> load64 m (a + 8 * j); Some (w OR v) }) [0..<k] w = Some v \<and>
    (v = 0 \<longleftrightarrow> w = 0 \<and> (\<forall>i\<in>{a..<a + 8 * k}. m ! i = 0))"
  using assms
proof (induction k)
  case (Suc k)
  then obtain v where v: "foldM (\<lambda>j w. do { v \<leftarrow> load64 m (a + 8 * j); Some (w OR v) }) [0..<k] w = Some v"
    "v = 0 \<longleftrightarrow> w = 0 \<and> (\<forall>i\<in>{a..<a + 8 * k}. m ! i = 0)"
    by auto
  obtain x where x: "load64 m (a + 8 * k) = Some x" "x = 0 \<longleftrightarrow> (\<forall>i<8. m ! (a + 8 * k + i) = 0)"
    using load64_ok [of "a + 8 * k" m] Suc.prems by auto
  have "(\<forall>i<8. m ! (a + 8 * k + i) = 0) \<longleftrightarrow> (\<forall>i\<in>{a + 8 * k..<a + 8 * Suc k}. m ! i = 0)"
    by (auto simp: le_iff_add)
  moreover have "{a..<a + 8 * Suc k} = {a..<a + 8 * k} \<union> {a + 8 * k..<a + 8 * Suc k}"
    by (rule ivl_disj_un_two(3) [symmetric]) simp_all
  ultimately show ?case
    using v x by (simp add: foldM_append or_eq_0_iff ball_Un)
qed simp

text \<open>C33: \<^verbatim>\<open>mem_is_zero\<close>, which reads whole aligned words between a byte-wise prologue and
  epilogue, answers exactly whether every byte of the range is zero, whatever the alignment, and
  reads no byte outside it.
\<close>

theorem mem_is_zero_correct:
  assumes "beg + sz \<le> length m" and "length m < 2 ^ 62" and "sz \<le> 2 ^ 40"
  shows "mem_is_zero m beg sz = Some (\<forall>i < sz. m ! (beg + i) = 0)"
proof -
  define fin where "fin = beg + sz"
  define ab where "ab = (beg + 8 - 1) div 8 * 8"
  define ae where "ae = fin div 8 * 8"
  have up: "map_option unat (RoundUpTo (word_of_nat beg) 8) = Some ab"
    using RoundUpTo_ok [of 8 3 "word_of_nat beg"] assms by (auto simp: unat_of_nat ab_def)
  have down: "unat (RoundDownTo (word_of_nat fin) 8) = ae"
    using RoundDownTo_ok [of 8 3 "word_of_nat fin"] assms(1,2) by (simp add: unat_of_nat ae_def fin_def [symmetric])
  have range: "(\<forall>i < sz. m ! (beg + i) = 0) \<longleftrightarrow> (\<forall>i\<in>{beg..<fin}. m ! i = 0)"
    by (auto simp: le_iff_add fin_def)
  have bounds: "beg \<le> ab" "ab < beg + 8" "ae \<le> fin" "fin < ae + 8" "fin \<le> length m"
    using round_up_bounds [of 8 beg] round_down_bounds [of 8 fin] assms(1)
    unfolding ab_def ae_def fin_def by simp_all
  obtain x y where k: "ab = 8 * x" "ae = 8 * y"
    unfolding ab_def ae_def by (metis mult.commute)
  obtain v where v: "foldM (\<lambda>a (w :: u64). do { b \<leftarrow> arr_get m a; Some (w OR scast b) }) [beg..<min ab fin] 0 = Some v"
    "v = 0 \<longleftrightarrow> (\<forall>i\<in>{beg..<min ab fin}. m ! i = 0)"
    using or_bytes_ok [OF min.coboundedI2 [OF bounds(5), of ab], of beg 0] by blast
  show ?thesis
  proof (cases "beg \<le> ae")
    case False
    have "y < x"
      using False bounds k by linarith
    then have "fin \<le> ab" "ae - ab = 0"
      using bounds k Suc_leI [of y x] by linarith+
    then show ?thesis
      using v False assms(3) unfolding mem_is_zero_def range up Let_def fin_def [symmetric] down by (simp add: check_def)
  next
    case True
    have "x < Suc y"
      using True bounds k by linarith
    then have le: "ab \<le> ae"
      unfolding k by simp
    have words: "ab + 8 * ((ae - ab) div 8) = ae"
      using le unfolding k by (simp flip: diff_mult_distrib2)
    obtain x where x: "foldM (\<lambda>j w. do { v \<leftarrow> load64 m (ab + 8 * j); Some (w OR v) }) [0..<(ae - ab) div 8] v = Some x"
      "x = 0 \<longleftrightarrow> v = 0 \<and> (\<forall>i\<in>{ab..<ae}. m ! i = 0)"
      using or_words_ok [of ab "(ae - ab) div 8" m v] words bounds by auto
    obtain y where y: "foldM (\<lambda>a w. do { b \<leftarrow> arr_get m a; Some (w OR scast b) }) [ae..<fin] x = Some y"
      "y = 0 \<longleftrightarrow> x = 0 \<and> (\<forall>i\<in>{ae..<fin}. m ! i = 0)"
      using or_bytes_ok [OF bounds(5), of ae x] by auto
    have m: "min ab fin = ab"
      using le bounds by linarith
    have "{beg..<fin} = {beg..<ab} \<union> {ab..<ae} \<union> {ae..<fin}"
      using le bounds by (simp add: ivl_disj_un_two(3))
    then have "y = 0 \<longleftrightarrow> (\<forall>i\<in>{beg..<fin}. m ! i = 0)"
      using v(2) x(2) y(2) unfolding m by (simp add: ball_Un)
    then show ?thesis
      using v(1) x(1) y(1) True assms(3) unfolding mem_is_zero_def range up Let_def fin_def [symmetric] down
      by (simp add: check_def)
  qed
qed

theorem mem_is_zero_correct_witness: "mem_is_zero (replicate 20 0) 3 14 = Some True"
  using mem_is_zero_correct [of 3 14 "replicate 20 0"] by simp

end
