(* ===== verification/Var_Int.thy ===== *)
theory Var_Int
  imports San_Libc
begin

text \<open>
  The variable-length integers of the runtimes: the stack trace compressor of GWP-ASan
  (\<^verbatim>\<open>stack_trace_compressor.cpp\<close>), the LEB128 templates of \<^verbatim>\<open>sanitizer_leb128.h\<close> and the
  delta coder of \<^verbatim>\<open>sanitizer_stack_store.cpp\<close> built on them.  A byte buffer is an array of
  bytes and a pointer an index into it; an access outside the array, a shift by the width or more and
  the use of a variable that was not assigned are \<^term>\<open>None\<close>.  The templates are taken at the
  64-bit types the callers use.  Counted loops and loops towards an end pointer recurse on the
  number of bytes left.

  \<open>uleb\<close> and \<open>sleb\<close> are the byte strings of a number; the encoders are shown to store them (or what fits
  of them) and the decoders to read them back, which gives the round trips of the two compressors.
\<close>

section \<open>stack_trace_compressor.cpp\<close>

fun varIntEncode_loop :: "nat \<Rightarrow> u64 \<Rightarrow> memory \<Rightarrow> nat \<Rightarrow> nat \<Rightarrow> (nat \<times> memory) option" where
  "varIntEncode_loop 0 Value m Out i = Some (0, m)"
| "varIntEncode_loop (Suc left) Value m Out i = do {
     m \<leftarrow> arr_set m (Out + i) (ucast (Value AND 0x7f));
     let Value = drop_bit 7 Value;
     if Value = 0 then Some (i + 1, m)
     else do {
       b \<leftarrow> arr_get m (Out + i);
       m \<leftarrow> arr_set m (Out + i) (b OR 0x80);
       varIntEncode_loop left Value m Out (i + 1) } }"

definition varIntEncode :: "u64 \<Rightarrow> memory \<Rightarrow> nat \<Rightarrow> nat \<Rightarrow> (nat \<times> memory) option" where
  "varIntEncode Value m Out OutLen = varIntEncode_loop OutLen Value m Out 0"

fun varIntDecode_loop :: "nat \<Rightarrow> memory \<Rightarrow> nat \<Rightarrow> nat \<Rightarrow> u64 \<Rightarrow> nat \<Rightarrow> (nat \<times> u64) option" where
  "varIntDecode_loop 0 m In i Out Shift = Some (0, Out)"
| "varIntDecode_loop (Suc left) m In i Out Shift = do {
     b \<leftarrow> arr_get m (In + i);
     let Out = Out OR push_bit Shift (ucast b AND 0x7f);
     if b < 0x80 then Some (i + 1, Out)
     else
       let Shift = Shift + 7
       in if Shift \<ge> 64 then Some (0, Out) else varIntDecode_loop left m In (i + 1) Out Shift }"

definition varIntDecode :: "memory \<Rightarrow> nat \<Rightarrow> nat \<Rightarrow> (nat \<times> u64) option" where
  "varIntDecode m In InLen = varIntDecode_loop InLen m In 0 0 0"

definition zigzagEncode :: "u64 \<Rightarrow> u64" where
  "zigzagEncode Value =
     (let Encoded = push_bit 1 Value in if sint Value \<ge> 0 then Encoded else NOT Encoded)"

definition zigzagDecode :: "u64 \<Rightarrow> u64" where
  "zigzagDecode Value =
     (let Decoded = drop_bit 1 Value in if Value AND 1 = 0 then Decoded else NOT Decoded)"

fun pack_loop :: "nat \<Rightarrow> u64 list \<Rightarrow> nat \<Rightarrow> memory \<Rightarrow> nat \<Rightarrow> nat \<Rightarrow> nat \<Rightarrow> (nat \<times> memory) option" where
  "pack_loop 0 Unpacked CurrentDepth m Packed PackedMaxSize Index = Some (Index, m)"
| "pack_loop (Suc left) Unpacked CurrentDepth m Packed PackedMaxSize Index = do {
     Diff \<leftarrow> arr_get Unpacked CurrentDepth;
     Diff \<leftarrow> (if CurrentDepth > 0
       then do { p \<leftarrow> arr_get Unpacked (CurrentDepth - 1); Some (Diff - p) } else Some Diff);
     (EncodedLength, m) \<leftarrow> varIntEncode (zigzagEncode Diff) m (Packed + Index) (PackedMaxSize - Index);
     if EncodedLength = 0 then Some (Index, m)
     else pack_loop left Unpacked (CurrentDepth + 1) m Packed PackedMaxSize (Index + EncodedLength) }"

text \<open>The result and the memory after the call; \<open>Packed\<close> is the index of the output buffer.\<close>

definition pack :: "u64 list \<Rightarrow> nat \<Rightarrow> memory \<Rightarrow> nat \<Rightarrow> nat \<Rightarrow> (nat \<times> memory) option" where
  "pack Unpacked UnpackedSize m Packed PackedMaxSize =
     pack_loop UnpackedSize Unpacked 0 m Packed PackedMaxSize 0"

fun unpack_loop :: "nat \<Rightarrow> memory \<Rightarrow> nat \<Rightarrow> nat \<Rightarrow> u64 list \<Rightarrow> nat \<Rightarrow> nat \<Rightarrow> (nat \<times> nat \<times> u64 list) option" where
  "unpack_loop 0 m Packed PackedSize Unpacked CurrentDepth Index = Some (CurrentDepth, Index, Unpacked)"
| "unpack_loop (Suc left) m Packed PackedSize Unpacked CurrentDepth Index = do {
     (DecodedLength, EncodedDiff) \<leftarrow> varIntDecode m (Packed + Index) (PackedSize - Index);
     if DecodedLength = 0 then Some (CurrentDepth, Index, Unpacked)
     else do {
       let Index = Index + DecodedLength;
       Unpacked \<leftarrow> arr_set Unpacked CurrentDepth (zigzagDecode EncodedDiff);
       Unpacked \<leftarrow> (if CurrentDepth > 0
         then do {
           d \<leftarrow> arr_get Unpacked CurrentDepth;
           p \<leftarrow> arr_get Unpacked (CurrentDepth - 1);
           arr_set Unpacked CurrentDepth (d + p) }
         else Some Unpacked);
       unpack_loop left m Packed PackedSize Unpacked (CurrentDepth + 1) Index } }"

definition unpack :: "memory \<Rightarrow> nat \<Rightarrow> nat \<Rightarrow> u64 list \<Rightarrow> nat \<Rightarrow> (nat \<times> u64 list) option" where
  "unpack m Packed PackedSize Unpacked UnpackedMaxSize = do {
     (CurrentDepth, Index, Unpacked) \<leftarrow> unpack_loop UnpackedMaxSize m Packed PackedSize Unpacked 0 0;
     if Index \<noteq> PackedSize \<and> CurrentDepth \<noteq> UnpackedMaxSize then Some (0, Unpacked)
     else Some (CurrentDepth, Unpacked) }"

section \<open>sanitizer_leb128.h\<close>

text \<open>The encoders return the iterator after the last byte stored.\<close>

fun EncodeSLEB128_loop :: "nat \<Rightarrow> u64 \<Rightarrow> memory \<Rightarrow> nat \<Rightarrow> (nat \<times> memory) option" where
  "EncodeSLEB128_loop 0 val m beg = Some (beg, m)"
| "EncodeSLEB128_loop (Suc left) val m beg =
     (let byte = ucast (val AND 0x7f);
          val = signed_drop_bit 7 val;
          more = (\<not> (val = 0 \<and> byte AND 0x40 = 0 \<or> val = - 1 \<and> byte AND 0x40 \<noteq> 0));
          byte = (if more then byte OR 0x80 else byte)
      in do {
        m \<leftarrow> arr_set m beg byte;
        if more then EncodeSLEB128_loop left val m (beg + 1) else Some (beg + 1, m) })"

definition EncodeSLEB128 :: "u64 \<Rightarrow> memory \<Rightarrow> nat \<Rightarrow> nat \<Rightarrow> (nat \<times> memory) option" where
  "EncodeSLEB128 val m beg fin = EncodeSLEB128_loop (fin - beg) val m beg"

text \<open>The decoders return the iterator and the number stored through \<^verbatim>\<open>v\<close>, if one is stored.\<close>

fun DecodeSLEB128_loop :: "nat \<Rightarrow> memory \<Rightarrow> nat \<Rightarrow> u64 \<Rightarrow> nat \<Rightarrow> (nat \<times> u64 option) option" where
  "DecodeSLEB128_loop 0 m beg val shift = Some (beg, None)"
| "DecodeSLEB128_loop (Suc left) m beg val shift = do {
     byte \<leftarrow> arr_get m beg;
     check (shift < 64);
     let val = val OR push_bit shift (ucast (byte AND 0x7f));
     let shift = shift + 7;
     if byte \<ge> 128 then DecodeSLEB128_loop left m (beg + 1) val shift
     else if shift < 64 \<and> byte AND 0x40 \<noteq> 0 then Some (beg + 1, Some (val OR push_bit shift (- 1)))
     else Some (beg + 1, Some val) }"

definition DecodeSLEB128 :: "memory \<Rightarrow> nat \<Rightarrow> nat \<Rightarrow> (nat \<times> u64 option) option" where
  "DecodeSLEB128 m beg fin = DecodeSLEB128_loop (fin - beg) m beg 0 0"

fun EncodeULEB128_loop :: "nat \<Rightarrow> u64 \<Rightarrow> memory \<Rightarrow> nat \<Rightarrow> (nat \<times> memory) option" where
  "EncodeULEB128_loop 0 val m beg = Some (beg, m)"
| "EncodeULEB128_loop (Suc left) val m beg =
     (let byte = ucast (val AND 0x7f);
          val = drop_bit 7 val;
          byte = (if val \<noteq> 0 then byte OR 0x80 else byte)
      in do {
        m \<leftarrow> arr_set m beg byte;
        if val \<noteq> 0 then EncodeULEB128_loop left val m (beg + 1) else Some (beg + 1, m) })"

definition EncodeULEB128 :: "u64 \<Rightarrow> memory \<Rightarrow> nat \<Rightarrow> nat \<Rightarrow> (nat \<times> memory) option" where
  "EncodeULEB128 val m beg fin = EncodeULEB128_loop (fin - beg) val m beg"

fun DecodeULEB128_loop :: "nat \<Rightarrow> memory \<Rightarrow> nat \<Rightarrow> u64 \<Rightarrow> nat \<Rightarrow> (nat \<times> u64 option) option" where
  "DecodeULEB128_loop 0 m beg val shift = Some (beg, None)"
| "DecodeULEB128_loop (Suc left) m beg val shift = do {
     byte \<leftarrow> arr_get m beg;
     check (shift < 64);
     let val = val + push_bit shift (ucast (byte AND 0x7f));
     let shift = shift + 7;
     if byte \<ge> 128 then DecodeULEB128_loop left m (beg + 1) val shift
     else Some (beg + 1, Some val) }"

definition DecodeULEB128 :: "memory \<Rightarrow> nat \<Rightarrow> nat \<Rightarrow> (nat \<times> u64 option) option" where
  "DecodeULEB128 m beg fin = DecodeULEB128_loop (fin - beg) m beg 0 0"

section \<open>The delta coder of the stack store\<close>

record SLeb128Encoder =
  enc_begin :: nat
  enc_end :: nat
  enc_previous :: u64

definition encoder_assign :: "SLeb128Encoder \<Rightarrow> u64 \<Rightarrow> memory \<Rightarrow> (SLeb128Encoder \<times> memory) option" where
  "encoder_assign e v m = do {
     let diff = v - enc_previous e;
     (b, m) \<leftarrow> EncodeSLEB128 diff m (enc_begin e) (enc_end e);
     Some (e\<lparr>enc_begin := b, enc_previous := v\<rparr>, m) }"

record SLeb128Decoder =
  dec_begin :: nat
  dec_end :: nat
  dec_previous :: u64

definition decoder_deref :: "SLeb128Decoder \<Rightarrow> memory \<Rightarrow> (u64 \<times> SLeb128Decoder) option" where
  "decoder_deref d m = do {
     (b, diff) \<leftarrow> DecodeSLEB128 m (dec_begin d) (dec_end d);
     diff \<leftarrow> diff;
     let previous = dec_previous d + diff;
     Some (previous, d\<lparr>dec_begin := b, dec_previous := previous\<rparr>) }"

text \<open>The frames \<^verbatim>\<open>[from, from_end)\<close> are a list.\<close>

definition CompressDelta :: "u64 list \<Rightarrow> memory \<Rightarrow> nat \<Rightarrow> nat \<Rightarrow> (nat \<times> memory) option" where
  "CompressDelta frames m to to_end = do {
     (e, m) \<leftarrow> foldM (\<lambda>v (e, m). encoder_assign e v m) frames
       (\<lparr>enc_begin = to, enc_end = to_end, enc_previous = 0\<rparr>, m);
     Some (enc_begin e, m) }"

partial_function (option) UncompressDelta_loop :: "SLeb128Decoder \<Rightarrow> memory \<Rightarrow> u64 list \<Rightarrow> nat \<Rightarrow> (u64 list \<times> nat) option" where
  "UncompressDelta_loop decoder m frames to =
     (if dec_begin decoder = dec_end decoder then Some (frames, to)
      else do {
        (v, decoder) \<leftarrow> decoder_deref decoder m;
        frames \<leftarrow> arr_set frames to v;
        UncompressDelta_loop decoder m frames (to + 1) })"

text \<open>The output frames are an array of their own, \<open>to\<close> and \<open>to_end\<close> indices into it.\<close>

definition UncompressDelta :: "memory \<Rightarrow> nat \<Rightarrow> nat \<Rightarrow> u64 list \<Rightarrow> nat \<Rightarrow> nat \<Rightarrow> (u64 list \<times> nat) option" where
  "UncompressDelta m frm frm_end frames to to_end = do {
     (frames, to) \<leftarrow> UncompressDelta_loop \<lparr>dec_begin = frm, dec_end = frm_end, dec_previous = 0\<rparr> m frames to;
     check (to = to_end);
     Some (frames, to) }"

section \<open>The bytes of a number\<close>

function uleb :: "u64 \<Rightarrow> u8 list" where
  "uleb v =
     (let b = ucast (v AND 0x7f)
      in if drop_bit 7 v = 0 then [b] else (b OR 0x80) # uleb (drop_bit 7 v))"
  by auto
termination
proof (relation "measure unat")
  fix v b :: "'a::len word"
  show "wf (measure unat)" by simp
next
  fix v :: u64 and b :: u8
  assume "drop_bit 7 v \<noteq> 0"
  then have "0 < unat v"
    by (metis drop_bit_of_0 unat_gt_0)
  then show "(drop_bit 7 v, v) \<in> measure unat"
    by (simp add: unat_drop_bit_div)
qed

function sleb :: "u64 \<Rightarrow> u8 list" where
  "sleb v =
     (let b = ucast (v AND 0x7f); v' = signed_drop_bit 7 v
      in if v' = 0 \<and> b AND 0x40 = 0 \<or> v' = - 1 \<and> b AND 0x40 \<noteq> 0 then [b] else (b OR 0x80) # sleb v')"
  by auto
termination
proof (relation "measure (\<lambda>v. nat \<bar>sint v\<bar>)")
  show "wf (measure (\<lambda>v. nat \<bar>sint v\<bar>))" by simp
next
  fix v v' :: u64 and b :: u8
  assume "b = ucast (v AND 0x7f)" and v': "v' = signed_drop_bit 7 v"
    and "\<not> (v' = 0 \<and> b AND 0x40 = 0 \<or> v' = - 1 \<and> b AND 0x40 \<noteq> 0)"
  then have "v \<noteq> 0" "v \<noteq> - 1"
    by auto
  then have n: "sint v \<noteq> 0" "sint v \<noteq> - 1"
    by (metis signed_0 signed_minus_1 signed_word_eqI)+
  have "sint v' = sint v div 128"
    by (simp add: v' sint_signed_drop_bit_eq drop_bit_eq_div)
  then have "\<bar>sint v'\<bar> < \<bar>sint v\<bar>"
    using n by linarith
  then show "(v', v) \<in> measure (\<lambda>v. nat \<bar>sint v\<bar>)"
    by simp
qed

lemmas [simp del] = uleb.simps sleb.simps

lemma byte_masks: "(0x7f :: u64) = mask 7" "(0x7f :: u8) = mask 7" "(0x80 :: u8) = push_bit 7 1" "(0x40 :: u8) = push_bit 6 1"
  by (simp_all add: mask_eq_exp_minus_1)

lemma bit_low_byte: "bit (ucast (v AND 0x7f) :: u8) i \<longleftrightarrow> i < 7 \<and> bit (v :: u64) i"
  unfolding byte_masks(1) by (auto simp: bit_simps)

lemma bit_7_iff: "bit (b :: u8) 7 \<longleftrightarrow> 128 \<le> b"
proof -
  have "unat b < 256"
    using unsigned_less [of b, where ?'a = nat] by simp
  then have "unat b div 128 = 1" if "128 \<le> unat b"
    using that by (intro div_nat_eqI) simp_all
  then show ?thesis
    unfolding bit_unat_odd word_le_nat_alt by (cases "unat b < 128") simp_all
qed

lemma bit_flags: "bit (0x80 :: u8) i \<longleftrightarrow> i = 7" "bit (0x40 :: u8) i \<longleftrightarrow> i = 6"
  unfolding byte_masks(3,4) bit_push_bit_iff by (auto simp: bit_1_iff)

lemma low_byte:
  fixes v :: u64
  defines "b \<equiv> ucast (v AND 0x7f) :: u8"
  shows "b < 128" and "128 \<le> b OR 0x80" and "ucast b AND 0x7f = take_bit 7 v" and "ucast (b OR 0x80) AND 0x7f = take_bit 7 v"
    and "ucast (b AND 0x7f) = take_bit 7 v" and "ucast ((b OR 0x80) AND 0x7f) = take_bit 7 v" and "b AND 0x40 = 0 \<longleftrightarrow> \<not> bit v 6"
proof -
  have b: "bit b i \<longleftrightarrow> i < 7 \<and> bit v i" for i
    unfolding b_def by (rule bit_low_byte)
  define c where "c = b OR 0x80"
  have c: "bit c i \<longleftrightarrow> i = 7 \<or> i < 7 \<and> bit v i" for i
    unfolding c_def bit_or_iff b bit_flags by auto
  show "ucast b AND 0x7f = take_bit 7 v" "ucast (b OR 0x80) AND 0x7f = take_bit 7 v"
    "ucast (b AND 0x7f) = take_bit 7 v" "ucast ((b OR 0x80) AND 0x7f) = take_bit 7 v"
    unfolding byte_masks(1,2) c_def [symmetric] by (auto intro!: bit_word_eqI simp: bit_simps b c)
  show "b < 128"
    using b [of 7] unfolding bit_7_iff by simp
  have "bit (b OR 0x80) 7"
    using c [of 7] by (simp add: c_def)
  then show "128 \<le> b OR 0x80"
    unfolding bit_7_iff .
  have f: "bit (b AND 0x40) i \<longleftrightarrow> i = 6 \<and> bit v 6" for i
    unfolding bit_and_iff b bit_flags by auto
  then have "b AND 0x40 = 0" if "\<not> bit v 6"
    using that by (intro bit_word_eqI) simp
  then show "b AND 0x40 = 0 \<longleftrightarrow> \<not> bit v 6"
    using f [of 6] by auto
qed

lemma take_bit_next:
  "take_bit s V OR push_bit s (take_bit 7 (drop_bit s V)) = take_bit (s + 7) (V :: u64)"
  "take_bit s V OR push_bit s (take_bit 7 (signed_drop_bit s V)) = take_bit (s + 7) V"
  by (auto intro!: bit_word_eqI simp: bit_simps bit_signed_drop_bit_iff split: if_splits)

lemma overwrite_Cons:
  assumes "d + Suc (length bs) \<le> length m"
  shows "overwrite (m[d := b]) (Suc d) bs = overwrite m d (b # bs)"
  using assms by (intro overwrite_eqI) (auto simp: length_overwrite nth_overwrite nth_list_update nth_Cons')

section \<open>Storing and reading the bytes\<close>

primrec bytes_at :: "memory \<Rightarrow> nat \<Rightarrow> u8 list \<Rightarrow> bool" where
  "bytes_at m p [] = True"
| "bytes_at m p (b # bs) = (arr_get m p = Some b \<and> bytes_at m (Suc p) bs)"

lemma bytes_at_append: "bytes_at m p (bs @ cs) \<longleftrightarrow> bytes_at m p bs \<and> bytes_at m (p + length bs) cs"
  by (induction bs arbitrary: p) auto

lemma bytes_at_iff: "bytes_at m p bs \<longleftrightarrow> (\<forall>i<length bs. p + i < length m \<and> m ! (p + i) = bs ! i)"
  by (induction bs arbitrary: p) (auto simp: arr_get_eq_Some less_Suc_eq_0_disj)

lemma bytes_at_overwrite: "d + length bs \<le> length m \<Longrightarrow> bytes_at (overwrite m d bs) d bs"
  by (simp add: bytes_at_iff length_overwrite nth_overwrite)

lemma bytes_at_frame:
  assumes "d + length cs \<le> length m" and "p + length bs \<le> d"
  shows "bytes_at (overwrite m d cs) p bs \<longleftrightarrow> bytes_at m p bs"
  using assms by (auto simp: bytes_at_iff length_overwrite nth_overwrite)

lemma overwrite_single: "d < length m \<Longrightarrow> overwrite m d [b] = m[d := b]"
  using overwrite_Cons [of d "[]" m b] by simp

lemma varIntEncode_loop_ok:
  "Out + i + left \<le> length m \<Longrightarrow>
    varIntEncode_loop left v m Out i =
      Some (if length (uleb v) \<le> left then i + length (uleb v) else 0, overwrite m (Out + i) (take left (uleb v)))"
proof (induction left arbitrary: v m i)
  case 0
  have "uleb v \<noteq> []"
    by (subst uleb.simps) (simp add: Let_def)
  then show ?case by simp
next
  case (Suc left)
  have o: "overwrite (m[Out + i := b]) (Suc (Out + i)) (take left bs) = overwrite m (Out + i) (b # take left bs)" for b bs
    using Suc.prems by (intro overwrite_Cons) simp
  have IH: "varIntEncode_loop left (drop_bit 7 v) (m[Out + i := b]) Out (Suc i) =
      Some (if length (uleb (drop_bit 7 v)) \<le> left then Suc i + length (uleb (drop_bit 7 v)) else 0,
        overwrite m (Out + i) (b # take left (uleb (drop_bit 7 v))))" for b
    using Suc.prems Suc.IH [of "Suc i" "m[Out + i := b]" "drop_bit 7 v"] by (simp add: o)
  have "uleb v = (if drop_bit 7 v = 0 then [ucast (v AND 0x7f)] else (ucast (v AND 0x7f) OR 0x80) # uleb (drop_bit 7 v))"
    by (subst uleb.simps) (simp add: Let_def)
  then show ?case
    using Suc.prems by (cases "drop_bit 7 v = 0") (simp_all add: IH overwrite_single Let_def)
qed

lemma EncodeULEB128_loop_ok:
  "beg + left \<le> length m \<Longrightarrow>
    EncodeULEB128_loop left v m beg = Some (beg + min left (length (uleb v)), overwrite m beg (take left (uleb v)))"
proof (induction left arbitrary: v m beg)
  case (Suc left)
  have IH: "EncodeULEB128_loop left (drop_bit 7 v) (m[beg := b]) (Suc beg) =
      Some (Suc beg + min left (length (uleb (drop_bit 7 v))), overwrite m beg (b # take left (uleb (drop_bit 7 v))))" for b
    using Suc.prems Suc.IH [of "Suc beg" "m[beg := b]" "drop_bit 7 v"] by (simp add: overwrite_Cons)
  have "uleb v = (if drop_bit 7 v = 0 then [ucast (v AND 0x7f)] else (ucast (v AND 0x7f) OR 0x80) # uleb (drop_bit 7 v))"
    by (subst uleb.simps) (simp add: Let_def)
  then show ?case
    using Suc.prems by (cases "drop_bit 7 v = 0") (simp_all add: IH overwrite_single Let_def)
qed simp

lemma EncodeSLEB128_loop_ok:
  "beg + left \<le> length m \<Longrightarrow>
    EncodeSLEB128_loop left v m beg = Some (beg + min left (length (sleb v)), overwrite m beg (take left (sleb v)))"
proof (induction left arbitrary: v m beg)
  case (Suc left)
  define b :: u8 and v' where "b = ucast (v AND 0x7f)" and "v' = signed_drop_bit 7 v"
  define last where "last \<longleftrightarrow> v' = 0 \<and> b AND 0x40 = 0 \<or> v' = - 1 \<and> b AND 0x40 \<noteq> 0"
  have IH: "EncodeSLEB128_loop left v' (m[beg := c]) (Suc beg) =
      Some (Suc beg + min left (length (sleb v')), overwrite m beg (c # take left (sleb v')))" for c
    using Suc.prems Suc.IH [of "Suc beg" "m[beg := c]" v'] by (simp add: overwrite_Cons)
  have s: "sleb v = (if last then [b] else (b OR 0x80) # sleb v')"
    by (subst sleb.simps) (simp only: Let_def b_def v'_def last_def)
  have "EncodeSLEB128_loop (Suc left) v m beg = do {
      m \<leftarrow> arr_set m beg (if \<not> last then b OR 0x80 else b);
      if \<not> last then EncodeSLEB128_loop left v' m (beg + 1) else Some (beg + 1, m) }"
    by (simp only: EncodeSLEB128_loop.simps Let_def b_def v'_def last_def)
  then show ?case
    using Suc.prems by (cases last) (simp_all add: s IH overwrite_single)
qed simp

lemma drop_bit_zero_take: "drop_bit n V = 0 \<Longrightarrow> take_bit n V = (V :: u64)"
  by (metis add_0 bits_ident push_bit_of_0)

lemma uleb_continues: "drop_bit 7 (drop_bit s V) \<noteq> (0 :: u64) \<Longrightarrow> s + 7 < 64"
proof (rule ccontr)
  assume "drop_bit 7 (drop_bit s V) \<noteq> 0" "\<not> s + 7 < 64"
  then show False
    using bit_word_eqI [of "drop_bit (s + 7) V" 0] by (simp add: bit_simps bit_imp_le_length add.commute)
qed

lemma varIntDecode_loop_ok:
  assumes "bytes_at m (In + i) (uleb (drop_bit s V))" and "length (uleb (drop_bit s V)) \<le> left"
  shows "varIntDecode_loop left m In i (take_bit s V) s = Some (i + length (uleb (drop_bit s V)), V)"
  using assms
proof (induction left arbitrary: i s)
  case 0
  then show ?case
    by (subst (asm) (2) uleb.simps) (simp add: Let_def split: if_splits)
next
  case (Suc left)
  define b :: u8 where "b = ucast (drop_bit s V AND 0x7f)"
  note b = low_byte [of "drop_bit s V", folded b_def]
  show ?case
  proof (cases "drop_bit 7 (drop_bit s V) = 0")
    case True
    then have u: "uleb (drop_bit s V) = [b]"
      by (subst uleb.simps) (simp add: b_def Let_def)
    have "take_bit (s + 7) V = V"
      using True by (intro drop_bit_zero_take) (simp add: add.commute)
    then have "take_bit s V OR push_bit s (ucast b AND 0x7f) = V"
      by (simp only: b(3) take_bit_next)
    then show ?thesis
      using Suc.prems b(1) by (simp add: u del: push_bit_and)
  next
    case False
    then have u: "uleb (drop_bit s V) = (b OR 0x80) # uleb (drop_bit (s + 7) V)"
      by (subst uleb.simps) (simp add: b_def Let_def add.commute)
    have "\<not> b OR 0x80 < 128"
      using b(2) by simp
    moreover have "take_bit s V OR push_bit s (ucast (b OR 0x80) AND 0x7f) = take_bit (s + 7) V"
      by (simp only: b(4) take_bit_next)
    ultimately show ?thesis
      using Suc.prems Suc.IH [of "Suc i" "s + 7"] uleb_continues [OF False]
      by (simp add: u Let_def del: push_bit_and unsigned_or_eq)
  qed
qed

lemma DecodeULEB128_loop_ok:
  assumes "bytes_at m beg (uleb (drop_bit s V))" and "length (uleb (drop_bit s V)) \<le> left" and "s < 64"
  shows "DecodeULEB128_loop left m beg (take_bit s V) s = Some (beg + length (uleb (drop_bit s V)), Some V)"
  using assms
proof (induction left arbitrary: beg s)
  case 0
  then show ?case
    by (subst (asm) (2) uleb.simps) (simp add: Let_def split: if_splits)
next
  case (Suc left)
  define b :: u8 where "b = ucast (drop_bit s V AND 0x7f)"
  note b = low_byte [of "drop_bit s V", folded b_def]
  have add: "take_bit s V + push_bit s w = take_bit s V OR push_bit s w" for w
    by (intro disjunctive_add_eq_or) (auto intro!: bit_word_eqI simp: bit_simps)
  show ?case
  proof (cases "drop_bit 7 (drop_bit s V) = 0")
    case True
    then have u: "uleb (drop_bit s V) = [b]"
      by (subst uleb.simps) (simp add: b_def Let_def)
    have "take_bit (s + 7) V = V"
      using True by (intro drop_bit_zero_take) (simp add: add.commute)
    then have "take_bit s V + push_bit s (ucast (b AND 0x7f)) = V"
      by (simp only: add b(5) take_bit_next)
    then show ?thesis
      using Suc.prems b(1) by (simp add: u linorder_not_le [THEN iffD2] del: push_bit_and unsigned_and_eq)
  next
    case False
    then have u: "uleb (drop_bit s V) = (b OR 0x80) # uleb (drop_bit (s + 7) V)"
      by (subst uleb.simps) (simp add: b_def Let_def add.commute)
    have "take_bit s V + push_bit s (ucast ((b OR 0x80) AND 0x7f)) = take_bit (s + 7) V"
      by (simp only: add b(6) take_bit_next)
    then show ?thesis
      using Suc.prems Suc.IH [of "Suc beg" "s + 7"] uleb_continues [OF False] b(2)
      by (simp add: u Let_def del: push_bit_and unsigned_or_eq unsigned_and_eq)
  qed
qed

lemma bit_signed_drop: "bit (signed_drop_bit n (V :: u64)) i \<longleftrightarrow> i < 64 \<and> bit V (min 63 (n + i))"
proof (cases "i < 64")
  case True
  then have "(if LENGTH(64) - n \<le> i \<and> i < LENGTH(64) then LENGTH(64) - 1 else n + i) = min 63 (n + i)"
    by auto
  then show ?thesis
    using True by (simp only: bit_signed_drop_bit_iff simp_thms)
next
  case False
  then show ?thesis
    by (auto dest: bit_imp_le_length)
qed

lemma signed_drop_bit_add: "signed_drop_bit n (signed_drop_bit s V) = signed_drop_bit (s + n) (V :: u64)"
proof (rule bit_word_eqI)
  fix i assume "i < LENGTH(64)"
  moreover have "min 63 (s + min 63 (n + i)) = min 63 (s + n + i)" "min 63 (n + i) < 64"
    by auto
  ultimately show "bit (signed_drop_bit n (signed_drop_bit s V)) i = bit (signed_drop_bit (s + n) V) i"
    by (simp only: bit_signed_drop) simp
qed

lemma sleb_last:
  fixes V :: u64
  assumes "s < 64"
  shows "signed_drop_bit (s + 7) V = 0 \<Longrightarrow> take_bit (s + 7) V = V"
    and "signed_drop_bit (s + 7) V = - 1 \<Longrightarrow> s + 7 < 64 \<Longrightarrow> take_bit (s + 7) V OR push_bit (s + 7) (- 1) = V"
    and "64 \<le> s + 7 \<Longrightarrow> take_bit (s + 7) V = V"
    and "64 \<le> s + 7 \<Longrightarrow> signed_drop_bit (s + 7) V = (if bit (signed_drop_bit s V) 6 then - 1 else 0)"
proof -
  have e: "bit V i \<longleftrightarrow> bit (signed_drop_bit (s + 7) V) (i - (s + 7))" if "s + 7 \<le> i" "i < 64" for i
  proof -
    have "min 63 (s + 7 + (i - (s + 7))) = i" "i - (s + 7) < 64"
      using that by simp_all
    then show ?thesis
      using that by (simp only: bit_signed_drop) simp
  qed
  show "take_bit (s + 7) V = V" if "signed_drop_bit (s + 7) V = 0"
  proof (rule bit_word_eqI)
    fix i assume "i < LENGTH(64)"
    then show "bit (take_bit (s + 7) V) i = bit V i"
      using e [of i] that by (cases "s + 7 \<le> i") (simp_all add: bit_take_bit_iff)
  qed
  show "take_bit (s + 7) V OR push_bit (s + 7) (- 1) = V" if "signed_drop_bit (s + 7) V = - 1" "s + 7 < 64"
  proof (rule bit_word_eqI)
    fix i assume "i < LENGTH(64)"
    then show "bit (take_bit (s + 7) V OR push_bit (s + 7) (- 1)) i = bit V i"
      using e [of i] that by (cases "s + 7 \<le> i") (auto simp: bit_take_bit_iff bit_or_iff bit_push_bit_iff bit_not_iff bit_mask_iff)
  qed
  show "take_bit (s + 7) V = V" if "64 \<le> s + 7"
    using that by (intro bit_word_eqI) (simp add: bit_take_bit_iff)
  show "signed_drop_bit (s + 7) V = (if bit (signed_drop_bit s V) 6 then - 1 else 0)" if "64 \<le> s + 7"
  proof (rule bit_word_eqI)
    fix i assume "i < LENGTH(64)"
    moreover have "min 63 (s + 7 + i) = 63" "min 63 (s + 6) = 63"
      using that by simp_all
    ultimately show "bit (signed_drop_bit (s + 7) V) i = bit (if bit (signed_drop_bit s V) 6 then - 1 else 0 :: u64) i"
      by (simp only: bit_signed_drop) (simp add: bit_minus_1_iff)
  qed
qed

lemma DecodeSLEB128_loop_ok:
  assumes "bytes_at m beg (sleb (signed_drop_bit s V))" and "length (sleb (signed_drop_bit s V)) \<le> left" and "s < 64"
  shows "DecodeSLEB128_loop left m beg (take_bit s V) s = Some (beg + length (sleb (signed_drop_bit s V)), Some V)"
  using assms
proof (induction left arbitrary: beg s)
  case 0
  then show ?case
    by (subst (asm) (2) sleb.simps) (simp add: Let_def split: if_splits)
next
  case (Suc left)
  define b :: u8 and v' where "b = ucast (signed_drop_bit s V AND 0x7f)" and "v' = signed_drop_bit (s + 7) V"
  note b = low_byte [of "signed_drop_bit s V", folded b_def]
  define last where "last \<longleftrightarrow> v' = 0 \<and> b AND 0x40 = 0 \<or> v' = - 1 \<and> b AND 0x40 \<noteq> 0"
  have u: "sleb (signed_drop_bit s V) = (if last then [b] else (b OR 0x80) # sleb v')"
    by (subst sleb.simps) (simp only: Let_def b_def v'_def last_def signed_drop_bit_add)
  have n: "take_bit s V OR push_bit s (ucast (b AND 0x7f)) = take_bit (s + 7) V"
    "take_bit s V OR push_bit s (ucast ((b OR 0x80) AND 0x7f)) = take_bit (s + 7) V"
    by (simp_all only: b(5,6) take_bit_next)
  show ?case
  proof (cases last)
    case True
    have v: "(if s + 7 < 64 \<and> b AND 0x40 \<noteq> 0 then Some (beg + 1, Some (take_bit (s + 7) V OR push_bit (s + 7) (- 1)))
        else Some (beg + 1, Some (take_bit (s + 7) V))) = Some (beg + 1, Some V)"
      using True sleb_last [OF Suc.prems(3), of V] unfolding last_def v'_def by (cases "s + 7 < 64") auto
    have "arr_get m beg = Some b" "\<not> 128 \<le> b"
      using Suc.prems(1) b(1) True by (simp_all add: u linorder_not_le)
    then have "DecodeSLEB128_loop (Suc left) m beg (take_bit s V) s = Some (beg + 1, Some V)"
      using Suc.prems(3) by (simp only: DecodeSLEB128_loop.simps Let_def n v Option.bind.bind_lunit check_bind if_True if_False)
    then show ?thesis
      using True by (simp add: u)
  next
    case False
    have s: "s + 7 < 64"
      using False sleb_last(4) [OF Suc.prems(3), of V] b(7) unfolding last_def v'_def by (cases "s + 7 < 64") (auto split: if_splits)
    show ?thesis
      using Suc.prems Suc.IH [of "Suc beg" "s + 7"] b(2) False n(2) s
      by (simp add: u v'_def Let_def del: push_bit_and unsigned_or_eq unsigned_and_eq)
  qed
qed

lemma zigzag_inverse: "zigzagDecode (zigzagEncode v) = v"
proof -
  have s: "sint v \<ge> 0 \<longleftrightarrow> \<not> bit v 63"
    using sign_bit_iff [of v] by (simp add: linorder_not_less)
  define w where "w = push_bit 1 v"
  have w: "bit w i \<longleftrightarrow> 1 \<le> i \<and> i < 64 \<and> bit v (i - 1)" for i
    unfolding w_def bit_push_bit_iff by (auto dest: bit_imp_le_length)
  have "w AND 1 = 0" "NOT w AND 1 = 1"
    by (auto intro!: bit_word_eqI simp: bit_and_iff bit_not_iff bit_1_iff w)
  moreover have "drop_bit 1 w = v" if "\<not> bit v 63"
  proof (rule bit_word_eqI)
    fix i assume "i < LENGTH(64)"
    then show "bit (drop_bit 1 w) i = bit v i"
      using that by (cases "i = 63") (simp_all add: bit_drop_bit_eq w)
  qed
  moreover have "NOT (drop_bit 1 (NOT w)) = v" if "bit v 63"
  proof (rule bit_word_eqI)
    fix i assume "i < LENGTH(64)"
    then show "bit (NOT (drop_bit 1 (NOT w))) i = bit v i"
      using that by (cases "i = 63") (simp_all add: bit_drop_bit_eq bit_not_iff w)
  qed
  ultimately show ?thesis
    unfolding zigzagEncode_def zigzagDecode_def Let_def s w_def [symmetric] by auto
qed

lemma length_uleb: "unat v < 2 ^ (7 * Suc k) \<Longrightarrow> length (uleb v) \<le> Suc k"
proof (induction k arbitrary: v)
  case 0
  then have "drop_bit 7 v = 0"
    by (simp add: word_unat_eq_iff unat_drop_bit_div)
  then show ?case
    by (subst uleb.simps) (simp add: Let_def)
next
  case (Suc k)
  have "7 * Suc (Suc k) = 7 * Suc k + 7"
    by simp
  then have "(2 :: nat) ^ (7 * Suc (Suc k)) = 2 ^ (7 * Suc k) * 2 ^ 7"
    by (simp only: power_add)
  then have "unat (drop_bit 7 v) < 2 ^ (7 * Suc k)"
    using Suc.prems unfolding unat_drop_bit_div by (simp only: div_less_iff_less_mult zero_less_numeral zero_less_power)
  then show ?case
    using Suc.IH [of "drop_bit 7 v"] by (subst uleb.simps) (simp add: Let_def)
qed

lemma length_uleb_10: "length (uleb v) \<le> 10"
  using unsigned_less [of v, where ?'a = nat] length_uleb [of v 9] by simp

lemma sint_signed_drop_7: "sint (signed_drop_bit 7 v) = sint (v :: u64) div 128"
  by (simp add: sint_signed_drop_bit_eq drop_bit_eq_div)

lemma length_sleb: "- (2 ^ (7 * k + 6)) \<le> sint v \<Longrightarrow> sint v < 2 ^ (7 * k + 6) \<Longrightarrow> length (sleb v) \<le> Suc k"
proof (induction k arbitrary: v)
  case 0
  then have v: "- 64 \<le> sint v" "sint v < 64"
    by simp_all
  have "bit v 6 \<longleftrightarrow> bit (sint v) 6"
    by (simp add: bit_sint_iff)
  moreover have "bit (sint v) 6 \<longleftrightarrow> odd (sint v div 64)"
    by (simp add: bit_iff_odd)
  moreover have "sint v div 64 = (if sint v < 0 then - 1 else 0)" "sint v div 128 = (if sint v < 0 then - 1 else 0)"
    using v by auto
  ultimately have "bit v 6 \<longleftrightarrow> sint v < 0" "sint (signed_drop_bit 7 v) = (if sint v < 0 then - 1 else 0)"
    by (simp_all only: sint_signed_drop_7) auto
  moreover have "signed_drop_bit 7 v = (if sint v < 0 then - 1 else 0)"
    using calculation(2) by (metis signed_0 signed_minus_1 signed_word_eqI)
  ultimately show ?case
    by (subst sleb.simps) (simp add: Let_def low_byte(7))
next
  case (Suc k)
  have "7 * Suc k + 6 = (7 * k + 6) + 7"
    by simp
  then have "(2 :: int) ^ (7 * Suc k + 6) = 2 ^ (7 * k + 6) * 128"
    by (simp only: power_add) simp
  then have "- (2 ^ (7 * k + 6)) \<le> sint v div 128" "sint v div 128 < 2 ^ (7 * k + 6)"
    using Suc.prems by linarith+
  then show ?case
    using Suc.IH [of "signed_drop_bit 7 v"] unfolding sint_signed_drop_7 by (subst sleb.simps) (simp add: Let_def)
qed

lemma length_sleb_10: "length (sleb v) \<le> 10"
proof -
  have "- (2 ^ 63) \<le> sint v" "sint v < 2 ^ 63"
    using sint_ge [of v] sint_lt [of v] by simp_all
  then show ?thesis
    using length_sleb [of 9 v] by simp
qed

lemma uleb_nonempty: "0 < length (uleb v)"
  by (subst uleb.simps) (simp add: Let_def)

lemma sleb_nonempty: "0 < length (sleb v)"
  by (subst sleb.simps) (simp add: Let_def)

section \<open>Round trips\<close>

text \<open>The bytes of a stack trace after the frame \<open>p\<close>.\<close>

fun trace_bytes :: "u64 \<Rightarrow> u64 list \<Rightarrow> u8 list" where
  "trace_bytes p [] = []"
| "trace_bytes p (x # xs) = uleb (zigzagEncode (x - p)) @ trace_bytes x xs"

lemma length_trace_bytes: "length (trace_bytes p xs) \<le> 10 * length xs"
proof (induction p xs rule: trace_bytes.induct)
  case (2 p x xs)
  then show ?case
    using length_uleb_10 [of "zigzagEncode (x - p)"] by simp
qed simp

lemma length_trace_bytes_take: "length (trace_bytes p (take k xs)) \<le> length (trace_bytes p xs)"
  by (induction p xs arbitrary: k rule: trace_bytes.induct) (auto simp: take_Cons split: nat.splits)

text \<open>The frame before the one at \<open>d\<close>; the first one is coded as a difference to 0.\<close>

definition frame_before :: "u64 list \<Rightarrow> nat \<Rightarrow> u64" where
  "frame_before xs d = (if d = 0 then 0 else xs ! (d - 1))"

lemma pack_loop_ok:
  assumes "left = length xs - d" and "d \<le> length xs" and "P + Cap \<le> length m" and "Index \<le> Cap"
  shows "\<exists>k m'. pack_loop left xs d m P Cap Index =
      Some (Index + length (trace_bytes (frame_before xs d) (take k (drop d xs))), m') \<and> k \<le> left \<and> length m' = length m \<and>
    Index + length (trace_bytes (frame_before xs d) (take k (drop d xs))) \<le> Cap \<and>
    (Index + length (trace_bytes (frame_before xs d) (drop d xs)) \<le> Cap \<longrightarrow> k = left) \<and>
    (\<forall>bs p. p + length bs \<le> P + Index \<longrightarrow> bytes_at m p bs \<longrightarrow> bytes_at m' p bs) \<and>
    bytes_at m' (P + Index) (trace_bytes (frame_before xs d) (take k (drop d xs)))"
  using assms
proof (induction left arbitrary: d m Index)
  case 0
  then show ?case by simp
next
  case (Suc left)
  define z where "z = zigzagEncode (xs ! d - frame_before xs d)"
  define n m1 where "n = length (uleb z)" and "m1 = overwrite m (P + Index) (take (Cap - Index) (uleb z))"
  have d: "d < length xs" "drop d xs = xs ! d # drop (Suc d) xs" "frame_before xs (Suc d) = xs ! d"
    using Suc.prems by (auto simp: Cons_nth_drop_Suc frame_before_def)
  have e: "varIntEncode z m (P + Index) (Cap - Index) = Some (if n \<le> Cap - Index then n else 0, m1)"
    unfolding varIntEncode_def using Suc.prems by (subst varIntEncode_loop_ok) (simp_all add: n_def m1_def)
  have Diff: "(if d > 0 then do { p \<leftarrow> arr_get xs (d - 1); Some (xs ! d - p) } else Some (xs ! d)) = Some (xs ! d - frame_before xs d)"
    using d(1) by (simp add: frame_before_def)
  have step: "pack_loop (Suc left) xs d m P Cap Index =
      (if n \<le> Cap - Index then pack_loop left xs (Suc d) m1 P Cap (Index + n) else Some (Index, m1))"
    using d(1) uleb_nonempty [of z] by (simp add: Diff e n_def flip: z_def)
  have fits: "P + Index + length (take (Cap - Index) (uleb z)) \<le> length m"
    using Suc.prems(3,4) by simp
  have l: "length m1 = length m"
    unfolding m1_def by (rule length_overwrite [OF fits])
  have f: "bytes_at m1 p bs" if "bytes_at m p bs" "p + length bs \<le> P + Index" for p bs
    unfolding m1_def using that bytes_at_frame [OF fits that(2)] by simp
  show ?case
  proof (cases "n \<le> Cap - Index")
    case False
    have "\<not> Index + length (trace_bytes (frame_before xs d) (drop d xs)) \<le> Cap"
      using False Suc.prems(4) by (simp add: d(2) n_def z_def)
    then show ?thesis
      using False step l f Suc.prems(4) by (intro exI [of _ 0] exI [of _ m1]) simp
  next
    case True
    have "left = length xs - Suc d" "Suc d \<le> length xs" "P + Cap \<le> length m1" "Index + n \<le> Cap"
      using Suc.prems True d(1) l by simp_all
    from Suc.IH [OF this] obtain k m' where k: "pack_loop left xs (Suc d) m1 P Cap (Index + n) =
          Some (Index + n + length (trace_bytes (xs ! d) (take k (drop (Suc d) xs))), m')" "k \<le> left" "length m' = length m1"
        "Index + n + length (trace_bytes (xs ! d) (take k (drop (Suc d) xs))) \<le> Cap"
        "Index + n + length (trace_bytes (xs ! d) (drop (Suc d) xs)) \<le> Cap \<longrightarrow> k = left"
        "\<forall>bs p. p + length bs \<le> P + (Index + n) \<longrightarrow> bytes_at m1 p bs \<longrightarrow> bytes_at m' p bs"
        "bytes_at m' (P + (Index + n)) (trace_bytes (xs ! d) (take k (drop (Suc d) xs)))"
      unfolding d(3) by blast
    have t: "trace_bytes (frame_before xs d) (take (Suc k) (drop d xs)) = uleb z @ trace_bytes (xs ! d) (take k (drop (Suc d) xs))"
      "trace_bytes (frame_before xs d) (drop d xs) = uleb z @ trace_bytes (xs ! d) (drop (Suc d) xs)"
      by (simp_all add: d(2) z_def)
    have "bytes_at m1 (P + Index) (uleb z)"
      using bytes_at_overwrite [OF fits] True by (simp add: m1_def n_def)
    then have "bytes_at m' (P + Index) (uleb z)"
      using k(6) by (simp add: n_def)
    then have "bytes_at m' (P + Index) (uleb z @ trace_bytes (xs ! d) (take k (drop (Suc d) xs)))"
      using k(7) by (simp add: bytes_at_append n_def add.assoc)
    moreover have "bytes_at m' p bs" if "p + length bs \<le> P + Index" "bytes_at m p bs" for p bs
      using k(6) f [OF that(2,1)] that(1) by simp
    ultimately show ?thesis
      using k(1-5) step True l unfolding t by (intro exI [of _ "Suc k"] exI [of _ m']) (simp add: n_def t)
  qed
qed

lemma unpack_loop_ok:
  assumes "bytes_at m (P + Index) (trace_bytes (frame_before U d) ys)" and "Size = Index + length (trace_bytes (frame_before U d) ys)"
    and "d + left = length U"
  shows "\<exists>Index'. unpack_loop left m P Size U d Index =
    Some (d + min left (length ys), Index', take d U @ take left ys @ drop (d + length ys) U) \<and> (length ys < left \<longrightarrow> Index' = Size)"
  using assms
proof (induction left arbitrary: U d Index ys)
  case 0
  then show ?case by simp
next
  case (Suc left)
  show ?case
  proof (cases ys)
    case Nil
    then show ?thesis
      using Suc.prems by (simp add: varIntDecode_def)
  next
    case (Cons y zs)
    define v where "v = zigzagEncode (y - frame_before U d)"
    have b: "bytes_at m (P + Index) (uleb v)" "bytes_at m (P + (Index + length (uleb v))) (trace_bytes y zs)"
      "Size = Index + length (uleb v) + length (trace_bytes y zs)"
      using Suc.prems(1,2) by (simp_all add: Cons v_def bytes_at_append add.assoc)
    have dec: "varIntDecode m (P + Index) (Size - Index) = Some (length (uleb v), v)"
      using varIntDecode_loop_ok [of m "P + Index" 0 0 v "Size - Index"] b by (simp add: varIntDecode_def)
    define U' where "U' = U[d := y]"
    have d: "d < length U"
      using Suc.prems(3) by simp
    have st: "unpack_loop (Suc left) m P Size U d Index = unpack_loop left m P Size U' (Suc d) (Index + length (uleb v))"
      using d uleb_nonempty [of v] by (simp add: dec zigzag_inverse U'_def v_def frame_before_def Let_def)
    have "frame_before U' (Suc d) = y" "Suc d + left = length U'"
      using d Suc.prems(3) by (simp_all add: frame_before_def U'_def)
    then obtain I where "unpack_loop left m P Size U' (Suc d) (Index + length (uleb v)) =
        Some (Suc d + min left (length zs), I, take (Suc d) U' @ take left zs @ drop (Suc d + length zs) U')"
      "length zs < left \<longrightarrow> I = Size"
      using Suc.IH [of "Index + length (uleb v)" U' "Suc d" zs] b(2,3) by auto
    moreover have "take (Suc d) U' = take d U @ [y]" "drop (Suc d + length zs) U' = drop (d + length ys) U"
      using d by (simp_all add: U'_def take_Suc_conv_app_nth Cons)
    ultimately show ?thesis
      using st by (simp add: Cons)
  qed
qed

text \<open>The bytes of frames after the frame \<open>p\<close> in the stack store.\<close>

fun delta_bytes :: "u64 \<Rightarrow> u64 list \<Rightarrow> u8 list" where
  "delta_bytes p [] = []"
| "delta_bytes p (x # xs) = sleb (x - p) @ delta_bytes x xs"

lemma length_delta_bytes: "length (delta_bytes p xs) \<le> 10 * length xs"
proof (induction p xs rule: delta_bytes.induct)
  case (2 p x xs)
  then show ?case
    using length_sleb_10 [of "x - p"] by simp
qed simp

lemma overwrite_overwrite:
  assumes "d + length bs + length cs \<le> length m"
  shows "overwrite (overwrite m d bs) (d + length bs) cs = overwrite m d (bs @ cs)"
  using assms by (intro overwrite_eqI) (auto simp: length_overwrite nth_overwrite nth_append)

lemma compress_loop_ok:
  assumes "to \<le> to_end" and "to_end \<le> length m"
  shows "foldM (\<lambda>v (e, m). encoder_assign e v m) xs (\<lparr>enc_begin = to, enc_end = to_end, enc_previous = p\<rparr>, m) =
    Some (\<lparr>enc_begin = to + min (to_end - to) (length (delta_bytes p xs)), enc_end = to_end, enc_previous = last (p # xs)\<rparr>,
      overwrite m to (take (to_end - to) (delta_bytes p xs)))"
  using assms
proof (induction p xs arbitrary: to m rule: delta_bytes.induct)
  case (2 p x xs)
  let ?b = "sleb (x - p)"
  define k where "k = min (to_end - to) (length ?b)"
  define m1 where "m1 = overwrite m to (take (to_end - to) ?b)"
  have l: "length (take (to_end - to) ?b) = k" "to + k \<le> to_end"
    using 2(2) by (simp_all add: k_def)
  have "EncodeSLEB128 (x - p) m to to_end = Some (to + k, m1)"
    unfolding EncodeSLEB128_def using 2(2,3) by (subst EncodeSLEB128_loop_ok) (simp_all add: k_def m1_def)
  moreover have "length m1 = length m"
    unfolding m1_def using l 2(3) by (intro length_overwrite) simp
  moreover have "overwrite m1 (to + k) (take (to_end - (to + k)) (delta_bytes x xs)) = overwrite m to (take (to_end - to) (?b @ delta_bytes x xs))"
  proof -
    have "take (to_end - (to + k)) (delta_bytes x xs) = take (to_end - to - length ?b) (delta_bytes x xs)"
      by (simp add: k_def min_def)
    moreover have "to + length (take (to_end - to) ?b) + length (take (to_end - (to + k)) (delta_bytes x xs)) \<le> length m"
      using l 2(3) by simp
    ultimately show ?thesis
      unfolding m1_def take_append using overwrite_overwrite [of to "take (to_end - to) ?b" _ m] l(1) by simp
  qed
  moreover have "to + k + min (to_end - (to + k)) (length (delta_bytes x xs)) = to + min (to_end - to) (length (?b @ delta_bytes x xs))"
    unfolding k_def length_append using 2(2) by linarith
  ultimately show ?case
    using 2(1) [of "to + k" m1] 2(3) l by (simp add: encoder_assign_def)
qed simp

lemma uncompress_loop_ok:
  assumes "bytes_at m p (delta_bytes q xs)" and "e = p + length (delta_bytes q xs)" and "to + length xs \<le> length F"
  shows "UncompressDelta_loop \<lparr>dec_begin = p, dec_end = e, dec_previous = q\<rparr> m F to =
    Some (take to F @ xs @ drop (to + length xs) F, to + length xs)"
  using assms
proof (induction q xs arbitrary: p to F rule: delta_bytes.induct)
  case (1 q)
  then show ?case
    by (simp add: UncompressDelta_loop.simps)
next
  case (2 q x xs)
  let ?n = "length (sleb (x - q))"
  have b: "bytes_at m p (sleb (x - q))" "bytes_at m (p + ?n) (delta_bytes x xs)" "p < e"
    using 2(2,3) sleb_nonempty [of "x - q"] by (auto simp: bytes_at_append)
  have "DecodeSLEB128 m p e = Some (p + ?n, Some (x - q))"
    unfolding DecodeSLEB128_def using DecodeSLEB128_loop_ok [of m p 0 "x - q" "e - p"] b(1) 2(3) by simp
  then have d: "decoder_deref \<lparr>dec_begin = p, dec_end = e, dec_previous = q\<rparr> m = Some (x, \<lparr>dec_begin = p + ?n, dec_end = e, dec_previous = x\<rparr>)"
    by (simp add: decoder_deref_def)
  have t: "take (Suc to) (F[to := x]) = take to F @ [x]"
    using 2(4) by (simp add: take_Suc_conv_app_nth)
  show ?case
    using b(2,3) d 2(1) [of "p + ?n" "Suc to" "F[to := x]"] 2(3,4)
    by (subst UncompressDelta_loop.simps) (simp add: t)
qed

section \<open>The compressors are lossless\<close>

text \<open>C38: \<^verbatim>\<open>unpack\<close> inverts \<^verbatim>\<open>pack\<close>.  Packing a trace into a buffer of \<open>cap\<close> bytes keeps a prefix of
  the frames, all of them when the buffer has ten bytes for each, never writes past the buffer, and
  unpacking the result into an array gives back those frames that fit, leaving the rest of the array alone.
\<close>

theorem pack_unpack_roundtrip:
  assumes "P + cap \<le> length m"
  shows "\<exists>k n m'. pack xs (length xs) m P cap = Some (n, m') \<and> n \<le> cap \<and> length m' = length m \<and> k \<le> length xs \<and>
    (10 * length xs \<le> cap \<longrightarrow> k = length xs) \<and>
    (\<forall>p < P. m' ! p = m ! p) \<and>
    (\<forall>U. unpack m' P n U (length U) = Some (min k (length U), take (length U) (take k xs) @ drop k U))"
proof -
  obtain k m' where k: "pack xs (length xs) m P cap = Some (length (trace_bytes 0 (take k xs)), m')" "k \<le> length xs" "length m' = length m"
      "length (trace_bytes 0 (take k xs)) \<le> cap" "length (trace_bytes 0 xs) \<le> cap \<longrightarrow> k = length xs"
      "\<forall>bs p. p + length bs \<le> P \<longrightarrow> bytes_at m p bs \<longrightarrow> bytes_at m' p bs" "bytes_at m' P (trace_bytes 0 (take k xs))"
    using pack_loop_ok [OF refl _ assms, of 0 xs 0] by (auto simp: pack_def frame_before_def)
  define ys where "ys = take k xs"
  have "unpack m' P (length (trace_bytes 0 ys)) U (length U) = Some (min k (length U), take (length U) ys @ drop k U)" for U
  proof -
    have l: "length ys = k"
      using k(2) by (simp add: ys_def)
    obtain I where "unpack_loop (length U) m' P (length (trace_bytes 0 ys)) U 0 0 =
        Some (min (length U) k, I, take (length U) ys @ drop k U)" "k < length U \<longrightarrow> I = length (trace_bytes 0 ys)"
      using unpack_loop_ok [of m' P 0 U 0 ys "length (trace_bytes 0 ys)" "length U"] k(7)
      by (auto simp: frame_before_def l simp flip: ys_def)
    then show ?thesis
      by (cases "k < length U") (simp_all add: unpack_def)
  qed
  moreover have "10 * length xs \<le> cap \<longrightarrow> k = length xs"
    using k(5) length_trace_bytes [of 0 xs] by linarith
  moreover have "m' ! p = m ! p" if "p < P" for p
    using k(6) [rule_format, of p "[m ! p]"] that assms by (simp add: arr_get_eq_Some)
  ultimately show ?thesis
    using k(1-4) unfolding ys_def by blast
qed

theorem pack_unpack_roundtrip_witness:
  "2 + 20 \<le> length (replicate 24 (0 :: u8)) \<and>
   (\<exists>n m'. pack [0x401000, 0x400800] 2 (replicate 24 0) 2 20 = Some (n, m') \<and> n \<le> 20 \<and>
     unpack m' 2 n [0, 0, 7] 3 = Some (2, [0x401000, 0x400800, 7]))"
proof -
  have "2 + 20 \<le> length (replicate 24 (0 :: u8))"
    by simp
  from pack_unpack_roundtrip [OF this, of "[0x401000, 0x400800]"] obtain k n m' where
    k: "pack [0x401000, 0x400800] (length [0x401000, 0x400800 :: u64]) (replicate 24 0) 2 20 = Some (n, m')" "n \<le> 20"
      "10 * length [0x401000, 0x400800 :: u64] \<le> 20 \<longrightarrow> k = length [0x401000, 0x400800 :: u64]"
      "\<forall>U. unpack m' 2 n U (length U) = Some (min k (length U), take (length U) (take k [0x401000, 0x400800]) @ drop k U)"
    by (elim exE conjE) (rule that)
  have "pack [0x401000, 0x400800] 2 (replicate 24 0) 2 20 = Some (n, m')"
    using k(1) by (simp add: numeral_2_eq_2)
  moreover have "unpack m' 2 n [0, 0, 7] 3 = Some (2, [0x401000, 0x400800, 7])"
    using k(4) [rule_format, of "[0, 0, 7]"] k(3) by (simp add: numeral_3_eq_3)
  ultimately show ?thesis
    using k(2) by simp
qed

text \<open>The LEB128 decoders read back what the encoders store, if the buffer has room for it.\<close>

lemma ULEB128_roundtrip:
  assumes "beg \<le> fin" and "fin \<le> length m"
  shows "\<exists>e m'. EncodeULEB128 v m beg fin = Some (e, m') \<and> e \<le> fin \<and>
    (e < fin \<or> beg + 10 \<le> fin \<longrightarrow> DecodeULEB128 m' beg e = Some (e, Some v))"
proof -
  let ?e = "beg + min (fin - beg) (length (uleb v))" and ?m = "overwrite m beg (take (fin - beg) (uleb v))"
  have "EncodeULEB128 v m beg fin = Some (?e, ?m)"
    unfolding EncodeULEB128_def using assms by (subst EncodeULEB128_loop_ok) simp_all
  moreover have "DecodeULEB128 ?m beg ?e = Some (?e, Some v)" if "?e < fin \<or> beg + 10 \<le> fin"
  proof -
    have "length (uleb v) \<le> fin - beg"
      using that length_uleb_10 [of v] by auto
    then show ?thesis
      using DecodeULEB128_loop_ok [of ?m beg 0 v "length (uleb v)"] bytes_at_overwrite [of beg "uleb v" m] assms
      by (simp add: DecodeULEB128_def)
  qed
  ultimately show ?thesis
    using assms(1) by (intro exI [of _ ?e] exI [of _ ?m]) auto
qed

lemma SLEB128_roundtrip:
  assumes "beg \<le> fin" and "fin \<le> length m"
  shows "\<exists>e m'. EncodeSLEB128 v m beg fin = Some (e, m') \<and> e \<le> fin \<and>
    (e < fin \<or> beg + 10 \<le> fin \<longrightarrow> DecodeSLEB128 m' beg e = Some (e, Some v))"
proof -
  let ?e = "beg + min (fin - beg) (length (sleb v))" and ?m = "overwrite m beg (take (fin - beg) (sleb v))"
  have "EncodeSLEB128 v m beg fin = Some (?e, ?m)"
    unfolding EncodeSLEB128_def using assms by (subst EncodeSLEB128_loop_ok) simp_all
  moreover have "DecodeSLEB128 ?m beg ?e = Some (?e, Some v)" if "?e < fin \<or> beg + 10 \<le> fin"
  proof -
    have "length (sleb v) \<le> fin - beg"
      using that length_sleb_10 [of v] by auto
    then show ?thesis
      using DecodeSLEB128_loop_ok [of ?m beg 0 v "length (sleb v)"] bytes_at_overwrite [of beg "sleb v" m] assms
      by (simp add: DecodeSLEB128_def)
  qed
  ultimately show ?thesis
    using assms(1) by (intro exI [of _ ?e] exI [of _ ?m]) auto
qed

text \<open>
  A buffer that the delta coder does not fill up holds all the frames; one that it fills up may hold a
  truncated encoding, which the caller cannot tell from a complete one.
\<close>

lemma CompressDelta_ok:
  assumes "to \<le> to_end" and "to_end \<le> length m"
  shows "\<exists>e m'. CompressDelta frames m to to_end = Some (e, m') \<and> e = to + min (to_end - to) (length (delta_bytes 0 frames)) \<and>
    length m' = length m \<and> (e < to_end \<longrightarrow> bytes_at m' to (delta_bytes 0 frames))"
proof -
  let ?b = "take (to_end - to) (delta_bytes 0 frames)"
  have f: "to + length ?b \<le> length m"
    using assms by simp
  have "bytes_at (overwrite m to ?b) to (delta_bytes 0 frames)" if "to + min (to_end - to) (length (delta_bytes 0 frames)) < to_end"
    using bytes_at_overwrite [OF f] that by simp
  then show ?thesis
    using compress_loop_ok [OF assms, of frames 0] length_overwrite [OF f] by (simp add: CompressDelta_def)
qed

lemma UncompressDelta_ok:
  assumes "bytes_at m p (delta_bytes 0 xs)" and "to + length xs \<le> length F"
  shows "UncompressDelta m p (p + length (delta_bytes 0 xs)) F to (to + length xs) =
    Some (take to F @ xs @ drop (to + length xs) F, to + length xs)"
  using uncompress_loop_ok [OF assms(1) refl assms(2)] by (simp add: UncompressDelta_def)

lemma length_delta_bytes_ge: "length xs \<le> length (delta_bytes p xs)"
proof (induction p xs rule: delta_bytes.induct)
  case (2 p x xs)
  then show ?case
    using sleb_nonempty [of "x - p"] by (simp del: length_greater_0_conv)
qed simp

lemma bytes_at_take: "bytes_at (take k m) p bs \<longleftrightarrow> bytes_at m p bs \<and> (bs = [] \<or> p + length bs \<le> k)"
proof (cases "bs = []")
  case False
  then show ?thesis
    by (auto simp: bytes_at_iff neq_Nil_conv)
qed simp

end
