(* ===== verification/Stack_Store.thy ===== *)
theory Stack_Store
  imports Var_Int
begin

text \<open>
  The blocks of the stack store, \<^verbatim>\<open>StackStore::BlockInfo\<close> of \<^verbatim>\<open>sanitizer_stack_store.cpp\<close>.
  A block is a state machine \<open>Storing\<close>, \<open>Packed\<close>, \<open>Unpacked\<close> with the memory it owns: nothing, an array
  of \<^verbatim>\<open>kBlockSizeFrames\<close> frames, or a packed image.  Of a packed image the fields \<^verbatim>\<open>size\<close> and
  \<^verbatim>\<open>type\<close> of \<^verbatim>\<open>PackedHeader\<close> are kept apart from its bytes, of which the first
  \<^verbatim>\<open>offsetof(PackedHeader, data)\<close> are the header.  \<^verbatim>\<open>Map\<close> gives zeroed memory; both it and
  \<^verbatim>\<open>Unmap\<close> account in \<^verbatim>\<open>allocated_\<close>, the second component of the state; the part of a mapping
  that is unmapped is cut off.  The operations run under the mutex of the block, so they are
  sequential.  The page size is a parameter.  The LZW coder is a parameter too: a block is only
  shown lossless for \<open>Delta\<close>.
\<close>

definition kBlockSizeFrames :: nat where
  "kBlockSizeFrames = 0x100000"

definition kBlockSizeBytes :: nat where
  "kBlockSizeBytes = kBlockSizeFrames * 8"

datatype compression = CompressionNone | Delta | LZW

datatype block_state = Storing | Packed | Unpacked

datatype block_data = NullBlock | FrameBlock "u64 list" | PackedBlock u64 compression memory

record block_info =
  bi_data :: block_data
  bi_stored :: u32
  bi_state :: block_state

text \<open>The coders of \<^verbatim>\<open>CompressLzw\<close> and \<^verbatim>\<open>UncompressLzw\<close>.\<close>

type_synonym compressor = "u64 list \<Rightarrow> memory \<Rightarrow> nat \<Rightarrow> nat \<Rightarrow> (nat \<times> memory) option"
type_synonym uncompressor = "memory \<Rightarrow> nat \<Rightarrow> nat \<Rightarrow> u64 list \<Rightarrow> nat \<Rightarrow> nat \<Rightarrow> (u64 list \<times> nat) option"

definition store_Map :: "nat \<Rightarrow> u64 \<Rightarrow> u64" where
  "store_Map sz allocated = allocated + word_of_nat sz"

definition store_Unmap :: "u64 \<Rightarrow> u64 \<Rightarrow> u64" where
  "store_Unmap sz allocated = allocated - sz"

text \<open>Adds to \<^verbatim>\<open>stored_\<close> and tells whether the block is full.\<close>

definition bi_Stored :: "block_info \<Rightarrow> u64 \<Rightarrow> bool \<times> block_info" where
  "bi_Stored b n = (n + ucast (bi_stored b) = word_of_nat kBlockSizeFrames, b\<lparr>bi_stored := bi_stored b + ucast n\<rparr>)"

definition bi_GetOrCreate :: "block_info \<Rightarrow> u64 \<Rightarrow> block_data \<times> block_info \<times> u64" where
  "bi_GetOrCreate b allocated =
     (if bi_data b \<noteq> NullBlock then (bi_data b, b, allocated)
      else
        let ptr = FrameBlock (replicate kBlockSizeFrames 0)
        in (ptr, b\<lparr>bi_data := ptr\<rparr>, store_Map kBlockSizeBytes allocated))"

definition header_data :: nat where
  "header_data = 9"

definition header_size :: nat where
  "header_size = 16"

text \<open>The frames returned, the block and \<^verbatim>\<open>allocated_\<close> afterwards.\<close>

definition bi_GetOrUnpack :: "uncompressor \<Rightarrow> u64 \<Rightarrow> block_info \<Rightarrow> u64 \<Rightarrow> (block_data \<times> block_info \<times> u64) option" where
  "bi_GetOrUnpack UncompressLzw page b allocated = (case bi_state b of
     Storing \<Rightarrow> Some (bi_data b, b\<lparr>bi_state := Unpacked\<rparr>, allocated)
   | Unpacked \<Rightarrow> Some (bi_data b, b, allocated)
   | Packed \<Rightarrow> (case bi_data b of
       PackedBlock sz type bytes \<Rightarrow> do {
         check (sz \<le> word_of_nat kBlockSizeBytes);
         check (sz \<ge> word_of_nat header_size);
         packed_size_aligned \<leftarrow> RoundUpTo sz page;
         let allocated = store_Map kBlockSizeBytes allocated;
         let unpacked = replicate kBlockSizeFrames 0;
         (unpacked, unpacked_end) \<leftarrow> (case type of
           Delta \<Rightarrow> UncompressDelta bytes header_data (unat sz) unpacked 0 kBlockSizeFrames
         | LZW \<Rightarrow> UncompressLzw bytes header_data (unat sz) unpacked 0 kBlockSizeFrames
         | CompressionNone \<Rightarrow> None);
         check (kBlockSizeFrames = unpacked_end);
         let allocated = store_Unmap packed_size_aligned allocated;
         Some (FrameBlock unpacked, b\<lparr>bi_data := FrameBlock unpacked, bi_state := Unpacked\<rparr>, allocated) }
     | _ \<Rightarrow> None))"

text \<open>The number of bytes saved, the block and \<^verbatim>\<open>allocated_\<close> afterwards.\<close>

definition bi_Pack :: "compressor \<Rightarrow> u64 \<Rightarrow> compression \<Rightarrow> block_info \<Rightarrow> u64 \<Rightarrow> (u64 \<times> block_info \<times> u64) option" where
  "bi_Pack CompressLzw page type b allocated =
     (if type = CompressionNone \<or> bi_state b \<noteq> Storing \<or> bi_data b = NullBlock then Some (0, b, allocated)
      else
        let (full, b) = bi_Stored b 0
        in if \<not> full then Some (0, b, allocated)
        else (case bi_data b of
          FrameBlock ptr \<Rightarrow> do {
            let allocated = store_Map kBlockSizeBytes allocated;
            let packed = replicate kBlockSizeBytes 0;
            check (kBlockSizeFrames \<le> length ptr);
            (packed_end, packed) \<leftarrow> (case type of
              Delta \<Rightarrow> CompressDelta (take kBlockSizeFrames ptr) packed header_data kBlockSizeBytes
            | LZW \<Rightarrow> CompressLzw (take kBlockSizeFrames ptr) packed header_data kBlockSizeBytes
            | CompressionNone \<Rightarrow> None);
            let sz = (word_of_nat packed_end :: u64);
            if word_of_nat kBlockSizeBytes - sz < word_of_nat kBlockSizeBytes div 8 then
              let allocated = store_Unmap (word_of_nat kBlockSizeBytes) allocated
              in Some (0, b\<lparr>bi_state := Unpacked\<rparr>, allocated)
            else do {
              packed_size_aligned \<leftarrow> RoundUpTo sz page;
              let allocated = store_Unmap (word_of_nat kBlockSizeBytes - packed_size_aligned) allocated;
              let data = PackedBlock sz type (take (unat packed_size_aligned) packed);
              let allocated = store_Unmap (word_of_nat kBlockSizeBytes) allocated;
              Some (word_of_nat kBlockSizeBytes - packed_size_aligned, b\<lparr>bi_data := data, bi_state := Packed\<rparr>, allocated) } }
        | _ \<Rightarrow> None))"

section \<open>Packing a block is lossless\<close>

lemma block_sizes: "kBlockSizeBytes = 0x800000" "kBlockSizeFrames = 0x100000" "header_data = 9" "header_size = 16"
  by (simp_all add: kBlockSizeBytes_def kBlockSizeFrames_def header_data_def header_size_def)

text \<open>The size of the image of a block: what the delta coder stores, cut off at the end of the buffer.\<close>

definition image_size :: "u64 list \<Rightarrow> nat" where
  "image_size frames = min kBlockSizeBytes (header_data + length (delta_bytes 0 frames))"

lemma image_size_le: "image_size frames \<le> 0x800000"
  by (simp add: image_size_def block_sizes)

lemma unat_image_size: "unat (word_of_nat (image_size frames) :: u64) = image_size frames"
  using image_size_le [of frames] by (intro unat_of_nat_small) simp

lemma undo_iff:
  "word_of_nat kBlockSizeBytes - (word_of_nat (image_size frames) :: u64) < word_of_nat kBlockSizeBytes div 8 \<longleftrightarrow>
    0x700000 < image_size frames"
proof -
  have "unat (0x800000 - (word_of_nat (image_size frames) :: u64)) = 0x800000 - image_size frames"
    using image_size_le [of frames] unat_image_size [of frames] by (subst unat_sub) (simp_all add: word_le_nat_alt)
  then show ?thesis
    using image_size_le [of frames] by (simp add: word_less_nat_alt block_sizes) linarith
qed

lemma aligned_image:
  assumes "IsPowerOfTwo page" and "page \<noteq> 0" and "page \<le> 0x100000" and "image_size frames \<le> 0x700000"
  shows "\<exists>a. RoundUpTo (word_of_nat (image_size frames)) page = Some a \<and> image_size frames \<le> unat a \<and> unat a < 0x800000"
proof -
  note p = IsPowerOfTwo_exp(1) [OF assms(2,1)]
  have le: "0 < unat page" "unat page \<le> 0x100000"
    using assms(2,3) by (simp_all add: unat_gt_0 word_le_nat_alt)
  then obtain a where "RoundUpTo (word_of_nat (image_size frames)) page = Some a"
    "unat a = (image_size frames + unat page - 1) div unat page * unat page"
    using RoundUpTo_ok [OF p, of "word_of_nat (image_size frames)"] assms(4) unfolding p [symmetric] unat_image_size by auto
  then show ?thesis
    using round_up_bounds [OF le(1), of "image_size frames"] le(2) assms(4) by auto
qed

lemma pack_image:
  assumes "length frames = kBlockSizeFrames"
  shows "\<exists>m'. CompressDelta frames (replicate kBlockSizeBytes 0) header_data kBlockSizeBytes = Some (image_size frames, m') \<and>
    (image_size frames < kBlockSizeBytes \<longrightarrow> image_size frames = header_data + length (delta_bytes 0 frames) \<and> bytes_at m' header_data (delta_bytes 0 frames))"
proof -
  have h: "header_data \<le> kBlockSizeBytes" "kBlockSizeBytes \<le> length (replicate kBlockSizeBytes (0 :: u8))"
    by (simp_all add: block_sizes)
  have "header_data + min (kBlockSizeBytes - header_data) (length (delta_bytes 0 frames)) = image_size frames"
    unfolding image_size_def using h(1) by linarith
  then show ?thesis
    using CompressDelta_ok [OF h, of frames] by (auto simp: image_size_def)
qed

lemma unpack_image:
  assumes "length frames = kBlockSizeFrames" and "bytes_at m header_data (delta_bytes 0 frames)"
    and "sz = header_data + length (delta_bytes 0 frames)" and "sz \<le> k"
  shows "UncompressDelta (take k m) header_data sz (replicate kBlockSizeFrames 0) 0 kBlockSizeFrames = Some (frames, kBlockSizeFrames)"
proof -
  have "bytes_at (take k m) header_data (delta_bytes 0 frames)"
    using assms(2-4) by (simp add: bytes_at_take)
  from UncompressDelta_ok [OF this, of 0 "replicate kBlockSizeFrames 0"] show ?thesis
    using assms(1,3) by simp
qed

text \<open>C39: packing a full block with delta compression loses nothing.  The block is kept packed exactly when
  its image saves at least an eighth of the block, and is unpacked otherwise; a buffer that the coder
  filled up, and so may have truncated, is never kept.  In both cases the frames read back are the
  frames of the block, for every page size up to a megabyte, and \<^verbatim>\<open>allocated_\<close> drops by what was saved
  and comes back when the block is unpacked.
\<close>

theorem block_pack_lossless:
  assumes "bi_state b = Storing" and "bi_data b = FrameBlock frames" and "length frames = kBlockSizeFrames"
    and "bi_stored b = word_of_nat kBlockSizeFrames" and "IsPowerOfTwo page" and "page \<noteq> 0" and "page \<le> 0x100000"
  shows "\<exists>saved b'. bi_Pack lzwc page Delta b allocated = Some (saved, b', allocated - saved) \<and>
    bi_state b' = (if image_size frames \<le> kBlockSizeBytes - kBlockSizeBytes div 8 then Packed else Unpacked) \<and>
    (saved = 0 \<longleftrightarrow> bi_state b' = Unpacked) \<and>
    (\<exists>b''. bi_GetOrUnpack lzwu page b' (allocated - saved) = Some (FrameBlock frames, b'', allocated) \<and>
      bi_state b'' = Unpacked \<and> bi_data b'' = FrameBlock frames)"
proof -
  have st: "bi_Stored b 0 = (True, b)"
    using assms(4) by (simp add: bi_Stored_def block_sizes)
  obtain m where m: "CompressDelta frames (replicate kBlockSizeBytes 0) header_data kBlockSizeBytes = Some (image_size frames, m)"
    "image_size frames < kBlockSizeBytes \<longrightarrow> image_size frames = header_data + length (delta_bytes 0 frames) \<and> bytes_at m header_data (delta_bytes 0 frames)"
    using pack_image [OF assms(3)] by blast
  show ?thesis
  proof (cases "0x700000 < image_size frames")
    case True
    then have "bi_Pack lzwc page Delta b allocated = Some (0, b\<lparr>bi_state := Unpacked\<rparr>, allocated)"
      using assms(1-3) m(1) by (simp add: bi_Pack_def st undo_iff store_Map_def store_Unmap_def)
    then show ?thesis
      using True assms(2) by (simp add: bi_GetOrUnpack_def block_sizes)
  next
    case False
    then obtain a where a: "RoundUpTo (word_of_nat (image_size frames)) page = Some a" "image_size frames \<le> unat a" "unat a < 0x800000"
      using aligned_image [OF assms(5-7), of frames] by auto
    define b' where "b' = b\<lparr>bi_data := PackedBlock (word_of_nat (image_size frames)) Delta (take (unat a) m), bi_state := Packed\<rparr>"
    have im: "image_size frames = header_data + length (delta_bytes 0 frames)" "bytes_at m header_data (delta_bytes 0 frames)"
      using m(2) False by (simp_all add: block_sizes)
    have "bi_Pack lzwc page Delta b allocated = Some (word_of_nat kBlockSizeBytes - a, b', allocated - (word_of_nat kBlockSizeBytes - a))"
      using assms(1-3) m(1) a(1) False by (simp add: bi_Pack_def st undo_iff store_Map_def store_Unmap_def b'_def)
    moreover have "word_of_nat (image_size frames) \<le> (word_of_nat kBlockSizeBytes :: u64)" "word_of_nat header_size \<le> (word_of_nat (image_size frames) :: u64)"
      using unat_image_size [of frames] image_size_le [of frames] im(1) length_delta_bytes_ge [of frames 0] assms(3)
      by (simp_all add: word_le_nat_alt block_sizes)
    then have "bi_GetOrUnpack lzwu page b' (allocated - (word_of_nat kBlockSizeBytes - a)) =
        Some (FrameBlock frames, b'\<lparr>bi_data := FrameBlock frames, bi_state := Unpacked\<rparr>, allocated)"
      using a(1,2) unpack_image [OF assms(3) im(2,1), of "unat a"]
      by (simp add: bi_GetOrUnpack_def b'_def unat_image_size store_Map_def store_Unmap_def)
    moreover have "word_of_nat kBlockSizeBytes - a \<noteq> 0"
      using a(3) by (auto simp: block_sizes)
    moreover have "bi_state b' = Packed"
      by (simp add: b'_def)
    ultimately show ?thesis
      using False by (intro exI [of _ "word_of_nat kBlockSizeBytes - a"] exI [of _ b']) (simp add: block_sizes)
  qed
qed

theorem block_pack_lossless_witness:
  "\<exists>saved b'. bi_Pack (\<lambda>_ _ _ _. None) 4096 Delta
      \<lparr>bi_data = FrameBlock (replicate kBlockSizeFrames 0), bi_stored = word_of_nat kBlockSizeFrames, bi_state = Storing\<rparr> 0 =
      Some (saved, b', - saved) \<and> saved \<noteq> 0 \<and> bi_state b' = Packed \<and>
    (\<exists>b''. bi_GetOrUnpack (\<lambda>_ _ _ _ _ _. None) 4096 b' (- saved) = Some (FrameBlock (replicate kBlockSizeFrames 0), b'', 0))"
proof -
  let ?b = "\<lparr>bi_data = FrameBlock (replicate kBlockSizeFrames 0), bi_stored = word_of_nat kBlockSizeFrames, bi_state = Storing\<rparr>"
  have "length (delta_bytes 0 (replicate n 0)) = n" for n
    by (induction n) (simp_all add: sleb.simps [of 0])
  then have "image_size (replicate kBlockSizeFrames 0) \<le> kBlockSizeBytes - kBlockSizeBytes div 8"
    by (simp add: image_size_def block_sizes)
  moreover have "IsPowerOfTwo (4096 :: u64)" "(4096 :: u64) \<noteq> 0" "(4096 :: u64) \<le> 0x100000"
    by (simp_all add: IsPowerOfTwo_def)
  ultimately show ?thesis
    using block_pack_lossless [of ?b "replicate kBlockSizeFrames 0" 4096 "\<lambda>_ _ _ _. None" 0 "\<lambda>_ _ _ _ _ _. None"] by auto
qed

end
