(* ===== verification/Vector_Clock.thy ===== *)
theory Vector_Clock
  imports CRT_Prelude
begin

text \<open>
  The vector clocks of ThreadSanitizer, \<^verbatim>\<open>tsan_vector_clock.cpp\<close>.  A clock is the array
  \<^verbatim>\<open>clk_\<close> of \<^verbatim>\<open>kThreadSlotCount\<close> epochs.  Every operation is given in both of its versions:
  the loop over the slots, and the loop over 128-bit vectors of the SSE build (names with \<open>v\<close>).
  A vector is a list of eight epochs; \<open>load_si128\<close>, \<open>store_si128\<close> and \<open>max_epu16\<close> are the
  instructions behind \<^verbatim>\<open>_mm_load_si128\<close>, \<^verbatim>\<open>_mm_store_si128\<close> and \<^verbatim>\<open>_mm_max_epu16\<close>.

  A \<^verbatim>\<open>VectorClock **\<close> is the pointer cell it points to: \<^term>\<open>None\<close> while no clock is allocated.
  The clock of the thread and the clock of the synchronisation object are different objects.

  The two versions are shown to agree, and the operations to be the join, copy and exchange of
  functions from slots to epochs ordered pointwise.
\<close>

type_synonym epoch = u16
type_synonym vclock = "epoch list"

definition kThreadSlotCount :: nat where
  "kThreadSlotCount = 256"

definition kVectorClockSize :: nat where
  "kVectorClockSize = kThreadSlotCount * 2 div 16"

section \<open>Operations slot by slot\<close>

definition vc_Reset :: "vclock \<Rightarrow> vclock option" where
  "vc_Reset clk = foldM (\<lambda>i clk. arr_set clk i 0) [0..<kThreadSlotCount] clk"

definition vc_Get :: "vclock \<Rightarrow> u8 \<Rightarrow> epoch option" where
  "vc_Get clk sid = arr_get clk (unat sid)"

text \<open>\<^verbatim>\<open>DCHECK_GE\<close> is compiled in debug builds.\<close>

definition vc_Set :: "bool \<Rightarrow> vclock \<Rightarrow> u8 \<Rightarrow> epoch \<Rightarrow> vclock option" where
  "vc_Set debug clk sid v = do {
     old \<leftarrow> arr_get clk (unat sid);
     check (debug \<longrightarrow> v \<ge> old);
     arr_set clk (unat sid) v }"

definition vc_Acquire :: "vclock \<Rightarrow> vclock option \<Rightarrow> vclock option" where
  "vc_Acquire clk src = (case src of
     None \<Rightarrow> Some clk
   | Some src \<Rightarrow> foldM (\<lambda>i clk. do {
       c \<leftarrow> arr_get clk i;
       s \<leftarrow> arr_get src i;
       arr_set clk i (max c s) }) [0..<kThreadSlotCount] clk)"

text \<open>A new clock is zeroed by its constructor, whatever the memory holds.\<close>

definition AllocClock :: "(vclock \<Rightarrow> vclock option) \<Rightarrow> vclock \<Rightarrow> vclock option \<Rightarrow> vclock option" where
  "AllocClock Reset fresh dstp = (case dstp of None \<Rightarrow> Reset fresh | Some d \<Rightarrow> Some d)"

definition vc_Release :: "vclock \<Rightarrow> vclock \<Rightarrow> vclock option \<Rightarrow> vclock option" where
  "vc_Release fresh clk dstp = do {
     dst \<leftarrow> AllocClock vc_Reset fresh dstp;
     vc_Acquire dst (Some clk) }"

definition vc_assign :: "vclock \<Rightarrow> vclock \<Rightarrow> vclock option" where
  "vc_assign clk other = foldM (\<lambda>i clk. do { v \<leftarrow> arr_get other i; arr_set clk i v }) [0..<kThreadSlotCount] clk"

definition vc_ReleaseStore :: "vclock \<Rightarrow> vclock \<Rightarrow> vclock option \<Rightarrow> vclock option" where
  "vc_ReleaseStore fresh clk dstp = do {
     dst \<leftarrow> AllocClock vc_Reset fresh dstp;
     vc_assign dst clk }"

text \<open>The clock of the thread and the one of the object after the call.\<close>

definition vc_ReleaseStoreAcquire :: "vclock \<Rightarrow> vclock \<Rightarrow> vclock option \<Rightarrow> (vclock \<times> vclock) option" where
  "vc_ReleaseStoreAcquire fresh clk dstp = do {
     dst \<leftarrow> AllocClock vc_Reset fresh dstp;
     foldM (\<lambda>i (clk, dst). do {
       tmp \<leftarrow> arr_get dst i;
       c \<leftarrow> arr_get clk i;
       dst \<leftarrow> arr_set dst i c;
       clk \<leftarrow> arr_set clk i (max c tmp);
       Some (clk, dst) }) [0..<kThreadSlotCount] (clk, dst) }"

definition vc_ReleaseAcquire :: "vclock \<Rightarrow> vclock \<Rightarrow> vclock option \<Rightarrow> (vclock \<times> vclock) option" where
  "vc_ReleaseAcquire fresh clk dstp = do {
     dst \<leftarrow> AllocClock vc_Reset fresh dstp;
     foldM (\<lambda>i (clk, dst). do {
       d \<leftarrow> arr_get dst i;
       c \<leftarrow> arr_get clk i;
       dst \<leftarrow> arr_set dst i (max d c);
       d \<leftarrow> arr_get dst i;
       clk \<leftarrow> arr_set clk i d;
       Some (clk, dst) }) [0..<kThreadSlotCount] (clk, dst) }"

section \<open>Operations vector by vector\<close>

definition load_si128 :: "vclock \<Rightarrow> nat \<Rightarrow> epoch list option" where
  "load_si128 clk i = do {
     check (8 * i + 8 \<le> length clk);
     Some (take 8 (drop (8 * i) clk)) }"

definition store_si128 :: "vclock \<Rightarrow> nat \<Rightarrow> epoch list \<Rightarrow> vclock option" where
  "store_si128 clk i v = do {
     check (8 * i + 8 \<le> length clk);
     Some (take (8 * i) clk @ v @ drop (8 * i + 8) clk) }"

definition max_epu16 :: "epoch list \<Rightarrow> epoch list \<Rightarrow> epoch list" where
  "max_epu16 a b = map2 max a b"

definition vvc_Reset :: "vclock \<Rightarrow> vclock option" where
  "vvc_Reset clk = foldM (\<lambda>i clk. store_si128 clk i (replicate 8 0)) [0..<kVectorClockSize] clk"

definition vvc_Acquire :: "vclock \<Rightarrow> vclock option \<Rightarrow> vclock option" where
  "vvc_Acquire clk src = (case src of
     None \<Rightarrow> Some clk
   | Some src \<Rightarrow> foldM (\<lambda>i clk. do {
       s \<leftarrow> load_si128 src i;
       d \<leftarrow> load_si128 clk i;
       store_si128 clk i (max_epu16 s d) }) [0..<kVectorClockSize] clk)"

definition vvc_Release :: "vclock \<Rightarrow> vclock \<Rightarrow> vclock option \<Rightarrow> vclock option" where
  "vvc_Release fresh clk dstp = do {
     dst \<leftarrow> AllocClock vvc_Reset fresh dstp;
     vvc_Acquire dst (Some clk) }"

definition vvc_assign :: "vclock \<Rightarrow> vclock \<Rightarrow> vclock option" where
  "vvc_assign clk other = foldM (\<lambda>i clk. do { s \<leftarrow> load_si128 other i; store_si128 clk i s }) [0..<kVectorClockSize] clk"

definition vvc_ReleaseStore :: "vclock \<Rightarrow> vclock \<Rightarrow> vclock option \<Rightarrow> vclock option" where
  "vvc_ReleaseStore fresh clk dstp = do {
     dst \<leftarrow> AllocClock vvc_Reset fresh dstp;
     vvc_assign dst clk }"

definition vvc_ReleaseStoreAcquire :: "vclock \<Rightarrow> vclock \<Rightarrow> vclock option \<Rightarrow> (vclock \<times> vclock) option" where
  "vvc_ReleaseStoreAcquire fresh clk dstp = do {
     dst \<leftarrow> AllocClock vvc_Reset fresh dstp;
     foldM (\<lambda>i (clk, dst). do {
       t \<leftarrow> load_si128 dst i;
       c \<leftarrow> load_si128 clk i;
       let m = max_epu16 c t;
       dst \<leftarrow> store_si128 dst i c;
       clk \<leftarrow> store_si128 clk i m;
       Some (clk, dst) }) [0..<kVectorClockSize] (clk, dst) }"

definition vvc_ReleaseAcquire :: "vclock \<Rightarrow> vclock \<Rightarrow> vclock option \<Rightarrow> (vclock \<times> vclock) option" where
  "vvc_ReleaseAcquire fresh clk dstp = do {
     dst \<leftarrow> AllocClock vvc_Reset fresh dstp;
     foldM (\<lambda>i (clk, dst). do {
       c \<leftarrow> load_si128 clk i;
       d \<leftarrow> load_si128 dst i;
       let m = max_epu16 c d;
       dst \<leftarrow> store_si128 dst i m;
       clk \<leftarrow> store_si128 clk i m;
       Some (clk, dst) }) [0..<kVectorClockSize] (clk, dst) }"

section \<open>Loops over the slots and over the vectors\<close>

lemma slot_loop_pair:
  assumes "length a = n" and "length b = n"
    and "\<And>i x y. \<lbrakk> i < n; length x = n; length y = n; x ! i = a ! i; y ! i = b ! i \<rbrakk> \<Longrightarrow> g i (x, y) = Some (x[i := f i], y[i := h i])"
  shows "foldM g [0..<n] (a, b) = Some (map f [0..<n], map h [0..<n])"
proof -
  define I where "I i s \<longleftrightarrow> length (fst s) = n \<and> length (snd s) = n \<and>
    (\<forall>j<n. fst s ! j = (if j < i then f j else a ! j) \<and> snd s ! j = (if j < i then h j else b ! j))" for i s
  have "\<exists>s. foldM g [0..<n] (a, b) = Some s \<and> I n s"
  proof (rule foldM_upt_invariant)
    fix i s assume "0 \<le> i" "i < n" "I i s"
    then show "\<exists>s'. g i s = Some s' \<and> I (Suc i) s'"
      using assms(3) [of i "fst s" "snd s"] by (auto simp: I_def nth_list_update less_Suc_eq)
  qed (auto simp: I_def assms)
  then show ?thesis
    by (auto simp: I_def intro!: nth_equalityI)
qed

lemma slot_loop:
  assumes "length a = n" and "\<And>i x. \<lbrakk> i < n; length x = n; x ! i = a ! i \<rbrakk> \<Longrightarrow> g i x = Some (x[i := f i])"
  shows "foldM g [0..<n] a = Some (map f [0..<n])"
proof -
  define I where "I i s \<longleftrightarrow> length s = n \<and> (\<forall>j<n. s ! j = (if j < i then f j else a ! j))" for i s
  have "\<exists>s. foldM g [0..<n] a = Some s \<and> I n s"
  proof (rule foldM_upt_invariant)
    fix i s assume "0 \<le> i" "i < n" "I i s"
    then show "\<exists>s'. g i s = Some s' \<and> I (Suc i) s'"
      using assms(2) [of i s] by (auto simp: I_def nth_list_update less_Suc_eq)
  qed (auto simp: I_def assms)
  then show ?thesis
    by (auto simp: I_def intro!: nth_equalityI)
qed

text \<open>A vector store that puts \<open>f j\<close> into the slots \<open>j\<close> of vector \<open>i\<close>.\<close>

definition put8 :: "(nat \<Rightarrow> epoch) \<Rightarrow> nat \<Rightarrow> vclock \<Rightarrow> vclock" where
  "put8 f i x = take (8 * i) x @ map f [8 * i..<8 * i + 8] @ drop (8 * i + 8) x"

lemma length_put8: "8 * i + 8 \<le> length x \<Longrightarrow> length (put8 f i x) = length x"
  by (simp add: put8_def)

lemma nth_put8:
  assumes "8 * i + 8 \<le> length x" and "j < length x"
  shows "put8 f i x ! j = (if 8 * i \<le> j \<and> j < 8 * i + 8 then f j else x ! j)"
  using assms by (auto simp: put8_def nth_append)

lemma put8_cong: "(\<And>j. 8 * i \<le> j \<Longrightarrow> j < 8 * i + 8 \<Longrightarrow> f j = g j) \<Longrightarrow> put8 f i x = put8 g i x"
  by (simp add: put8_def)

lemma store_map: "8 * i + 8 \<le> length x \<Longrightarrow> store_si128 x i (map f [8 * i..<8 * i + 8]) = Some (put8 f i x)"
  by (simp add: store_si128_def put8_def)

lemma load_map: "8 * i + 8 \<le> length x \<Longrightarrow> load_si128 x i = Some (map (\<lambda>j. x ! j) [8 * i..<8 * i + 8])"
  by (auto simp: load_si128_def intro!: nth_equalityI)

lemma vector_loop_pair:
  assumes "length a = 8 * n" and "length b = 8 * n"
    and "\<And>i x y. \<lbrakk> i < n; length x = 8 * n; length y = 8 * n; \<forall>j. 8 * i \<le> j \<and> j < 8 * i + 8 \<longrightarrow> x ! j = a ! j \<and> y ! j = b ! j \<rbrakk> \<Longrightarrow>
      g i (x, y) = Some (put8 f i x, put8 h i y)"
  shows "foldM g [0..<n] (a, b) = Some (map f [0..<8 * n], map h [0..<8 * n])"
proof -
  define I where "I i s \<longleftrightarrow> length (fst s) = 8 * n \<and> length (snd s) = 8 * n \<and>
    (\<forall>j<8 * n. fst s ! j = (if j < 8 * i then f j else a ! j) \<and> snd s ! j = (if j < 8 * i then h j else b ! j))" for i s
  have "\<exists>s. foldM g [0..<n] (a, b) = Some s \<and> I n s"
  proof (rule foldM_upt_invariant)
    fix i s assume i: "0 \<le> i" "i < n" and I: "I i s"
    then have "g i (fst s, snd s) = Some (put8 f i (fst s), put8 h i (snd s))"
      by (intro assms(3)) (auto simp: I_def)
    then show "\<exists>s'. g i s = Some s' \<and> I (Suc i) s'"
      using i I by (auto simp: I_def length_put8 nth_put8)
  qed (auto simp: I_def assms)
  then show ?thesis
    by (auto simp: I_def intro!: nth_equalityI)
qed

lemma vector_loop:
  assumes "length a = 8 * n"
    and "\<And>i x. \<lbrakk> i < n; length x = 8 * n; \<forall>j. 8 * i \<le> j \<and> j < 8 * i + 8 \<longrightarrow> x ! j = a ! j \<rbrakk> \<Longrightarrow> g i x = Some (put8 f i x)"
  shows "foldM g [0..<n] a = Some (map f [0..<8 * n])"
proof -
  define I where "I i s \<longleftrightarrow> length s = 8 * n \<and> (\<forall>j<8 * n. s ! j = (if j < 8 * i then f j else a ! j))" for i s
  have "\<exists>s. foldM g [0..<n] a = Some s \<and> I n s"
  proof (rule foldM_upt_invariant)
    fix i s assume i: "0 \<le> i" "i < n" and I: "I i s"
    then have "g i s = Some (put8 f i s)"
      by (intro assms(2)) (auto simp: I_def)
    then show "\<exists>s'. g i s = Some s' \<and> I (Suc i) s'"
      using i I by (auto simp: I_def length_put8 nth_put8)
  qed (auto simp: I_def assms)
  then show ?thesis
    by (auto simp: I_def intro!: nth_equalityI)
qed

lemma max_epu16_map: "max_epu16 (map f [m..<n]) (map h [m..<n]) = map (\<lambda>j. max (f j) (h j)) [m..<n]"
  unfolding max_epu16_def by (auto intro!: nth_equalityI)

section \<open>What the operations compute\<close>

text \<open>The clock an operation releases into: a new one when the object has none.\<close>

definition clock_at :: "vclock option \<Rightarrow> vclock" where
  "clock_at dstp = (case dstp of None \<Rightarrow> replicate kThreadSlotCount 0 | Some d \<Rightarrow> d)"

abbreviation is_clock :: "vclock \<Rightarrow> bool" where
  "is_clock clk \<equiv> length clk = kThreadSlotCount"

lemma clock_size: "kThreadSlotCount = 8 * kVectorClockSize"
  by (simp add: kThreadSlotCount_def kVectorClockSize_def)

lemma map_upt_max: "is_clock a \<Longrightarrow> is_clock b \<Longrightarrow> map (\<lambda>j. max (a ! j) (b ! j)) [0..<kThreadSlotCount] = map2 max a b"
  by (auto intro!: nth_equalityI)

lemma Reset_ok: "is_clock clk \<Longrightarrow> vc_Reset clk = Some (replicate kThreadSlotCount 0)"
  unfolding vc_Reset_def by (subst slot_loop [where f = "\<lambda>_. 0"]) (auto simp: map_replicate_const)

lemma vReset_ok: "is_clock clk \<Longrightarrow> vvc_Reset clk = Some (replicate kThreadSlotCount 0)"
  unfolding vvc_Reset_def clock_size
  by (subst vector_loop [where f = "\<lambda>_. 0"])
    (auto simp: map_replicate_const store_map [where f = "\<lambda>_. 0", symmetric])

lemma Acquire_ok: "is_clock clk \<Longrightarrow> is_clock src \<Longrightarrow> vc_Acquire clk (Some src) = Some (map2 max clk src)"
  unfolding vc_Acquire_def map_upt_max [symmetric] by (auto intro!: slot_loop)

lemma vAcquire_ok:
  assumes "is_clock clk" and "is_clock src"
  shows "vvc_Acquire clk (Some src) = Some (map2 max clk src)"
proof -
  have "foldM (\<lambda>i clk. do { s \<leftarrow> load_si128 src i; d \<leftarrow> load_si128 clk i; store_si128 clk i (max_epu16 s d) }) [0..<kVectorClockSize] clk =
      Some (map (\<lambda>j. max (clk ! j) (src ! j)) [0..<8 * kVectorClockSize])"
  proof (rule vector_loop)
    fix i x assume i: "i < kVectorClockSize" "length x = 8 * kVectorClockSize" "\<forall>j. 8 * i \<le> j \<and> j < 8 * i + 8 \<longrightarrow> x ! j = clk ! j"
    have "put8 (\<lambda>j. max (src ! j) (x ! j)) i x = put8 (\<lambda>j. max (clk ! j) (src ! j)) i x"
      using i(3) by (intro put8_cong) (simp add: max.commute)
    then show "do { s \<leftarrow> load_si128 src i; d \<leftarrow> load_si128 x i; store_si128 x i (max_epu16 s d) } =
        Some (put8 (\<lambda>j. max (clk ! j) (src ! j)) i x)"
      using i(1,2) assms(2) by (simp add: load_map clock_size max_epu16_map store_map)
  qed (use assms in \<open>simp add: clock_size\<close>)
  then show ?thesis
    using assms by (simp add: vvc_Acquire_def map_upt_max flip: clock_size)
qed

lemma Alloc_ok:
  assumes "is_clock fresh"
  shows "AllocClock vc_Reset fresh dstp = Some (clock_at dstp)" and "AllocClock vvc_Reset fresh dstp = Some (clock_at dstp)"
  using assms by (simp_all add: AllocClock_def clock_at_def Reset_ok vReset_ok split: option.splits)

lemma assign_ok:
  assumes "is_clock clk" and "is_clock other"
  shows "vc_assign clk other = Some other" and "vvc_assign clk other = Some other"
proof -
  have m: "map (\<lambda>j. other ! j) [0..<kThreadSlotCount] = other"
    using assms(2) by (metis map_nth)
  have "vc_assign clk other = Some (map (\<lambda>j. other ! j) [0..<kThreadSlotCount])"
    unfolding vc_assign_def using assms by (intro slot_loop) simp_all
  then show "vc_assign clk other = Some other"
    by (simp add: m)
  have "vvc_assign clk other = Some (map (\<lambda>j. other ! j) [0..<8 * kVectorClockSize])"
    unfolding vvc_assign_def using assms by (intro vector_loop) (simp_all add: clock_size load_map store_map)
  then show "vvc_assign clk other = Some other"
    by (simp add: m flip: clock_size)
qed

lemma ReleaseStoreAcquire_ok:
  assumes "is_clock fresh" and "is_clock clk" and "is_clock (clock_at dstp)"
  shows "vc_ReleaseStoreAcquire fresh clk dstp = Some (map2 max clk (clock_at dstp), clk)"
    and "vvc_ReleaseStoreAcquire fresh clk dstp = Some (map2 max clk (clock_at dstp), clk)"
proof -
  let ?d = "clock_at dstp"
  let ?f = "\<lambda>j. max (clk ! j) (?d ! j)" and ?h = "\<lambda>j. clk ! j"
  have r: "map ?f [0..<kThreadSlotCount] = map2 max clk ?d" "map ?h [0..<kThreadSlotCount] = clk"
    using map_upt_max [OF assms(2,3)] map_nth [of clk] by (simp_all only: assms(2))
  have "vc_ReleaseStoreAcquire fresh clk dstp = Some (map ?f [0..<kThreadSlotCount], map ?h [0..<kThreadSlotCount])"
    unfolding vc_ReleaseStoreAcquire_def Alloc_ok [OF assms(1)] Option.bind.bind_lunit using assms(2,3) by (intro slot_loop_pair) simp_all
  then show "vc_ReleaseStoreAcquire fresh clk dstp = Some (map2 max clk ?d, clk)"
    by (simp only: r)
  have "vvc_ReleaseStoreAcquire fresh clk dstp = Some (map ?f [0..<8 * kVectorClockSize], map ?h [0..<8 * kVectorClockSize])"
    unfolding vvc_ReleaseStoreAcquire_def Alloc_ok [OF assms(1)] Option.bind.bind_lunit
  proof (rule vector_loop_pair)
    fix i x y
    assume i: "i < kVectorClockSize" "length x = 8 * kVectorClockSize" "length y = 8 * kVectorClockSize"
      and e: "\<forall>j. 8 * i \<le> j \<and> j < 8 * i + 8 \<longrightarrow> x ! j = clk ! j \<and> y ! j = ?d ! j"
    have "put8 (\<lambda>j. max (x ! j) (y ! j)) i x = put8 ?f i x" "put8 (\<lambda>j. x ! j) i y = put8 ?h i y"
      using e by (auto intro!: put8_cong)
    then show "(case (x, y) of (clk, dst) \<Rightarrow> do {
        t \<leftarrow> load_si128 dst i; c \<leftarrow> load_si128 clk i;
        let m = max_epu16 c t;
        dst \<leftarrow> store_si128 dst i c; clk \<leftarrow> store_si128 clk i m;
        Some (clk, dst) }) = Some (put8 ?f i x, put8 ?h i y)"
      using i by (simp add: load_map max_epu16_map store_map)
  qed (use assms in \<open>simp_all add: clock_size\<close>)
  then show "vvc_ReleaseStoreAcquire fresh clk dstp = Some (map2 max clk ?d, clk)"
    by (simp only: r flip: clock_size)
qed

lemma ReleaseAcquire_ok:
  assumes "is_clock fresh" and "is_clock clk" and "is_clock (clock_at dstp)"
  shows "vc_ReleaseAcquire fresh clk dstp = Some (map2 max clk (clock_at dstp), map2 max clk (clock_at dstp))"
    and "vvc_ReleaseAcquire fresh clk dstp = Some (map2 max clk (clock_at dstp), map2 max clk (clock_at dstp))"
proof -
  let ?d = "clock_at dstp"
  let ?f = "\<lambda>j. max (clk ! j) (?d ! j)"
  have r: "map ?f [0..<kThreadSlotCount] = map2 max clk ?d"
    by (rule map_upt_max [OF assms(2,3)])
  have "vc_ReleaseAcquire fresh clk dstp = Some (map ?f [0..<kThreadSlotCount], map ?f [0..<kThreadSlotCount])"
    unfolding vc_ReleaseAcquire_def Alloc_ok [OF assms(1)] Option.bind.bind_lunit using assms(2,3)
    by (intro slot_loop_pair) (simp_all add: max.commute)
  then show "vc_ReleaseAcquire fresh clk dstp = Some (map2 max clk ?d, map2 max clk ?d)"
    by (simp only: r)
  have "vvc_ReleaseAcquire fresh clk dstp = Some (map ?f [0..<8 * kVectorClockSize], map ?f [0..<8 * kVectorClockSize])"
    unfolding vvc_ReleaseAcquire_def Alloc_ok [OF assms(1)] Option.bind.bind_lunit
  proof (rule vector_loop_pair)
    fix i x y
    assume i: "i < kVectorClockSize" "length x = 8 * kVectorClockSize" "length y = 8 * kVectorClockSize"
      and e: "\<forall>j. 8 * i \<le> j \<and> j < 8 * i + 8 \<longrightarrow> x ! j = clk ! j \<and> y ! j = ?d ! j"
    have "put8 (\<lambda>j. max (x ! j) (y ! j)) i z = put8 ?f i z" for z
      using e by (auto intro!: put8_cong)
    then show "(case (x, y) of (clk, dst) \<Rightarrow> do {
        c \<leftarrow> load_si128 clk i; d \<leftarrow> load_si128 dst i;
        let m = max_epu16 c d;
        dst \<leftarrow> store_si128 dst i m; clk \<leftarrow> store_si128 clk i m;
        Some (clk, dst) }) = Some (put8 ?f i x, put8 ?f i y)"
      using i by (simp add: load_map max_epu16_map store_map)
  qed (use assms in \<open>simp_all add: clock_size\<close>)
  then show "vvc_ReleaseAcquire fresh clk dstp = Some (map2 max clk ?d, map2 max clk ?d)"
    by (simp only: r flip: clock_size)
qed

lemma Release_ok:
  assumes "is_clock fresh" and "is_clock clk" and "is_clock (clock_at dstp)"
  shows "vc_Release fresh clk dstp = Some (map2 max (clock_at dstp) clk)" and "vvc_Release fresh clk dstp = Some (map2 max (clock_at dstp) clk)"
    and "vc_ReleaseStore fresh clk dstp = Some clk" and "vvc_ReleaseStore fresh clk dstp = Some clk"
  using assms by (simp_all add: vc_Release_def vvc_Release_def vc_ReleaseStore_def vvc_ReleaseStore_def Alloc_ok Acquire_ok vAcquire_ok assign_ok)

lemma Set_ok:
  assumes "is_clock clk"
  shows "\<exists>clk'. vc_Set False clk sid v = Some clk' \<and> (\<forall>x. vc_Get clk' x = (if x = sid then Some v else vc_Get clk x))"
    and "vc_Set True clk sid v = (if v \<ge> clk ! unat sid then vc_Set False clk sid v else None)"
proof -
  have "unat x < kThreadSlotCount" for x :: u8
    using unsigned_less [of x, where ?'a = nat] by (simp add: kThreadSlotCount_def)
  then show "\<exists>clk'. vc_Set False clk sid v = Some clk' \<and> (\<forall>x. vc_Get clk' x = (if x = sid then Some v else vc_Get clk x))"
    "vc_Set True clk sid v = (if v \<ge> clk ! unat sid then vc_Set False clk sid v else None)"
    using assms by (auto simp: vc_Set_def vc_Get_def arr_get_def arr_set_def check_def nth_list_update dest: unsigned_word_eqI)
qed

text \<open>C40: on clocks of the right size Reset gives the zero clock; Acquire and Release join pointwise, and
  acquiring nothing changes nothing; ReleaseStore copies, ReleaseStoreAcquire exchanges and joins,
  ReleaseAcquire leaves the join in both clocks; a release with nothing allocated starts from the zero
  clock.  None of these fails, and the 128-bit version of each gives the same result as the loop over the
  slots.  Set changes the one slot that it names, in debug builds only to an epoch that is not smaller.
\<close>

theorem vector_clock_correct:
  assumes "length clk = kThreadSlotCount" and "length src = kThreadSlotCount" and "length fresh = kThreadSlotCount"
    and "length (clock_at dstp) = kThreadSlotCount"
  shows "vc_Reset clk = Some (replicate kThreadSlotCount 0) \<and> vvc_Reset clk = vc_Reset clk \<and>
    vc_Acquire clk (Some src) = Some (map2 max clk src) \<and> vvc_Acquire clk (Some src) = vc_Acquire clk (Some src) \<and>
    vc_Acquire clk None = Some clk \<and> vvc_Acquire clk None = vc_Acquire clk None \<and>
    vc_Release fresh clk dstp = Some (map2 max (clock_at dstp) clk) \<and> vvc_Release fresh clk dstp = vc_Release fresh clk dstp \<and>
    vc_ReleaseStore fresh clk dstp = Some clk \<and> vvc_ReleaseStore fresh clk dstp = vc_ReleaseStore fresh clk dstp \<and>
    vc_ReleaseStoreAcquire fresh clk dstp = Some (map2 max clk (clock_at dstp), clk) \<and>
    vvc_ReleaseStoreAcquire fresh clk dstp = vc_ReleaseStoreAcquire fresh clk dstp \<and>
    vc_ReleaseAcquire fresh clk dstp = Some (map2 max clk (clock_at dstp), map2 max clk (clock_at dstp)) \<and>
    vvc_ReleaseAcquire fresh clk dstp = vc_ReleaseAcquire fresh clk dstp \<and>
    (\<exists>clk'. vc_Set False clk sid v = Some clk' \<and> (\<forall>x. vc_Get clk' x = (if x = sid then Some v else vc_Get clk x))) \<and>
    vc_Set True clk sid v = (if v \<ge> clk ! unat sid then vc_Set False clk sid v else None)"
proof -
  have "vc_Acquire clk None = Some clk" "vvc_Acquire clk None = Some clk"
    by (simp_all add: vc_Acquire_def vvc_Acquire_def)
  then show ?thesis
    using assms Set_ok [OF assms(1), of sid v]
    by (simp add: Reset_ok vReset_ok Acquire_ok vAcquire_ok Release_ok ReleaseStoreAcquire_ok ReleaseAcquire_ok)
qed

theorem vector_clock_correct_witness:
  "length (replicate 256 (3 :: epoch)) = kThreadSlotCount \<and> length (replicate 256 (5 :: epoch)) = kThreadSlotCount \<and>
   length (clock_at None) = kThreadSlotCount \<and>
   vvc_ReleaseStoreAcquire (replicate 256 9) (replicate 256 3) (Some (replicate 256 5)) = Some (replicate 256 5, replicate 256 3)"
proof -
  have l: "length (replicate 256 (x :: epoch)) = kThreadSlotCount" "length (clock_at (Some (replicate 256 x))) = kThreadSlotCount" for x
    by (simp_all add: kThreadSlotCount_def clock_at_def)
  have "map2 max (replicate 256 (3 :: epoch)) (replicate 256 5) = replicate 256 5"
    by (simp add: zip_replicate max_def)
  then have "vvc_ReleaseStoreAcquire (replicate 256 9) (replicate 256 3) (Some (replicate 256 5)) = Some (replicate 256 5, replicate 256 3)"
    using vector_clock_correct [OF l(1) l(1) l(1) l(2), of 3 5 9 5] by (simp add: clock_at_def)
  then show ?thesis
    using l by (simp add: clock_at_def)
qed

end
