(* ===== verification/Float_Conv.thy ===== *)
theory Float_Conv
  imports Int_Count Complex_Main
begin

text \<open>
  The conversions from integers to floating point of \<^verbatim>\<open>lib/builtins\<close>, on bit patterns.
  Two algorithms are used.  The routines with 128-bit arguments, and those with 64-bit arguments in
  their soft-float version, bring the magnitude to the precision of the target with two extra bits
  and round there (\<open>round_digits\<close>); they differ in the width, the precision and the way the union
  is filled.  The routines written over \<^verbatim>\<open>fp_lib.h\<close> shift into the significand field and
  round on the bits shifted out (\<open>fp_shift_round\<close>), or shift only when the target is wide enough
  (\<open>fp_shift_exact\<close>).

  \<open>fp_decode\<close> reads an IEEE pattern and \<open>xf_decode\<close> the 80-bit format as real numbers.  Every
  routine is shown to give the nearest representable number, ties to the even significand.
\<close>

section \<open>Parameters of fp_lib.h\<close>

text \<open>\<open>sb\<close> is \<^verbatim>\<open>significandBits\<close>; \<^verbatim>\<open>typeWidth\<close> is the length of the pattern.\<close>

definition exponentBits :: "nat \<Rightarrow> nat \<Rightarrow> nat" where
  "exponentBits w sb = w - sb - 1"

definition maxExponent :: "nat \<Rightarrow> nat \<Rightarrow> nat" where
  "maxExponent w sb = 2 ^ exponentBits w sb - 1"

definition exponentBias :: "nat \<Rightarrow> nat \<Rightarrow> nat" where
  "exponentBias w sb = maxExponent w sb div 2"

definition implicitBit :: "nat \<Rightarrow> 'a::len word" where
  "implicitBit sb = push_bit sb 1"

definition signBit :: "nat \<Rightarrow> 'a::len word" where
  "signBit sb = push_bit (sb + exponentBits LENGTH('a) sb) 1"

section \<open>The routines over fp_lib.h\<close>

definition fp_shift_round :: "nat \<Rightarrow> 'a::len word \<Rightarrow> nat \<Rightarrow> 'a word" where
  "fp_shift_round sb a exponent =
     (if exponent \<le> sb then push_bit (sb - exponent) a XOR implicitBit sb
      else
        let shift = exponent - sb;
            result = drop_bit shift a XOR implicitBit sb;
            round = push_bit (LENGTH('a) - shift) a;
            result = (if round > signBit sb then result + 1 else result)
        in if round = signBit sb then result + (result AND 1) else result)"

definition fp_shift_exact :: "nat \<Rightarrow> 'a::len word \<Rightarrow> nat \<Rightarrow> 'a word" where
  "fp_shift_exact sb a exponent = push_bit (sb - exponent) a XOR implicitBit sb"

definition insert_exponent :: "nat \<Rightarrow> 'a::len word \<Rightarrow> nat \<Rightarrow> 'a word" where
  "insert_exponent sb result exponent =
     result + push_bit sb (word_of_nat (exponent + exponentBias LENGTH('a) sb))"

definition floatsisf :: "u32 \<Rightarrow> u32" where
  "floatsisf a =
     (if a = 0 then 0
      else
        let (sign, a) = (if sint a < 0 then (signBit 23, - a) else (0, a));
            exponent = 31 - builtin_clz a;
            result = fp_shift_round 23 a exponent
        in insert_exponent 23 result exponent OR sign)"

definition floatunsisf :: "u32 \<Rightarrow> u32" where
  "floatunsisf a =
     (if a = 0 then 0
      else
        let exponent = 31 - builtin_clz a;
            result = fp_shift_round 23 a exponent
        in insert_exponent 23 result exponent)"

definition floatsidf :: "u32 \<Rightarrow> u64" where
  "floatsidf a =
     (if a = 0 then 0
      else
        let (sign, a) = (if sint a < 0 then (signBit 52, - a) else (0, a));
            exponent = 31 - builtin_clz a;
            result = fp_shift_exact 52 (ucast a) exponent
        in insert_exponent 52 result exponent OR sign)"

definition floatunsidf :: "u32 \<Rightarrow> u64" where
  "floatunsidf a =
     (if a = 0 then 0
      else
        let exponent = 31 - builtin_clz a;
            result = fp_shift_exact 52 (ucast a) exponent
        in insert_exponent 52 result exponent)"

definition floatsitf :: "u32 \<Rightarrow> u128" where
  "floatsitf a =
     (if a = 0 then 0
      else
        let (sign, aAbs) = (if sint a < 0 then (signBit 112, NOT a + 1) else (0, a));
            exponent = 31 - builtin_clz aAbs;
            result = fp_shift_exact 112 (ucast aAbs) exponent
        in insert_exponent 112 result exponent OR sign)"

definition floatunsitf :: "u32 \<Rightarrow> u128" where
  "floatunsitf a =
     (if a = 0 then 0
      else
        let exponent = 31 - builtin_clz a;
            result = fp_shift_exact 112 (ucast a) exponent
        in insert_exponent 112 result exponent)"

definition floatditf :: "u64 \<Rightarrow> u128" where
  "floatditf a =
     (if a = 0 then 0
      else
        let (sign, aAbs) = (if sint a < 0 then (signBit 112, NOT a + 1) else (0, a));
            exponent = 63 - builtin_clz aAbs;
            result = fp_shift_exact 112 (ucast aAbs) exponent
        in insert_exponent 112 result exponent OR sign)"

definition floatunditf :: "u64 \<Rightarrow> u128" where
  "floatunditf a =
     (if a = 0 then 0
      else
        let exponent = 63 - builtin_clz a;
            result = fp_shift_exact 112 (ucast a) exponent
        in insert_exponent 112 result exponent)"

section \<open>The routines that round by hand\<close>

text \<open>
  From \<^verbatim>\<open>int e = sd - 1\<close> to the end of the if, with the precision \<open>p\<close>.  \<open>shr\<close> is the
  right shift of the type of \<open>a\<close>: arithmetic in the signed routines, logical in the unsigned ones.
\<close>

definition round_digits :: "(nat \<Rightarrow> 'a::len word \<Rightarrow> 'a word) \<Rightarrow> nat \<Rightarrow> 'a word \<Rightarrow> nat \<Rightarrow> 'a word \<times> nat" where
  "round_digits shr p a sd =
     (let e = sd - 1 in
      if sd > p then
        let a = (if sd = p + 1 then push_bit 1 a
                 else if sd = p + 2 then a
                 else drop_bit (sd - (p + 2)) a OR
                   of_bool (a AND drop_bit (LENGTH('a) + p + 2 - sd) (- 1) \<noteq> 0));
            a = a OR of_bool (a AND 4 \<noteq> 0);
            a = a + 1;
            a = shr 2 a
        in if a AND push_bit p 1 \<noteq> 0 then (shr 1 a, e + 1) else (a, e)
      else (push_bit (p - sd) a, e))"

text \<open>The sign \<^verbatim>\<open>s\<close> and the magnitude \<^verbatim>\<open>(a ^ s) - s\<close> of a signed argument.\<close>

definition split_sign :: "'a::len word \<Rightarrow> 'a word \<times> 'a word" where
  "split_sign a = (let s = signed_drop_bit (LENGTH('a) - 1) a in (s, (a XOR s) - s))"

definition float_bits :: "u32 \<Rightarrow> nat \<Rightarrow> u32 \<Rightarrow> u32" where
  "float_bits sign e a = sign OR push_bit 23 (word_of_nat (e + 127)) OR (a AND 0x007FFFFF)"

definition double_bits :: "u32 \<Rightarrow> nat \<Rightarrow> u32 \<Rightarrow> u32 \<Rightarrow> u64" where
  "double_bits sign e hi lo =
     make_tu (sign OR push_bit 20 (word_of_nat (e + 1023)) OR (hi AND 0x000FFFFF)) lo"

definition quad_bits :: "u64 \<Rightarrow> nat \<Rightarrow> u64 \<Rightarrow> u64 \<Rightarrow> u128" where
  "quad_bits sign e hi lo =
     make_tu (sign OR push_bit 48 (word_of_nat (e + 16383)) OR (hi AND 0x0000ffffffffffff)) lo"

text \<open>\<^verbatim>\<open>long_double_bits\<close> of the 80-bit format: \<^verbatim>\<open>u.high.s.low\<close> and \<^verbatim>\<open>u.low.all\<close>.\<close>

record xf_bits =
  xf_high :: u32
  xf_low :: u64

definition floatdisf :: "u64 \<Rightarrow> u32" where
  "floatdisf a =
     (if a = 0 then 0
      else
        let (s, a) = split_sign a;
            sd = 64 - builtin_clz a;
            (a, e) = round_digits signed_drop_bit 24 a sd
        in float_bits (ucast s AND 0x80000000) e (ucast a))"

definition floatundisf :: "u64 \<Rightarrow> u32" where
  "floatundisf a =
     (if a = 0 then 0
      else
        let sd = 64 - builtin_clz a;
            (a, e) = round_digits drop_bit 24 a sd
        in float_bits 0 e (ucast a))"

definition floatdidf :: "u64 \<Rightarrow> u64" where
  "floatdidf a =
     (if a = 0 then 0
      else
        let (s, a) = split_sign a;
            sd = 64 - builtin_clz a;
            (a, e) = round_digits signed_drop_bit 53 a sd
        in double_bits (ucast s AND 0x80000000) e (ucast (signed_drop_bit 32 a)) (ucast a))"

definition floatundidf :: "u64 \<Rightarrow> u64" where
  "floatundidf a =
     (if a = 0 then 0
      else
        let sd = 64 - builtin_clz a;
            (a, e) = round_digits drop_bit 53 a sd
        in double_bits 0 e (ucast (drop_bit 32 a)) (ucast a))"

definition floattisf :: "u128 \<Rightarrow> u32" where
  "floattisf a =
     (if a = 0 then 0
      else
        let (s, a) = split_sign a;
            sd = 128 - unat (clzti2 a);
            (a, e) = round_digits signed_drop_bit 24 a sd
        in float_bits (ucast s AND 0x80000000) e (ucast a))"

definition floatuntisf :: "u128 \<Rightarrow> u32" where
  "floatuntisf a =
     (if a = 0 then 0
      else
        let sd = 128 - unat (clzti2 a);
            (a, e) = round_digits drop_bit 24 a sd
        in float_bits 0 e (ucast a))"

definition floattidf :: "u128 \<Rightarrow> u64" where
  "floattidf a =
     (if a = 0 then 0
      else
        let (s, a) = split_sign a;
            sd = 128 - unat (clzti2 a);
            (a, e) = round_digits signed_drop_bit 53 a sd
        in double_bits (ucast s AND 0x80000000) e (ucast (signed_drop_bit 32 a)) (ucast a))"

definition floatuntidf :: "u128 \<Rightarrow> u64" where
  "floatuntidf a =
     (if a = 0 then 0
      else
        let sd = 128 - unat (clzti2 a);
            (a, e) = round_digits drop_bit 53 a sd
        in double_bits 0 e (ucast (drop_bit 32 a)) (ucast a))"

definition floattitf :: "u128 \<Rightarrow> u128" where
  "floattitf a =
     (if a = 0 then 0
      else
        let (s, a) = split_sign a;
            sd = 128 - unat (clzti2 a);
            (a, e) = round_digits signed_drop_bit 113 a sd
        in quad_bits (ucast s AND 0x8000000000000000) e (ucast (signed_drop_bit 64 a)) (ucast a))"

definition floatuntitf :: "u128 \<Rightarrow> u128" where
  "floatuntitf a =
     (if a = 0 then 0
      else
        let sd = 128 - unat (clzti2 a);
            (a, e) = round_digits drop_bit 113 a sd
        in quad_bits 0 e (ucast (drop_bit 64 a)) (ucast a))"

definition floattixf :: "u128 \<Rightarrow> xf_bits" where
  "floattixf a =
     (if a = 0 then \<lparr>xf_high = 0, xf_low = 0\<rparr>
      else
        let (s, a) = split_sign a;
            sd = 128 - unat (clzti2 a);
            (a, e) = round_digits signed_drop_bit 64 a sd
        in \<lparr>xf_high = (ucast s AND 0x8000) OR word_of_nat (e + 16383), xf_low = ucast a\<rparr>)"

definition floatuntixf :: "u128 \<Rightarrow> xf_bits" where
  "floatuntixf a =
     (if a = 0 then \<lparr>xf_high = 0, xf_low = 0\<rparr>
      else
        let sd = 128 - unat (clzti2 a);
            (a, e) = round_digits drop_bit 64 a sd
        in \<lparr>xf_high = word_of_nat (e + 16383), xf_low = ucast a\<rparr>)"

definition floatdixf :: "u64 \<Rightarrow> xf_bits" where
  "floatdixf a =
     (if a = 0 then \<lparr>xf_high = 0, xf_low = 0\<rparr>
      else
        let (s, a) = split_sign a;
            clz = builtin_clz a;
            e = 63 - clz
        in \<lparr>xf_high = (ucast s AND 0x00008000) OR word_of_nat (e + 16383), xf_low = push_bit clz a\<rparr>)"

definition floatundixf :: "u64 \<Rightarrow> xf_bits" where
  "floatundixf a =
     (if a = 0 then \<lparr>xf_high = 0, xf_low = 0\<rparr>
      else
        let clz = builtin_clz a;
            e = 63 - clz
        in \<lparr>xf_high = word_of_nat (e + 16383), xf_low = push_bit clz a\<rparr>)"

section \<open>What a pattern stands for\<close>

datatype fp_value = Finite real | Inf bool | NaN

definition fp_sign :: "bool \<Rightarrow> real" where
  "fp_sign s = (if s then - 1 else 1)"

definition fp_decode :: "nat \<Rightarrow> 'a::len word \<Rightarrow> fp_value" where
  "fp_decode sb r =
     (let w = LENGTH('a);
          s = bit r (w - 1);
          E = unat r div 2 ^ sb mod 2 ^ exponentBits w sb;
          F = unat r mod 2 ^ sb;
          b = exponentBias w sb
      in if E = maxExponent w sb then (if F = 0 then Inf s else NaN)
         else if E = 0 then Finite (fp_sign s * real F * 2 powi (1 - int b - int sb))
         else Finite (fp_sign s * real (2 ^ sb + F) * 2 powi (int E - int b - int sb)))"

definition xf_decode :: "xf_bits \<Rightarrow> fp_value" where
  "xf_decode r =
     (let s = bit (xf_high r) 15;
          E = unat (xf_high r) mod 2 ^ 15;
          m = unat (xf_low r)
      in if E = 32767 then (if m = 2 ^ 63 then Inf s else NaN)
         else if E = 0 then Finite (fp_sign s * real m * 2 powi (1 - 16383 - 63))
         else Finite (fp_sign s * real m * 2 powi (int E - 16383 - 63)))"

section \<open>Rounding to nearest, ties to even\<close>

text \<open>The numbers with at most \<open>p\<close> significant binary digits, with an unbounded exponent.\<close>

definition fp_repr :: "nat \<Rightarrow> real \<Rightarrow> bool" where
  "fp_repr p x \<longleftrightarrow> (\<exists>m j :: int. x = real_of_int m * 2 powi j \<and> \<bar>m\<bar> < 2 ^ p)"

text \<open>
  \<open>v\<close> is representable, no representable number is nearer to \<open>x\<close>, and when another one is as near
  the significand of \<open>v\<close> is even.
\<close>

definition nearest_even :: "nat \<Rightarrow> real \<Rightarrow> real \<Rightarrow> bool" where
  "nearest_even p x v \<longleftrightarrow> fp_repr p v \<and> (\<forall>w. fp_repr p w \<longrightarrow> \<bar>x - v\<bar> \<le> \<bar>x - w\<bar>) \<and>
     (\<forall>w. fp_repr p w \<and> w \<noteq> v \<and> \<bar>x - w\<bar> = \<bar>x - v\<bar> \<longrightarrow>
       (\<exists>m j :: int. v = real_of_int m * 2 powi j \<and> 2 ^ (p - 1) \<le> \<bar>m\<bar> \<and> \<bar>m\<bar> \<le> 2 ^ p \<and> even m))"

definition round_nat :: "nat \<Rightarrow> nat \<Rightarrow> nat" where
  "round_nat k n =
     (let q = n div 2 ^ k; r = n mod 2 ^ k
      in if 2 ^ k < 2 * r \<or> 2 ^ k = 2 * r \<and> odd q then q + 1 else q)"

lemma fp_repr_uminus: "fp_repr p (- x) \<longleftrightarrow> fp_repr p x"
proof -
  have "fp_repr p (- x)" if "fp_repr p x" for x
    using that unfolding fp_repr_def by (metis abs_minus_cancel mult_minus_left of_int_minus)
  from this [of x] this [of "- x"] show ?thesis by auto
qed

lemma nearest_even_uminus:
  assumes "nearest_even p x v"
  shows "nearest_even p (- x) (- v)"
proof -
  have d: "\<bar>- x - w\<bar> = \<bar>x - (- w)\<bar>" for w
    by (simp add: abs_if)
  have m: "\<exists>m j :: int. - v = real_of_int m * 2 powi j \<and> 2 ^ (p - 1) \<le> \<bar>m\<bar> \<and> \<bar>m\<bar> \<le> 2 ^ p \<and> even m"
    if "v = real_of_int m * 2 powi j" "2 ^ (p - 1) \<le> \<bar>m\<bar>" "\<bar>m\<bar> \<le> 2 ^ p" "even m" for m j
    using that by (intro exI [of _ "- m"] exI [of _ j]) simp
  have r: "fp_repr p w \<longleftrightarrow> fp_repr p (- w)" for w
    by (simp add: fp_repr_uminus)
  have near: "\<bar>x - v\<bar> \<le> \<bar>x - (- w)\<bar>" if "fp_repr p w" for w
  proof -
    have "fp_repr p (- w)"
      using that r [of w] by simp
    then show ?thesis
      using assms unfolding nearest_even_def by blast
  qed
  have tie: "\<exists>m j :: int. v = real_of_int m * 2 powi j \<and> 2 ^ (p - 1) \<le> \<bar>m\<bar> \<and> \<bar>m\<bar> \<le> 2 ^ p \<and> even m"
    if "fp_repr p w" "w \<noteq> - v" "\<bar>x - (- w)\<bar> = \<bar>x - v\<bar>" for w
  proof -
    have "fp_repr p (- w)" "- w \<noteq> v"
      using that r [of w] by auto
    then show ?thesis
      using assms that(3) unfolding nearest_even_def by blast
  qed
  have "fp_repr p (- v)"
    using assms by (simp add: nearest_even_def fp_repr_uminus)
  then show ?thesis
    unfolding nearest_even_def d minus_minus using near tie m by blast
qed

lemma nearest_even_exact: "fp_repr p x \<Longrightarrow> nearest_even p x x"
  unfolding nearest_even_def by auto

lemma fp_repr_nat: "n < 2 ^ p \<Longrightarrow> fp_repr p (real n * 2 powi j)"
  unfolding fp_repr_def by (intro exI [of _ "int n"] exI [of _ j]) simp

lemma fp_repr_nat_le: "n \<le> 2 ^ p \<Longrightarrow> 0 < p \<Longrightarrow> fp_repr p (real n * 2 powi j)"
proof (cases "n = 2 ^ p")
  case True
  assume "0 < p"
  have "real n * 2 powi j = real (2 ^ 0) * 2 powi (j + int p)"
    unfolding True by (simp add: power_int_add)
  then show ?thesis
    using fp_repr_nat [of "2 ^ 0" p "j + int p"] \<open>0 < p\<close> one_less_power [of "2 :: nat" p] by simp
qed (simp add: fp_repr_nat)

text \<open>No representable number lies strictly between two neighbours of the same binade.\<close>

lemma fp_repr_gap:
  assumes "fp_repr p w" and "0 < p" and "2 ^ (p - 1) \<le> q" and "real q * 2 ^ k < w"
  shows "real (q + 1) * 2 ^ k \<le> w"
proof -
  obtain m j where w: "w = real_of_int m * 2 powi j" "\<bar>m\<bar> < 2 ^ p"
    using assms(1) by (auto simp: fp_repr_def)
  have "(2 :: real) ^ (p - 1 + k) \<le> real q * 2 ^ k"
    using of_nat_mono [OF assms(3), where 'a = real] by (simp add: power_add)
  then have lb: "(2 :: real) ^ (p - 1 + k) < w"
    using assms(4) by linarith
  have "m < 2 ^ p"
    using w(2) by simp
  then have "real_of_int m < real_of_int (2 ^ p)"
    by (simp only: of_int_less_iff)
  then have "real_of_int m < 2 ^ p"
    by simp
  then have "w < 2 ^ p * 2 powi j"
    unfolding w(1) by simp
  also have "\<dots> = 2 powi (int p + j)"
    by (simp add: power_int_add)
  finally have "(2 :: real) powi (int (p - 1 + k)) < 2 powi (int p + j)"
    using lb unfolding power_int_of_nat by linarith
  then have "int (p - 1 + k) < int p + j"
    using power_int_increasing [of "int p + j" "int (p - 1 + k)" "2 :: real"] by linarith
  then have "int k \<le> j"
    using assms(2) by simp
  then obtain i where i: "j = int k + int i"
    by (metis zle_iff_zadd)
  have eq: "w = real_of_int (m * 2 ^ i) * 2 ^ k"
    unfolding w(1) i by (simp add: power_int_add)
  then have "int q < m * 2 ^ i"
  proof -
    have "real_of_int (int q) < real_of_int (m * 2 ^ i)"
      using assms(4) unfolding eq by simp
    then show ?thesis
      by (simp only: of_int_less_iff)
  qed
  then have "real (q + 1) \<le> real_of_int (m * 2 ^ i)"
    by linarith
  then show ?thesis
    unfolding eq by simp
qed

lemma round_nat_nearest:
  assumes "2 ^ (p - 1) \<le> n div 2 ^ k" and "n div 2 ^ k < 2 ^ p" and "0 < p"
  shows "nearest_even p (real n) (real (round_nat k n) * 2 ^ k)"
proof -
  define q r where "q = n div 2 ^ k" and "r = n mod 2 ^ k"
  have n: "real n = real q * 2 ^ k + real r"
    using arg_cong [OF div_mult_mod_eq [of n "2 ^ k"], of real] by (simp add: q_def r_def)
  have "r < 2 ^ k"
    by (simp add: r_def)
  then have r: "real r < 2 ^ k"
    by (simp only: of_nat_less_numeral_power_cancel_iff)
  let ?lo = "real q * 2 ^ k" and ?hi = "real (q + 1) * 2 ^ k"
  let ?v = "real (round_nat k n) * 2 ^ k"
  have gap: "w \<le> ?lo \<or> ?hi \<le> w" if "fp_repr p w" for w
    using fp_repr_gap [OF that assms(3), of q k] assms(1) unfolding q_def by linarith
  have hi: "?hi = ?lo + 2 ^ k"
    by (simp add: algebra_simps)
  define up where "up \<longleftrightarrow> 2 ^ k < 2 * r \<or> 2 ^ k = 2 * r \<and> odd q"
  have v: "?v = (if up then ?hi else ?lo)"
    by (simp add: round_nat_def Let_def q_def r_def up_def)
  have rep: "fp_repr p ?lo" "fp_repr p ?hi"
    using fp_repr_nat_le [of q p "int k"] fp_repr_nat_le [of "q + 1" p "int k"] assms(2,3)
    by (simp_all add: q_def)
  have half: "up \<Longrightarrow> 2 ^ k \<le> 2 * real r" "\<not> up \<Longrightarrow> 2 * real r \<le> 2 ^ k"
    using of_nat_mono [of "2 ^ k" "2 * r", where 'a = real] of_nat_mono [of "2 * r" "2 ^ k", where 'a = real]
    by (auto simp: up_def not_less)
  have near: "\<bar>real n - ?v\<bar> \<le> \<bar>real n - w\<bar>" if "fp_repr p w" for w
  proof (cases up)
    case True
    then show ?thesis
      using gap [OF that] half(1) r unfolding v n hi if_P [OF True] by linarith
  next
    case False
    then show ?thesis
      using gap [OF that] half(2) r unfolding v n hi if_not_P [OF False] by linarith
  qed
  have even_v: "even (round_nat k n)" if "fp_repr p w" "w \<noteq> ?v" "\<bar>real n - w\<bar> = \<bar>real n - ?v\<bar>" for w
  proof -
    have "2 * real r = 2 ^ k"
    proof (cases up)
      case True
      then show ?thesis
        using gap [OF that(1)] that(2,3) half(1) r unfolding v n hi if_P [OF True] by linarith
    next
      case False
      then show ?thesis
        using gap [OF that(1)] that(2,3) half(2) r unfolding v n hi if_not_P [OF False] by linarith
    qed
    then have "real (2 * r) = real (2 ^ k)"
      by simp
    then have "2 * r = 2 ^ k"
      by (simp only: of_nat_eq_iff)
    then show ?thesis
      by (auto simp: round_nat_def Let_def q_def r_def)
  qed
  have bounds: "2 ^ (p - 1) \<le> round_nat k n" "round_nat k n \<le> 2 ^ p"
    using assms(1,2) by (auto simp: round_nat_def Let_def)
  have m: "\<exists>m j :: int. ?v = real_of_int m * 2 powi j \<and> 2 ^ (p - 1) \<le> \<bar>m\<bar> \<and> \<bar>m\<bar> \<le> 2 ^ p \<and> even m"
    if "even (round_nat k n)"
    using that of_nat_mono [OF bounds(1), where 'a = int] of_nat_mono [OF bounds(2), where 'a = int]
    by (intro exI [of _ "int (round_nat k n)"] exI [of _ "int k"]) simp
  show ?thesis
    unfolding nearest_even_def using rep near even_v m v by (metis (full_types))
qed

section \<open>The sticky-bit rounding\<close>

text \<open>The value of \<^verbatim>\<open>a\<close> after the switch: the significand, the bit Q and the sticky bit R.\<close>

definition sticky :: "nat \<Rightarrow> nat \<Rightarrow> nat" where
  "sticky k n =
     (if k = 1 then 2 * n else if k = 2 then n
      else n div 2 ^ (k - 2) + of_bool (n mod 2 ^ (k - 2) \<noteq> 0 \<and> even (n div 2 ^ (k - 2))))"

lemma sticky_cases:
  fixes q c s W :: nat
  assumes "c < 4" and "s < W" and "t = 4 * q + c + of_bool (s \<noteq> 0 \<and> even c)"
  shows "(t + of_bool (odd (t div 4) \<and> even t) + 1) div 4 =
    (if 4 * W < 2 * (c * W + s) \<or> 4 * W = 2 * (c * W + s) \<and> odd q then q + 1 else q)"
proof -
  consider "c = 0" | "c = 1" | "c = 2" "s = 0" | "c = 2" "s \<noteq> 0" | "c = 3"
    using assms(1) by linarith
  then show ?thesis
  proof cases
    case 1
    then show ?thesis
      using assms(2,3) by (cases "s = 0"; cases "odd q") auto
  next
    case 2
    then show ?thesis
      using assms(2,3) by auto
  next
    case 3
    then have t: "t = 4 * q + 2" "t div 4 = q"
      using assms(3) by simp_all
    show ?thesis
      using assms(2) 3 unfolding t(2) by (cases "odd q") (simp_all add: t(1))
  next
    case 4
    then show ?thesis
      using assms(2,3) by auto
  next
    case 5
    then show ?thesis
      using assms(2,3) by auto
  qed
qed

lemma sticky_round:
  assumes "0 < k"
  shows "(sticky k n + of_bool (odd (sticky k n div 4) \<and> even (sticky k n)) + 1) div 4 = round_nat k n"
proof (cases "k = 1")
  case True
  have n: "n = 2 * (n div 2) + n mod 2" and m: "n mod 2 < 2"
    by simp_all
  obtain q r where q: "n div 2 = q" "n mod 2 = r" "n = 2 * q + r" "r = 0 \<or> r = 1"
    using n m by (metis less_2_cases_iff One_nat_def)
  then show ?thesis
    using True unfolding sticky_def round_nat_def Let_def by (cases "odd q") auto
next
  case False
  define W where "W = (2 :: nat) ^ (k - 2)"
  have k: "(2 :: nat) ^ k = 4 * W"
  proof -
    have "k = 2 + (k - 2)"
      using assms False by simp
    then have "(2 :: nat) ^ k = 2 ^ 2 * 2 ^ (k - 2)"
      by (metis power_add)
    then show ?thesis
      by (simp add: W_def)
  qed
  define q c s where "q = n div (4 * W)" and "c = n div W mod 4" and "s = n mod W"
  have W: "0 < W"
    by (simp add: W_def)
  have u: "n div W = 4 * q + c"
    using div_mult_mod_eq [of "n div W" 4] by (simp add: q_def c_def div_mult2_eq mult.commute)
  have "n = n div W * W + s"
    using div_mult_mod_eq [of n W] by (simp add: s_def)
  then have "n = q * (4 * W) + (c * W + s)"
    unfolding u by (simp add: algebra_simps)
  moreover have "c * W + s < 4 * W"
  proof -
    have "c \<le> 3" "s < W"
      using W by (auto simp: c_def s_def)
    then have "c * W \<le> 3 * W"
      by simp
    then show ?thesis
      using \<open>s < W\<close> by linarith
  qed
  ultimately have r: "n mod (4 * W) = c * W + s"
    by (metis mod_less mod_mult_self3)
  have st: "sticky k n = 4 * q + c + of_bool (s \<noteq> 0 \<and> even c)"
  proof (cases "k = 2")
    case True
    then have "W = 1"
      by (simp add: W_def)
    then show ?thesis
      using True u by (simp add: sticky_def s_def)
  next
    case False
    then show ?thesis
      using \<open>k \<noteq> 1\<close> unfolding sticky_def by (simp add: W_def [symmetric] u s_def)
  qed
  have "(sticky k n + of_bool (odd (sticky k n div 4) \<and> even (sticky k n)) + 1) div 4 =
      (if 4 * W < 2 * (c * W + s) \<or> 4 * W = 2 * (c * W + s) \<and> odd q then q + 1 else q)"
    by (rule sticky_cases [OF _ _ st]) (use W in \<open>simp_all add: c_def s_def\<close>)
  also have "\<dots> = round_nat k n"
    unfolding round_nat_def Let_def k r q_def by simp
  finally show ?thesis .
qed

lemma sticky_less:
  assumes "n < 2 ^ (p + k)" and "0 < k"
  shows "sticky k n < 2 ^ (p + 2)"
proof -
  consider "k = 1" | "k = 2" | "2 < k"
    using assms(2) by linarith
  then show ?thesis
  proof cases
    case 3
    have "p + k = (p + 2) + (k - 2)"
      using 3 by simp
    then have "n < 2 ^ (p + 2) * 2 ^ (k - 2)"
      using assms(1) by (metis power_add)
    then have u: "n div 2 ^ (k - 2) < 2 ^ (p + 2)"
      by (simp add: less_mult_imp_div_less)
    have "even ((2 :: nat) ^ (p + 2))"
      by simp
    then have "Suc (n div 2 ^ (k - 2)) < 2 ^ (p + 2)" if "even (n div 2 ^ (k - 2))"
      using u that by (metis Suc_lessI even_Suc)
    then show ?thesis
      using u 3 by (auto simp: sticky_def)
  qed (use assms in \<open>simp_all add: sticky_def\<close>)
qed

section \<open>Digits of words\<close>

lemma unat_or_bool: "unat (w OR of_bool P :: 'a::len word) = unat w + of_bool (P \<and> even (unat w))"
proof (cases P)
  case True
  have "unat (w OR 1) = unat w OR 1"
    using unsigned_or_eq [of w 1, where 'a = nat] by simp
  then show ?thesis
    using True by (simp only: of_bool_eq simp_thms or_one_eq [of "unat w"])
qed simp

lemma and_4_iff: "2 < LENGTH('a) \<Longrightarrow> (w :: 'a::len word) AND 4 \<noteq> 0 \<longleftrightarrow> odd (unat w div 4)"
proof -
  assume "2 < LENGTH('a)"
  have "w AND 4 = w AND push_bit 2 1"
    by simp
  also have "\<dots> \<noteq> 0 \<longleftrightarrow> bit w 2"
    by (simp only: bit_iff_and_push_bit_not_eq_0)
  also have "bit w 2 \<longleftrightarrow> odd (unat w div 4)"
    using bit_unat_odd [of w 2] by simp
  finally show ?thesis .
qed

lemma and_low_mask_iff:
  assumes "j \<le> LENGTH('a)"
  shows "(w :: 'a::len word) AND drop_bit (LENGTH('a) - j) (- 1) \<noteq> 0 \<longleftrightarrow> unat w mod 2 ^ j \<noteq> 0"
proof -
  have "drop_bit (LENGTH('a) - j) (- 1 :: 'a word) = mask j"
    using assms by (intro bit_word_eqI) (auto simp: bit_simps)
  moreover have "unat (w AND mask j) = unat w mod 2 ^ j"
    unfolding take_bit_eq_mask [symmetric] unsigned_take_bit_eq by (rule take_bit_eq_mod)
  ultimately show ?thesis
    by (metis unat_eq_0)
qed

lemma signed_drop_bit_small:
  assumes "unat (w :: 'a::len word) < 2 ^ (LENGTH('a) - 1)"
  shows "signed_drop_bit j w = drop_bit j w"
proof -
  have "\<not> bit w (LENGTH('a) - 1)"
    using assms by (simp add: bit_unat_odd)
  then show ?thesis
    by (intro bit_word_eqI) (auto simp: bit_simps not_less min_def dest: bit_imp_le_length)
qed

lemma unat_push_1: "unat w < 2 ^ (LENGTH('a) - 1) \<Longrightarrow> unat (push_bit 1 w :: 'a::len word) = 2 * unat w"
  using unat_push_bit_nowrap [of w 1] power_Suc [of "2 :: nat" "LENGTH('a) - 1"] by simp

lemma and_digit_iff:
  assumes "p < LENGTH('a)" and "unat (w :: 'a::len word) \<le> 2 ^ p"
  shows "w AND push_bit p 1 \<noteq> 0 \<longleftrightarrow> unat w = 2 ^ p"
proof -
  have "w AND push_bit p 1 \<noteq> 0 \<longleftrightarrow> bit w p"
    by (simp only: bit_iff_and_push_bit_not_eq_0)
  also have "\<dots> \<longleftrightarrow> odd (unat w div 2 ^ p)"
    by (rule bit_unat_odd)
  also have "\<dots> \<longleftrightarrow> unat w = 2 ^ p"
    using assms(2) by (cases "unat w = 2 ^ p") auto
  finally show ?thesis .
qed

lemma round_digits_shift:
  assumes "unat (a :: 'a::len word) < 2 ^ sd" and "p < sd" and "sd \<le> LENGTH('a)" and "p + 4 \<le> LENGTH('a)"
  defines "b \<equiv> (if sd = p + 1 then push_bit 1 a else if sd = p + 2 then a
      else drop_bit (sd - (p + 2)) a OR of_bool (a AND drop_bit (LENGTH('a) + p + 2 - sd) (- 1) \<noteq> 0))"
  shows "unat b = sticky (sd - p) (unat a)"
proof -
  consider "sd = p + 1" | "sd = p + 2" | "p + 2 < sd"
    using assms(2) by linarith
  then show ?thesis
  proof cases
    case 1
    have "unat a < 2 ^ (LENGTH('a) - 1)"
      using assms(1,4) 1 power_increasing [of sd "LENGTH('a) - 1" "2 :: nat"] by simp
    then have "unat (push_bit 1 a) = 2 * unat a"
      by (rule unat_push_1)
    moreover have "b = push_bit 1 a" "sd - p = 1"
      unfolding b_def using 1 by (simp_all only: if_True refl add_diff_cancel_left')
    ultimately show ?thesis
      by (simp only: sticky_def if_True simp_thms)
  next
    case 2
    then show ?thesis
      by (simp add: b_def sticky_def)
  next
    case 3
    define j where "j = sd - (p + 2)"
    have j: "sd - p - 2 = j" "LENGTH('a) + p + 2 - sd = LENGTH('a) - j" "j \<le> LENGTH('a)" "sd - p \<noteq> 1" "sd - p \<noteq> 2"
      "sd \<noteq> p + 1" "sd \<noteq> p + 2" "sd - (p + 2) = j"
      using 3 assms(3) by (auto simp: j_def)
    have "b = drop_bit j a OR of_bool (unat a mod 2 ^ j \<noteq> 0)"
      unfolding b_def j(2,8) and_low_mask_iff [OF j(3)] using j(6,7) by (simp only: if_False)
    then have "unat b = unat a div 2 ^ j + of_bool (unat a mod 2 ^ j \<noteq> 0 \<and> even (unat a div 2 ^ j))"
      by (simp only: unat_or_bool unat_drop_bit_div)
    then show ?thesis
      unfolding sticky_def j(1) using j(4,5) by (simp only: if_False)
  qed
qed

lemma round_digits_ok:
  fixes a :: "'a::len word"
  assumes "2 ^ (sd - 1) \<le> unat a" and "unat a < 2 ^ sd" and "sd \<le> LENGTH('a)" and "p + 4 \<le> LENGTH('a)" and "0 < p"
    and shr: "\<And>w j. unat w < 2 ^ (LENGTH('a) - 1) \<Longrightarrow> shr j w = drop_bit j w"
  shows "\<exists>m e. round_digits shr p a sd = (m, e) \<and> 2 ^ (p - 1) \<le> unat m \<and> unat m < 2 ^ p \<and>
    sd \<le> Suc e \<and> e \<le> sd \<and> (e = sd \<longrightarrow> unat m = 2 ^ (p - 1) \<and> p < sd) \<and>
    nearest_even p (real (unat a)) (real (unat m) * 2 powi (int e - int (p - 1)))"
proof (cases "p < sd")
  case False
  have sd: "0 < sd"
    using assms(1,2) by (cases sd) auto
  have lt: "unat a * 2 ^ (p - sd) < 2 ^ p"
    using assms(2) False power_add [of "2 :: nat" sd "p - sd"] by simp
  have "2 ^ p \<le> (2 :: nat) ^ LENGTH('a)"
    using assms(4) by (intro power_increasing) simp_all
  then have u: "unat (push_bit (p - sd) a) = unat a * 2 ^ (p - sd)"
    using lt by (intro unat_push_bit_nowrap) linarith
  have "(2 :: nat) ^ (p - 1) = 2 ^ (sd - 1) * 2 ^ (p - sd)"
    using False sd by (simp flip: power_add)
  also have "\<dots> \<le> unat a * 2 ^ (p - sd)"
    using assms(1) by (rule mult_le_mono1)
  finally have ge: "2 ^ (p - 1) \<le> unat (push_bit (p - sd) a)"
    by (simp only: u)
  have "(2 :: real) ^ (p - sd) * 2 powi (int (sd - 1) - int (p - 1)) = 2 powi (int (p - sd) + (int (sd - 1) - int (p - 1)))"
    by (simp add: power_int_add)
  also have "int (p - sd) + (int (sd - 1) - int (p - 1)) = 0"
    using False sd by simp
  finally have v: "real (unat (push_bit (p - sd) a)) * 2 powi (int (sd - 1) - int (p - 1)) = real (unat a)"
    unfolding u by (simp add: mult.assoc)
  have near: "nearest_even p (real (unat a)) (real (unat (push_bit (p - sd) a)) * 2 powi (int (sd - 1) - int (p - 1)))"
    using fp_repr_nat [OF lt [folded u], of "int (sd - 1) - int (p - 1)"] unfolding v by (rule nearest_even_exact)
  have e: "sd \<le> Suc (sd - 1)" "sd - 1 \<le> sd" "sd - 1 \<noteq> sd"
    using sd by simp_all
  have "round_digits shr p a sd = (push_bit (p - sd) a, sd - 1)"
    using False by (simp add: round_digits_def)
  then show ?thesis
    using ge lt [folded u] near e by blast
next
  case True
  define k where "k = sd - p"
  have k: "0 < k" "sd = p + k" "sd - 1 = p - 1 + k"
    using True assms(5) by (simp_all add: k_def)
  define b where "b = (if sd = p + 1 then push_bit 1 a else if sd = p + 2 then a
      else drop_bit (sd - (p + 2)) a OR of_bool (a AND drop_bit (LENGTH('a) + p + 2 - sd) (- 1) \<noteq> 0))"
  have b: "unat b = sticky k (unat a)"
    unfolding b_def k_def by (rule round_digits_shift [OF assms(2) True assms(3,4)])
  have b_less: "unat b < 2 ^ (p + 2)"
    unfolding b using assms(2) k(1,2) by (intro sticky_less) simp_all
  define c where "c = b OR of_bool (b AND 4 \<noteq> 0)"
  have c: "unat c = unat b + of_bool (odd (unat b div 4) \<and> even (unat b))"
    using assms(4) by (simp add: c_def unat_or_bool and_4_iff)
  have c_less: "unat c < 2 ^ (p + 2)"
    unfolding c using b_less by (auto intro: Suc_lessI)
  have big: "(2 :: nat) ^ (p + 3) \<le> 2 ^ (LENGTH('a) - 1)" "(2 :: nat) ^ (p + 3) < 2 ^ LENGTH('a)"
    using assms(4) by (auto intro: power_increasing power_strict_increasing)
  have c1: "unat c + 1 < 2 ^ (p + 3)"
    using c_less by (simp add: power_add)
  have d: "unat (c + 1) = unat c + 1"
    using less_trans [OF c1 big(2)] by (simp add: unat_word_ariths(1))
  have small: "unat (c + 1) < 2 ^ (LENGTH('a) - 1)"
    unfolding d by (rule less_le_trans [OF c1 big(1)])
  define m where "m = shr 2 (c + 1)"
  have m: "unat m = round_nat k (unat a)"
    unfolding m_def shr [OF small] unat_drop_bit_div d c b using sticky_round [OF k(1), of "unat a"] by simp
  have q: "2 ^ (p - 1) \<le> unat a div 2 ^ k" "unat a div 2 ^ k < 2 ^ p"
  proof -
    show "unat a div 2 ^ k < 2 ^ p"
      using assms(2) k(2) by (simp add: power_add less_mult_imp_div_less)
    have "2 ^ (p - 1) * 2 ^ k \<le> unat a"
      using assms(1) k(3) by (simp add: power_add)
    then show "2 ^ (p - 1) \<le> unat a div 2 ^ k"
      by (simp add: less_eq_div_iff_mult_less_eq)
  qed
  have mb: "2 ^ (p - 1) \<le> unat m" "unat m \<le> 2 ^ p"
    using q unfolding m by (auto simp: round_nat_def Let_def)
  have near: "nearest_even p (real (unat a)) (real (unat m) * 2 ^ k)"
    unfolding m using q assms(5) by (rule round_nat_nearest)
  have run: "round_digits shr p a sd = (if unat m = 2 ^ p then (shr 1 m, sd) else (m, sd - 1))"
  proof -
    have "m AND push_bit p 1 \<noteq> 0 \<longleftrightarrow> unat m = 2 ^ p"
      using assms(4) mb(2) by (intro and_digit_iff) simp_all
    then show ?thesis
      using True unfolding round_digits_def Let_def b_def [symmetric] c_def [symmetric] m_def [symmetric] by auto
  qed
  have e: "sd \<le> Suc (sd - 1)" "sd - 1 \<le> sd" "sd - 1 \<noteq> sd"
    using True by simp_all
  show ?thesis
  proof (cases "unat m = 2 ^ p")
    case False
    have "2 powi (int (sd - 1) - int (p - 1)) = (2 :: real) ^ k"
      unfolding k(3) by (simp add: power_int_def)
    with near have "nearest_even p (real (unat a)) (real (unat m) * 2 powi (int (sd - 1) - int (p - 1)))"
      by (simp only:)
    moreover have "round_digits shr p a sd = (m, sd - 1)"
      using run False by simp
    ultimately show ?thesis
      using False mb True e le_neq_trans [OF mb(2) False] by blast
  next
    case eq: True
    have "unat m < 2 ^ (LENGTH('a) - 1)"
      using eq assms(4) by (auto intro: power_strict_increasing)
    then have h: "unat (shr 1 m) = 2 ^ (p - 1)"
      using shr [of m 1] eq assms(5) by (cases p) (simp_all add: unat_drop_bit_div)
    have "int (p - 1) + (int sd - int (p - 1)) = int (p + k)"
      using k(2) by simp
    then have "2 powi int (p - 1) * 2 powi (int sd - int (p - 1)) = (2 :: real) powi int (p + k)"
      by (metis power_int_add zero_neq_numeral)
    then have "real (2 ^ (p - 1)) * 2 powi (int sd - int (p - 1)) = real (2 ^ p) * 2 ^ k"
      by (simp only: power_int_of_nat power_add of_nat_power of_nat_numeral)
    with near have "nearest_even p (real (unat a)) (real (unat (shr 1 m)) * 2 powi (int sd - int (p - 1)))"
      unfolding h eq by (simp only:)
    moreover have "round_digits shr p a sd = (shr 1 m, sd)"
      using run eq by simp
    moreover have "(2 :: nat) ^ (p - 1) < 2 ^ p"
      using assms(5) by (intro power_strict_increasing) simp_all
    ultimately show ?thesis
      using h True eq_imp_le [OF h [symmetric]] le_refl [of sd] le_SucI [OF le_refl, of sd] by metis
  qed
qed

section \<open>Patterns\<close>

lemma or_fields:
  fixes hi lo :: nat
  assumes "lo < 2 ^ k"
  shows "hi * 2 ^ k OR lo = hi * 2 ^ k + lo"
proof -
  have "hi * 2 ^ k AND lo = 0"
  proof (rule bit_eqI)
    fix n
    have "\<not> bit lo n" if "k \<le> n"
      using less_le_trans [OF assms power_increasing [OF that]] by (simp add: bit_iff_odd)
    moreover have "\<not> bit (hi * 2 ^ k) n" if "n < k"
      using that by (simp add: bit_push_bit_iff flip: push_bit_eq_mult)
    ultimately show "bit (hi * 2 ^ k AND lo) n \<longleftrightarrow> bit 0 n"
      unfolding bit_and_iff by (metis bit_0_eq bot_apply bot_bool_def not_le)
  qed
  then show ?thesis
    by (simp add: disjunctive_add_eq_or)
qed

lemma unat_or_fields:
  fixes hi lo :: "'a::len word"
  assumes "unat lo < 2 ^ k" and "2 ^ k dvd unat hi"
  shows "unat (hi OR lo) = unat hi + unat lo"
proof -
  obtain q where "unat hi = q * 2 ^ k"
    using assms(2) by (metis dvd_def mult.commute)
  then show ?thesis
    using or_fields [OF assms(1), of q] by (simp add: unsigned_or_eq)
qed

lemma unat_and_mask: "unat (w AND mask k :: 'a::len word) = unat w mod 2 ^ k"
  unfolding take_bit_eq_mask [symmetric] unsigned_take_bit_eq by (rule take_bit_eq_mod)

lemma fp_decode_normal:
  fixes r :: "'a::len word"
  assumes "LENGTH('a) = sb + eb + 1" and "unat r = of_bool s * 2 ^ (sb + eb) + (E * 2 ^ sb + F)"
    and "F < 2 ^ sb" and "0 < E" and "E < 2 ^ eb - 1"
  shows "fp_decode sb r =
    Finite (fp_sign s * (real (2 ^ sb + F) * 2 powi (int E - int (exponentBias LENGTH('a) sb) - int sb)))"
proof -
  have eb: "exponentBits LENGTH('a) sb = eb"
    using assms(1) by (simp add: exponentBits_def)
  have q: "unat r div 2 ^ sb = of_bool s * 2 ^ eb + E"
  proof -
    have "unat r = (of_bool s * 2 ^ eb + E) * 2 ^ sb + F"
      using assms(2) by (simp add: power_add algebra_simps)
    then show ?thesis
      using assms(3) by simp
  qed
  have m: "unat r mod 2 ^ sb = F"
  proof -
    have "unat r = F + (of_bool s * 2 ^ eb + E) * 2 ^ sb"
      using assms(2) by (simp add: power_add algebra_simps)
    then show ?thesis
      using assms(3) by simp
  qed
  have E: "(of_bool s * 2 ^ eb + E) mod 2 ^ eb = E"
    using assms(5) by (cases s) simp_all
  have "unat r div 2 ^ (sb + eb) = of_bool s"
  proof -
    have "unat r div 2 ^ (sb + eb) = (of_bool s * 2 ^ eb + E) div 2 ^ eb"
      by (simp add: power_add div_mult2_eq q)
    then show ?thesis
      using assms(5) by (cases s) simp_all
  qed
  then have s: "bit r (LENGTH('a) - 1) \<longleftrightarrow> s"
    using assms(1) by (simp add: bit_unat_odd)
  show ?thesis
    using assms(4,5) unfolding fp_decode_def Let_def q m E eb s maxExponent_def by simp
qed

text \<open>A normalised significand and its exponent, as the three unions store them.\<close>

lemma significand_split:
  fixes m sb :: nat
  assumes "2 ^ sb \<le> m" and "m < 2 ^ Suc sb"
  shows "2 ^ sb + m mod 2 ^ sb = m"
proof -
  have "m div 2 ^ sb = 1"
    using assms by (intro div_nat_eqI) simp_all
  then show ?thesis
    using div_mult_mod_eq [of m "2 ^ sb"] by simp
qed

lemma of_bool_field:
  fixes x :: nat
  assumes "x < 2 ^ k"
  shows "(of_bool s * 2 ^ k + x) div 2 ^ k = of_bool s" and "(of_bool s * 2 ^ k + x) mod 2 ^ k = x"
  using assms by (cases s; simp)+

lemma high_low_fields:
  "(c * 2 ^ K + (E * 2 ^ k + h)) * 2 ^ w + l = c * 2 ^ (K + w) + (E * 2 ^ (k + w) + (h * 2 ^ w + l :: nat))"
  by (simp add: power_add algebra_simps)

lemma fp_decode_pattern:
  fixes r :: "'a::len word"
  assumes "LENGTH('a) = sb + eb + 1" and "unat r = of_bool s * 2 ^ (sb + eb) + ((e + b) * 2 ^ sb + m mod 2 ^ sb)"
    and "2 ^ sb \<le> m" and "m < 2 ^ Suc sb" and "b = exponentBias LENGTH('a) sb" and "0 < b" and "e + b < 2 ^ eb - 1"
  shows "fp_decode sb r = Finite (fp_sign s * (real m * 2 powi (int e - int sb)))"
  using fp_decode_normal [OF assms(1,2), unfolded significand_split [OF assms(3,4)]] assms(5-7) by simp

lemma unat_pattern:
  fixes sg E f :: "'a::len word"
  assumes "unat sg = of_bool s * 2 ^ K" and "unat f < 2 ^ k" and "unat E * 2 ^ k + unat f < 2 ^ K" and "K < LENGTH('a)"
  shows "unat (sg OR push_bit k E OR f) = of_bool s * 2 ^ K + (unat E * 2 ^ k + unat f)"
proof -
  have "(2 :: nat) ^ K < 2 ^ LENGTH('a)"
    using assms(4) by (intro power_strict_increasing) simp_all
  then have "unat (push_bit k E) = unat E * 2 ^ k"
    using assms(3) by (intro unat_push_bit_nowrap) linarith
  then have u: "unat (push_bit k E OR f) = unat E * 2 ^ k + unat f"
    using unat_or_fields [OF assms(2), of "push_bit k E"] by simp
  then show ?thesis
    using unat_or_fields [of "push_bit k E OR f" K sg] assms(1,3) by simp
qed

lemma float_bits_ok:
  fixes m :: "'a::len word"
  assumes "32 \<le> LENGTH('a)" and "2 ^ 23 \<le> unat m" and "unat m < 2 ^ 24" and "e < 128"
  shows "fp_decode 23 (float_bits (if s then 0x80000000 else 0) e (ucast m)) =
    Finite (fp_sign s * (real (unat m) * 2 powi (int e - 23)))"
proof -
  have u: "unat (ucast m :: u32) = unat m"
    using assms(3) by (simp add: unsigned_ucast_eq take_bit_eq_mod)
  have f: "unat ((ucast m :: u32) AND 0x007FFFFF) = unat m mod 2 ^ 23"
    using unat_and_mask [of "ucast m :: u32" 23] by (simp add: mask_eq_exp_minus_1 u)
  have E: "unat (word_of_nat (e + 127) :: u32) = e + 127"
    using assms(4) by (intro unat_of_nat_small) simp
  define sg :: u32 where "sg = (if s then 0x80000000 else 0)"
  have "(e + 127) * 2 ^ 23 + unat m mod 2 ^ 23 < 2 ^ 31"
    using assms(4) mod_less_divisor [of "2 ^ 23" "unat m"] by simp
  then have "unat (float_bits sg e (ucast m)) = of_bool s * 2 ^ (23 + 8) + ((e + 127) * 2 ^ 23 + unat m mod 2 ^ 23)"
    unfolding float_bits_def
    using unat_pattern [of sg s 31 "ucast m AND 0x007FFFFF" 23 "word_of_nat (e + 127)"]
    unfolding f E by (simp add: sg_def)
  from fp_decode_pattern [OF _ this, unfolded sg_def] show ?thesis
    using assms(2-4) by (simp add: exponentBias_def maxExponent_def exponentBits_def)
qed

lemma double_bits_ok:
  fixes m hi :: "'a::len word"
  assumes "64 \<le> LENGTH('a)" and "2 ^ 52 \<le> unat m" and "unat m < 2 ^ 53" and "e < 1024" and "unat hi = unat m div 2 ^ 32"
  shows "fp_decode 52 (double_bits (if s then 0x80000000 else 0) e (ucast hi) (ucast m)) =
    Finite (fp_sign s * (real (unat m) * 2 powi (int e - 52)))"
proof -
  have h: "unat (ucast hi :: u32) = unat m div 2 ^ 32"
    using assms(3,5) by (simp add: unsigned_ucast_eq take_bit_eq_mod)
  have l: "unat (ucast m :: u32) = unat m mod 2 ^ 32"
    by (simp add: unsigned_ucast_eq take_bit_eq_mod)
  have f: "unat ((ucast hi :: u32) AND 0x000FFFFF) = unat m div 2 ^ 32 mod 2 ^ 20"
    using unat_and_mask [of "ucast hi :: u32" 20] by (simp add: mask_eq_exp_minus_1 h)
  have E: "unat (word_of_nat (e + 1023) :: u32) = e + 1023"
    using assms(4) by (intro unat_of_nat_small) simp
  define sg :: u32 where "sg = (if s then 0x80000000 else 0)"
  have "(e + 1023) * 2 ^ 20 + unat m div 2 ^ 32 mod 2 ^ 20 < 2 ^ 31"
    using assms(4) mod_less_divisor [of "2 ^ 20" "unat m div 2 ^ 32"] by simp
  then have hi: "unat (sg OR push_bit 20 (word_of_nat (e + 1023)) OR (ucast hi AND 0x000FFFFF)) =
      of_bool s * 2 ^ 31 + ((e + 1023) * 2 ^ 20 + unat m div 2 ^ 32 mod 2 ^ 20)"
    using unat_pattern [of sg s 31 "ucast hi AND 0x000FFFFF" 20 "word_of_nat (e + 1023)"]
    unfolding f E by (simp add: sg_def)
  have "unat m div 2 ^ 32 mod 2 ^ 20 * 2 ^ 32 + unat m mod 2 ^ 32 = unat m mod 2 ^ 52"
    using mod_mult2_eq [of "unat m" "2 ^ 32" "2 ^ 20"] by simp
  moreover have "(31 :: nat) + 32 = 52 + 11" "(20 :: nat) + 32 = 52" "LENGTH(32) = 32"
    by simp_all
  ultimately have "unat (double_bits sg e (ucast hi) (ucast m)) = of_bool s * 2 ^ (52 + 11) + ((e + 1023) * 2 ^ 52 + unat m mod 2 ^ 52)"
    unfolding double_bits_def unat_make_tu hi l by (simp only: high_low_fields)
  from fp_decode_pattern [OF _ this, unfolded sg_def] show ?thesis
    using assms(2-4) by (simp add: exponentBias_def maxExponent_def exponentBits_def)
qed

lemma quad_bits_ok:
  fixes m hi :: u128
  assumes "2 ^ 112 \<le> unat m" and "unat m < 2 ^ 113" and "e < 16384" and "unat hi = unat m div 2 ^ 64"
  shows "fp_decode 112 (quad_bits (if s then 0x8000000000000000 else 0) e (ucast hi) (ucast m)) =
    Finite (fp_sign s * (real (unat m) * 2 powi (int e - 112)))"
proof -
  have h: "unat (ucast hi :: u64) = unat m div 2 ^ 64"
    using assms(2,4) by (simp add: unsigned_ucast_eq take_bit_eq_mod)
  have l: "unat (ucast m :: u64) = unat m mod 2 ^ 64"
    by (simp add: unsigned_ucast_eq take_bit_eq_mod)
  have f: "unat ((ucast hi :: u64) AND 0x0000ffffffffffff) = unat m div 2 ^ 64 mod 2 ^ 48"
    using unat_and_mask [of "ucast hi :: u64" 48] by (simp add: mask_eq_exp_minus_1 h)
  have E: "unat (word_of_nat (e + 16383) :: u64) = e + 16383"
    using assms(3) by (intro unat_of_nat_small) simp
  define sg :: u64 where "sg = (if s then 0x8000000000000000 else 0)"
  have "(e + 16383) * 2 ^ 48 + unat m div 2 ^ 64 mod 2 ^ 48 < 2 ^ 63"
    using assms(3) mod_less_divisor [of "2 ^ 48" "unat m div 2 ^ 64"] by simp
  then have hi: "unat (sg OR push_bit 48 (word_of_nat (e + 16383)) OR (ucast hi AND 0x0000ffffffffffff)) =
      of_bool s * 2 ^ 63 + ((e + 16383) * 2 ^ 48 + unat m div 2 ^ 64 mod 2 ^ 48)"
    using unat_pattern [of sg s 63 "ucast hi AND 0x0000ffffffffffff" 48 "word_of_nat (e + 16383)"]
    unfolding f E by (simp add: sg_def)
  have "unat m div 2 ^ 64 mod 2 ^ 48 * 2 ^ 64 + unat m mod 2 ^ 64 = unat m mod 2 ^ 112"
    using mod_mult2_eq [of "unat m" "2 ^ 64" "2 ^ 48"] by simp
  moreover have "(63 :: nat) + 64 = 112 + 15" "(48 :: nat) + 64 = 112" "LENGTH(64) = 64"
    by simp_all
  ultimately have "unat (quad_bits sg e (ucast hi) (ucast m)) = of_bool s * 2 ^ (112 + 15) + ((e + 16383) * 2 ^ 112 + unat m mod 2 ^ 112)"
    unfolding quad_bits_def unat_make_tu hi l by (simp only: high_low_fields)
  from fp_decode_pattern [OF _ this, unfolded sg_def] show ?thesis
    using assms(1-3) by (simp add: exponentBias_def maxExponent_def exponentBits_def)
qed

lemma xf_bits_ok:
  fixes m :: "'a::len word"
  assumes "64 \<le> LENGTH('a)" and "2 ^ 63 \<le> unat m" and "unat m < 2 ^ 64" and "e < 16384"
  shows "xf_decode \<lparr>xf_high = (if s then 0x8000 else 0) OR word_of_nat (e + 16383), xf_low = ucast m\<rparr> =
    Finite (fp_sign s * (real (unat m) * 2 powi (int e - 63)))"
proof -
  have l: "unat (ucast m :: u64) = unat m"
    using assms(3) by (simp add: unsigned_ucast_eq take_bit_eq_mod)
  have E: "unat (word_of_nat (e + 16383) :: u32) = e + 16383"
    using assms(4) by (intro unat_of_nat_small) simp
  define h :: u32 where "h = (if s then 0x8000 else 0) OR word_of_nat (e + 16383)"
  have h: "unat h = of_bool s * 2 ^ 15 + (e + 16383)"
    unfolding h_def using unat_or_fields [of "word_of_nat (e + 16383) :: u32" 15 "if s then 0x8000 else 0"] assms(4)
    unfolding E by simp
  have b: "bit h 15 \<longleftrightarrow> s" and m: "unat h mod 2 ^ 15 = e + 16383"
  proof -
    have "e + 16383 < 2 ^ 15"
      using assms(4) by simp
    from of_bool_field [OF this] show "bit h 15 \<longleftrightarrow> s" "unat h mod 2 ^ 15 = e + 16383"
      unfolding bit_unat_odd h by (simp_all only: odd_of_bool_self)
  qed
  have n: "e + 16383 \<noteq> 32767" "e + 16383 \<noteq> 0" "int (e + 16383) - 16383 - 63 = int e - 63"
    using assms(4) by simp_all
  show ?thesis
    unfolding xf_decode_def Let_def h_def [symmetric] xf_bits.select_convs b m l n(3) if_not_P [OF n(1)] if_not_P [OF n(2)]
    by (simp only: mult.assoc)
qed

section \<open>The conversions are correctly rounded\<close>

lemma split_sign_ok:
  fixes a :: "'a::len word"
  shows "split_sign a = (if sint a < 0 then - 1 else 0, if sint a < 0 then - a else a)"
proof -
  have s: "signed_drop_bit (LENGTH('a) - 1) a = (if sint a < 0 then - 1 else 0)"
    using signed_drop_bit_sign [of a] by (simp add: sign_bit_iff)
  have "(a XOR - 1) - - 1 = - a" "(a XOR 0) - 0 = a"
    by (simp_all add: minus_eq_not_plus_1 [of a])
  then show ?thesis
    unfolding split_sign_def s Let_def by (cases "sint a < 0") (simp_all only: if_True if_False)
qed

lemma unat_magnitude: "unat (if sint a < 0 then - a else a :: 'a::len word) = nat \<bar>sint a\<bar>"
proof (cases "sint a < 0")
  case True
  then have u: "sint a = uint a - 2 ^ LENGTH('a)" "uint a \<noteq> 0"
    using sint_eq_if [of a] by (auto split: if_splits)
  then have "uint (- a) = 2 ^ LENGTH('a) - uint a"
    using uint_lt_2p [of a] by (simp add: uint_word_ariths(4) zmod_zminus1_eq_if)
  moreover have "int (nat \<bar>sint a\<bar>) = - sint a" "int (unat (- a)) = uint (- a)"
    using True by simp_all
  ultimately have "int (unat (- a)) = int (nat \<bar>sint a\<bar>)"
    using u(1) by linarith
  then show ?thesis
    using True by (simp only: of_nat_eq_iff if_True)
next
  case False
  then have "sint a = uint a"
    using sint_eq_if [of a] uint_lt_2p [of a] by (auto split: if_splits)
  then have "int (unat a) = int (nat \<bar>sint a\<bar>)"
    by simp
  then show ?thesis
    using False by (simp only: of_nat_eq_iff if_False)
qed

lemma nearest_signed:
  assumes "nearest_even p (real (nat \<bar>i\<bar>)) v"
  shows "nearest_even p (real_of_int i) (fp_sign (i < 0) * v)"
proof (cases "i < 0")
  case True
  then have "real (nat \<bar>i\<bar>) = - real_of_int i"
    by simp
  then show ?thesis
    using nearest_even_uminus [OF assms] True by (simp add: fp_sign_def)
next
  case False
  then show ?thesis
    using assms by (simp add: fp_sign_def)
qed

lemma nearest_zero: "nearest_even p 0 0"
  by (rule nearest_even_exact) (auto simp: fp_repr_def)

lemma fp_decode_0:
  assumes "LENGTH('a) = sb + eb + 1" and "1 < eb"
  shows "fp_decode sb (0 :: 'a::len word) = Finite 0"
proof -
  have "(2 :: nat) ^ 1 < 2 ^ eb"
    using assms(2) by (intro power_strict_increasing) simp_all
  then show ?thesis
    using assms(1) by (simp add: fp_decode_def Let_def maxExponent_def exponentBits_def)
qed

text \<open>The two algorithms' common part, for any width.\<close>

lemma round_clz_ok:
  fixes a :: "'a::len word"
  assumes "a \<noteq> 0" and "p + 4 \<le> LENGTH('a)" and "0 < p"
    and "\<And>w j. unat w < 2 ^ (LENGTH('a) - 1) \<Longrightarrow> shr j w = drop_bit j w"
  shows "\<exists>m e. round_digits shr p a (LENGTH('a) - builtin_clz a) = (m, e) \<and> 2 ^ (p - 1) \<le> unat m \<and> unat m < 2 ^ p \<and>
    e \<le> LENGTH('a) \<and> (e = LENGTH('a) \<longrightarrow> unat m = 2 ^ (p - 1)) \<and>
    nearest_even p (real (unat a)) (real (unat m) * 2 powi (int e - int (p - 1)))"
proof -
  note b = builtin_clz_bounds [OF assms(1)]
  have "LENGTH('a) - builtin_clz a - 1 = LENGTH('a) - Suc (builtin_clz a)"
    by simp
  with b(2) have lo: "2 ^ (LENGTH('a) - builtin_clz a - 1) \<le> unat a"
    by simp
  obtain m e where "round_digits shr p a (LENGTH('a) - builtin_clz a) = (m, e)" "2 ^ (p - 1) \<le> unat m" "unat m < 2 ^ p"
    "e \<le> LENGTH('a) - builtin_clz a" "e = LENGTH('a) - builtin_clz a \<longrightarrow> unat m = 2 ^ (p - 1) \<and> p < LENGTH('a) - builtin_clz a"
    "nearest_even p (real (unat a)) (real (unat m) * 2 powi (int e - int (p - 1)))"
    using round_digits_ok [OF lo b(3) diff_le_self assms(2-4)] by blast
  moreover from this(4) have "e \<le> LENGTH('a)" "e = LENGTH('a) \<Longrightarrow> e = LENGTH('a) - builtin_clz a"
    by linarith+
  ultimately show ?thesis
    by blast
qed

lemma clz_128: "a \<noteq> 0 \<Longrightarrow> unat (clzti2 a) = builtin_clz a"
proof -
  assume a: "a \<noteq> 0"
  have "builtin_clz a < 128"
    using builtin_clz_bounds(1) [OF a] by simp
  then show ?thesis
    unfolding clzti2_def clzXi2_correct [OF a] by (intro unat_of_nat_small) simp
qed

lemma magnitude_nonzero: "a \<noteq> 0 \<Longrightarrow> (if sint a < 0 then - a else a :: 'a::len word) \<noteq> 0"
  by simp

lemma int_minus_numerals: "int (24 - 1) = 23" "int (53 - 1) = 52" "int (113 - 1) = 112" "int (64 - 1) = 63"
  by simp_all

lemma float_sign_mask:
  "ucast (if b then - 1 else 0 :: 'a::len word) AND 0x80000000 = (if b then 0x80000000 else 0 :: u32)" if "32 \<le> LENGTH('a)"
  using that by (auto intro!: bit_word_eqI simp: bit_simps)

lemma unsigned_to_float:
  fixes a :: "'a::len word"
  assumes "a \<noteq> 0" and "64 \<le> LENGTH('a)" and "LENGTH('a) < 128" and "round_digits drop_bit 24 a (LENGTH('a) - builtin_clz a) = (m, e)"
  shows "\<exists>v. fp_decode 23 (float_bits 0 e (ucast m)) = Finite v \<and> nearest_even 24 (real (unat a)) v"
proof -
  have r: "2 ^ 23 \<le> unat m" "unat m < 2 ^ 24" "e \<le> LENGTH('a)"
    "nearest_even 24 (real (unat a)) (real (unat m) * 2 powi (int e - int (24 - 1)))"
    using round_clz_ok [OF assms(1), of 24 drop_bit] assms(2,4) by auto
  have "fp_decode 23 (float_bits 0 e (ucast m)) = Finite (fp_sign False * (real (unat m) * 2 powi (int e - 23)))"
    using float_bits_ok [of m e False] r(1-3) assms(2,3) by simp
  then show ?thesis
    using r(4) unfolding int_minus_numerals by (simp add: fp_sign_def)
qed

lemma signed_to_float:
  fixes a :: "'a::len word"
  assumes "a \<noteq> 0" and "64 \<le> LENGTH('a)" and "LENGTH('a) \<le> 128"
    and "round_digits signed_drop_bit 24 (if sint a < 0 then - a else a)
      (LENGTH('a) - builtin_clz (if sint a < 0 then - a else a)) = (m, e)"
  shows "\<exists>v. fp_decode 23 (float_bits (ucast (if sint a < 0 then - 1 else 0 :: 'a word) AND 0x80000000) e (ucast m)) = Finite v \<and>
    nearest_even 24 (real_of_int (sint a)) v"
proof -
  let ?a = "if sint a < 0 then - a else a"
  have r: "2 ^ 23 \<le> unat m" "unat m < 2 ^ 24" "e \<le> LENGTH('a)" "e = LENGTH('a) \<longrightarrow> unat m = 2 ^ 23"
    "nearest_even 24 (real (nat \<bar>sint a\<bar>)) (real (unat m) * 2 powi (int e - int (24 - 1)))"
    using round_clz_ok [OF magnitude_nonzero [OF assms(1)], of 24 signed_drop_bit] assms(2,4)
    unfolding unat_magnitude by (auto simp: signed_drop_bit_small)
  have "e < 128"
  proof (rule ccontr)
    assume "\<not> e < 128"
    then have e: "e = 128" "LENGTH('a) = 128" "unat m = 2 ^ 23"
      using r(3,4) assms(3) by auto
    have "nat \<bar>sint a\<bar> \<le> 2 ^ 127"
      using sint_greater_eq [of a] sint_less [of a] e(2) by (simp add: nat_le_iff abs_if)
    have "fp_repr 24 (2 ^ 127)"
      using fp_repr_nat [of 1 24 127] by simp
    then have "\<bar>real (nat \<bar>sint a\<bar>) - real (2 ^ 23) * 2 powi (int 128 - int (24 - 1))\<bar> \<le> \<bar>real (nat \<bar>sint a\<bar>) - 2 ^ 127\<bar>"
      using r(5) unfolding e nearest_even_def by blast
    moreover have "real (2 ^ 23) * 2 powi (int 128 - int (24 - 1)) = 2 * 2 ^ 127"
      by simp
    moreover have "real (nat \<bar>sint a\<bar>) \<le> 2 ^ 127"
      using of_nat_mono [OF \<open>nat \<bar>sint a\<bar> \<le> 2 ^ 127\<close>, where 'a = real] by simp
    ultimately show False
      by (simp add: abs_if split: if_splits)
  qed
  then have "fp_decode 23 (float_bits (if sint a < 0 then 0x80000000 else 0) e (ucast m)) =
      Finite (fp_sign (sint a < 0) * (real (unat m) * 2 powi (int e - 23)))"
    using float_bits_ok [of m e "sint a < 0"] r(1,2) assms(2) by simp
  then show ?thesis
    using nearest_signed [OF r(5)] assms(2) unfolding int_minus_numerals by (simp add: float_sign_mask)
qed

lemma unsigned_to_double:
  fixes a :: "'a::len word"
  assumes "a \<noteq> 0" and "64 \<le> LENGTH('a)" and "LENGTH('a) \<le> 128" and "round_digits drop_bit 53 a (LENGTH('a) - builtin_clz a) = (m, e)"
  shows "\<exists>v. fp_decode 52 (double_bits 0 e (ucast (drop_bit 32 m)) (ucast m)) = Finite v \<and> nearest_even 53 (real (unat a)) v"
proof -
  have r: "2 ^ 52 \<le> unat m" "unat m < 2 ^ 53" "e \<le> LENGTH('a)"
    "nearest_even 53 (real (unat a)) (real (unat m) * 2 powi (int e - int (53 - 1)))"
    using round_clz_ok [OF assms(1), of 53 drop_bit] assms(2,4) by auto
  have "fp_decode 52 (double_bits 0 e (ucast (drop_bit 32 m)) (ucast m)) = Finite (fp_sign False * (real (unat m) * 2 powi (int e - 52)))"
    using double_bits_ok [of m e "drop_bit 32 m" False] r(1-3) assms(2,3) by (simp add: unat_drop_bit_div)
  then show ?thesis
    using r(4) unfolding int_minus_numerals by (simp add: fp_sign_def)
qed

lemma signed_to_double:
  fixes a :: "'a::len word"
  assumes "a \<noteq> 0" and "64 \<le> LENGTH('a)" and "LENGTH('a) \<le> 128"
    and "round_digits signed_drop_bit 53 (if sint a < 0 then - a else a)
      (LENGTH('a) - builtin_clz (if sint a < 0 then - a else a)) = (m, e)"
  shows "\<exists>v. fp_decode 52 (double_bits (ucast (if sint a < 0 then - 1 else 0 :: 'a word) AND 0x80000000) e
      (ucast (signed_drop_bit 32 m)) (ucast m)) = Finite v \<and> nearest_even 53 (real_of_int (sint a)) v"
proof -
  have r: "2 ^ 52 \<le> unat m" "unat m < 2 ^ 53" "e \<le> LENGTH('a)"
    "nearest_even 53 (real (nat \<bar>sint a\<bar>)) (real (unat m) * 2 powi (int e - int (53 - 1)))"
    using round_clz_ok [OF magnitude_nonzero [OF assms(1)], of 53 signed_drop_bit] assms(2,4)
    unfolding unat_magnitude by (auto simp: signed_drop_bit_small)
  have "(2 :: nat) ^ 53 \<le> 2 ^ (LENGTH('a) - 1)"
    using assms(2) by (intro power_increasing) simp_all
  then have "unat (signed_drop_bit 32 m) = unat m div 2 ^ 32"
    using r(2) signed_drop_bit_small [of m 32] by (simp add: unat_drop_bit_div)
  then have "fp_decode 52 (double_bits (if sint a < 0 then 0x80000000 else 0) e (ucast (signed_drop_bit 32 m)) (ucast m)) =
      Finite (fp_sign (sint a < 0) * (real (unat m) * 2 powi (int e - 52)))"
    using double_bits_ok [of m e "signed_drop_bit 32 m" "sint a < 0"] r(1-3) assms(2,3) by simp
  then show ?thesis
    using nearest_signed [OF r(4)] assms(2) unfolding int_minus_numerals by (simp add: float_sign_mask)
qed

lemma quad_sign_mask:
  "ucast (if b then - 1 else 0 :: u128) AND 0x8000000000000000 = (if b then 0x8000000000000000 else 0 :: u64)"
  by (auto intro!: bit_word_eqI simp: bit_simps)

lemma xf_sign_mask:
  "ucast (if b then - 1 else 0 :: 'a::len word) AND 0x8000 = (if b then 0x8000 else 0 :: u32)" if "32 \<le> LENGTH('a)"
  using that by (auto intro!: bit_word_eqI simp: bit_simps)

lemma unsigned_to_quad:
  assumes "(a :: u128) \<noteq> 0" and "round_digits drop_bit 113 a (128 - builtin_clz a) = (m, e)"
  shows "\<exists>v. fp_decode 112 (quad_bits 0 e (ucast (drop_bit 64 m)) (ucast m)) = Finite v \<and> nearest_even 113 (real (unat a)) v"
proof -
  have r: "2 ^ 112 \<le> unat m" "unat m < 2 ^ 113" "e \<le> 128"
    "nearest_even 113 (real (unat a)) (real (unat m) * 2 powi (int e - int (113 - 1)))"
    using round_clz_ok [OF assms(1), of 113 drop_bit] assms(2) by auto
  have "fp_decode 112 (quad_bits 0 e (ucast (drop_bit 64 m)) (ucast m)) = Finite (fp_sign False * (real (unat m) * 2 powi (int e - 112)))"
    using quad_bits_ok [of m e "drop_bit 64 m" False] r(1-3) by (simp add: unat_drop_bit_div)
  then show ?thesis
    using r(4) unfolding int_minus_numerals by (simp add: fp_sign_def)
qed

lemma signed_to_quad:
  assumes "(a :: u128) \<noteq> 0"
    and "round_digits signed_drop_bit 113 (if sint a < 0 then - a else a)
      (128 - builtin_clz (if sint a < 0 then - a else a)) = (m, e)"
  shows "\<exists>v. fp_decode 112 (quad_bits (ucast (if sint a < 0 then - 1 else 0 :: u128) AND 0x8000000000000000) e
      (ucast (signed_drop_bit 64 m)) (ucast m)) = Finite v \<and> nearest_even 113 (real_of_int (sint a)) v"
proof -
  have r: "2 ^ 112 \<le> unat m" "unat m < 2 ^ 113" "e \<le> 128"
    "nearest_even 113 (real (nat \<bar>sint a\<bar>)) (real (unat m) * 2 powi (int e - int (113 - 1)))"
    using round_clz_ok [OF magnitude_nonzero [OF assms(1)], of 113 signed_drop_bit] assms(2)
    unfolding unat_magnitude by (auto simp: signed_drop_bit_small)
  have "unat (signed_drop_bit 64 m) = unat m div 2 ^ 64"
    using r(2) signed_drop_bit_small [of m 64] by (simp add: unat_drop_bit_div)
  then have "fp_decode 112 (quad_bits (if sint a < 0 then 0x8000000000000000 else 0) e (ucast (signed_drop_bit 64 m)) (ucast m)) =
      Finite (fp_sign (sint a < 0) * (real (unat m) * 2 powi (int e - 112)))"
    using quad_bits_ok [of m e "signed_drop_bit 64 m" "sint a < 0"] r(1-3) by simp
  then show ?thesis
    using nearest_signed [OF r(4)] unfolding int_minus_numerals quad_sign_mask by auto
qed

lemma unsigned_to_xf:
  assumes "(a :: u128) \<noteq> 0" and "round_digits drop_bit 64 a (128 - builtin_clz a) = (m, e)"
  shows "\<exists>v. xf_decode \<lparr>xf_high = word_of_nat (e + 16383), xf_low = ucast m\<rparr> = Finite v \<and> nearest_even 64 (real (unat a)) v"
proof -
  have r: "2 ^ 63 \<le> unat m" "unat m < 2 ^ 64" "e \<le> 128"
    "nearest_even 64 (real (unat a)) (real (unat m) * 2 powi (int e - int (64 - 1)))"
    using round_clz_ok [OF assms(1), of 64 drop_bit] assms(2) by auto
  have "e < 16384" "64 \<le> LENGTH(128)"
    using r(3) by simp_all
  from xf_bits_ok [OF this(2) r(1,2) this(1), of False]
  have "xf_decode \<lparr>xf_high = word_of_nat (e + 16383), xf_low = ucast m\<rparr> = Finite (fp_sign False * (real (unat m) * 2 powi (int e - 63)))"
    by (simp only: if_False or.left_neutral)
  then show ?thesis
    using r(4) unfolding int_minus_numerals by (simp only: fp_sign_def if_False mult_1 fp_value.inject) blast
qed

lemma signed_to_xf:
  assumes "(a :: u128) \<noteq> 0"
    and "round_digits signed_drop_bit 64 (if sint a < 0 then - a else a)
      (128 - builtin_clz (if sint a < 0 then - a else a)) = (m, e)"
  shows "\<exists>v. xf_decode \<lparr>xf_high = (ucast (if sint a < 0 then - 1 else 0 :: u128) AND 0x8000) OR word_of_nat (e + 16383),
      xf_low = ucast m\<rparr> = Finite v \<and> nearest_even 64 (real_of_int (sint a)) v"
proof -
  have r: "2 ^ 63 \<le> unat m" "unat m < 2 ^ 64" "e \<le> 128"
    "nearest_even 64 (real (nat \<bar>sint a\<bar>)) (real (unat m) * 2 powi (int e - int (64 - 1)))"
    using round_clz_ok [OF magnitude_nonzero [OF assms(1)], of 64 signed_drop_bit] assms(2)
    unfolding unat_magnitude by (auto simp: signed_drop_bit_small)
  have b: "e < 16384" "64 \<le> LENGTH(128)" "32 \<le> LENGTH(128)"
    using r(3) by simp_all
  show ?thesis
    using xf_bits_ok [OF b(2) r(1,2) b(1), of "sint a < 0"] nearest_signed [OF r(4)]
    unfolding int_minus_numerals xf_sign_mask [OF b(3)] by blast
qed

text \<open>A 64-bit integer fits the 80-bit format exactly.\<close>

lemma exact_to_xf:
  assumes "(a :: u64) \<noteq> 0"
  shows "2 ^ 63 \<le> unat (push_bit (builtin_clz a) a)" and "unat (push_bit (builtin_clz a) a) < 2 ^ 64"
    and "real (unat (push_bit (builtin_clz a) a)) * 2 powi (int (63 - builtin_clz a) - 63) = real (unat a)"
proof -
  define k where "k = builtin_clz a"
  have b: "k < 64" "2 ^ (64 - Suc k) \<le> unat a" "unat a < 2 ^ (64 - k)"
    using builtin_clz_bounds [OF assms] by (simp_all add: k_def)
  have p: "(2 :: nat) ^ (64 - Suc k) * 2 ^ k = 2 ^ 63" "(2 :: nat) ^ (64 - k) * 2 ^ k = 2 ^ 64"
    using b(1) by (simp_all flip: power_add)
  have "unat a * 2 ^ k < 2 ^ (64 - k) * 2 ^ k" "2 ^ (64 - Suc k) * 2 ^ k \<le> unat a * 2 ^ k"
    using b(2,3) by simp_all
  then have lt: "unat a * 2 ^ k < 2 ^ 64" and ge: "2 ^ 63 \<le> unat a * 2 ^ k"
    by (simp_all only: p)
  have u: "unat (push_bit k a) = unat a * 2 ^ k"
    using lt by (intro unat_push_bit_nowrap) simp
  show "2 ^ 63 \<le> unat (push_bit (builtin_clz a) a)" "unat (push_bit (builtin_clz a) a) < 2 ^ 64"
    using lt ge u by (simp_all add: k_def)
  have "int (63 - k) - 63 = - int k"
    using b(1) by simp
  then show "real (unat (push_bit (builtin_clz a) a)) * 2 powi (int (63 - builtin_clz a) - 63) = real (unat a)"
    unfolding k_def [symmetric] u by (simp add: power_int_minus)
qed

text \<open>The pattern stands for the finite number nearest to \<open>x\<close>, ties to even.\<close>

definition rounded :: "nat \<Rightarrow> real \<Rightarrow> fp_value \<Rightarrow> bool" where
  "rounded p x r \<longleftrightarrow> (\<exists>v. r = Finite v \<and> nearest_even p x v)"

lemma rounded_0: "rounded p 0 (Finite 0)"
  using nearest_zero by (auto simp: rounded_def)

lemma xf_decode_0: "xf_decode \<lparr>xf_high = 0, xf_low = 0\<rparr> = Finite 0"
proof -
  have "(0 :: nat) mod 2 ^ 15 \<noteq> 32767"
    by simp
  then show ?thesis
    unfolding xf_decode_def Let_def xf_bits.select_convs unsigned_0 by (simp only: if_False mod_0 div_0 semiring_1_class.of_nat_0 mult_zero_left mult_zero_right if_True refl)
qed

lemma floatdisf_ok: "rounded 24 (real_of_int (sint a)) (fp_decode 23 (floatdisf a))"
proof (cases "a = 0")
  case False
  obtain m e where r: "round_digits signed_drop_bit 24 (if sint a < 0 then - a else a)
      (LENGTH(64) - builtin_clz (if sint a < 0 then - a else a)) = (m, e)"
    by fastforce
  show ?thesis
    using False signed_to_float [OF False _ _ r] r by (simp add: floatdisf_def split_sign_ok rounded_def)
qed (simp add: floatdisf_def fp_decode_0 [of 23 8] rounded_0)

lemma floatundisf_ok: "rounded 24 (real (unat a)) (fp_decode 23 (floatundisf a))"
proof (cases "a = 0")
  case False
  obtain m e where r: "round_digits drop_bit 24 a (LENGTH(64) - builtin_clz a) = (m, e)"
    by fastforce
  show ?thesis
    using False unsigned_to_float [OF False _ _ r] r by (simp add: floatundisf_def rounded_def)
qed (simp add: floatundisf_def fp_decode_0 [of 23 8] rounded_0)

lemma floatdidf_ok: "rounded 53 (real_of_int (sint a)) (fp_decode 52 (floatdidf a))"
proof (cases "a = 0")
  case False
  obtain m e where r: "round_digits signed_drop_bit 53 (if sint a < 0 then - a else a)
      (LENGTH(64) - builtin_clz (if sint a < 0 then - a else a)) = (m, e)"
    by fastforce
  show ?thesis
    using False signed_to_double [OF False _ _ r] r by (simp add: floatdidf_def split_sign_ok rounded_def)
qed (simp add: floatdidf_def fp_decode_0 [of 52 11] rounded_0)

lemma floatundidf_ok: "rounded 53 (real (unat a)) (fp_decode 52 (floatundidf a))"
proof (cases "a = 0")
  case False
  obtain m e where r: "round_digits drop_bit 53 a (LENGTH(64) - builtin_clz a) = (m, e)"
    by fastforce
  show ?thesis
    using False unsigned_to_double [OF False _ _ r] r by (simp add: floatundidf_def rounded_def)
qed (simp add: floatundidf_def fp_decode_0 [of 52 11] rounded_0)

lemma floattisf_ok: "rounded 24 (real_of_int (sint a)) (fp_decode 23 (floattisf a))"
proof (cases "a = 0")
  case False
  obtain m e where r: "round_digits signed_drop_bit 24 (if sint a < 0 then - a else a)
      (LENGTH(128) - builtin_clz (if sint a < 0 then - a else a)) = (m, e)"
    by fastforce
  show ?thesis
    using False signed_to_float [OF False _ _ r] r
    by (simp add: floattisf_def split_sign_ok rounded_def clz_128 [OF magnitude_nonzero [OF False]])
qed (simp add: floattisf_def fp_decode_0 [of 23 8] rounded_0)

lemma floattidf_ok: "rounded 53 (real_of_int (sint a)) (fp_decode 52 (floattidf a))"
proof (cases "a = 0")
  case False
  obtain m e where r: "round_digits signed_drop_bit 53 (if sint a < 0 then - a else a)
      (LENGTH(128) - builtin_clz (if sint a < 0 then - a else a)) = (m, e)"
    by fastforce
  show ?thesis
    using False signed_to_double [OF False _ _ r] r
    by (simp add: floattidf_def split_sign_ok rounded_def clz_128 [OF magnitude_nonzero [OF False]])
qed (simp add: floattidf_def fp_decode_0 [of 52 11] rounded_0)

lemma floatuntidf_ok: "rounded 53 (real (unat a)) (fp_decode 52 (floatuntidf a))"
proof (cases "a = 0")
  case False
  obtain m e where r: "round_digits drop_bit 53 a (LENGTH(128) - builtin_clz a) = (m, e)"
    by fastforce
  show ?thesis
    using False unsigned_to_double [OF False _ _ r] r by (simp add: floatuntidf_def rounded_def clz_128)
qed (simp add: floatuntidf_def fp_decode_0 [of 52 11] rounded_0)

lemma floattitf_ok: "rounded 113 (real_of_int (sint a)) (fp_decode 112 (floattitf a))"
proof (cases "a = 0")
  case False
  obtain m e where r: "round_digits signed_drop_bit 113 (if sint a < 0 then - a else a)
      (128 - builtin_clz (if sint a < 0 then - a else a)) = (m, e)"
    by fastforce
  show ?thesis
    using False signed_to_quad [OF False r] r
    by (simp add: floattitf_def split_sign_ok rounded_def clz_128 [OF magnitude_nonzero [OF False]])
qed (simp add: floattitf_def fp_decode_0 [of 112 15] rounded_0)

lemma floatuntitf_ok: "rounded 113 (real (unat a)) (fp_decode 112 (floatuntitf a))"
proof (cases "a = 0")
  case False
  obtain m e where r: "round_digits drop_bit 113 a (128 - builtin_clz a) = (m, e)"
    by fastforce
  show ?thesis
    using False unsigned_to_quad [OF False r] r by (simp add: floatuntitf_def rounded_def clz_128)
qed (simp add: floatuntitf_def fp_decode_0 [of 112 15] rounded_0)

lemma floattixf_ok: "rounded 64 (real_of_int (sint a)) (xf_decode (floattixf a))"
proof (cases "a = 0")
  case False
  obtain m e where r: "round_digits signed_drop_bit 64 (if sint a < 0 then - a else a)
      (128 - builtin_clz (if sint a < 0 then - a else a)) = (m, e)"
    by fastforce
  have "floattixf a = \<lparr>xf_high = (ucast (if sint a < 0 then - 1 else 0 :: u128) AND 0x8000) OR word_of_nat (e + 16383), xf_low = ucast m\<rparr>"
    using False r by (simp only: floattixf_def split_sign_ok clz_128 [OF magnitude_nonzero [OF False]] if_False Let_def case_prod_conv)
  then show ?thesis
    using signed_to_xf [OF False r] by (simp only: rounded_def)
qed (simp only: floattixf_def refl if_True xf_decode_0 rounded_0 signed_0 of_int_0)

lemma floatuntixf_ok: "rounded 64 (real (unat a)) (xf_decode (floatuntixf a))"
proof (cases "a = 0")
  case False
  obtain m e where r: "round_digits drop_bit 64 a (128 - builtin_clz a) = (m, e)"
    by fastforce
  have "floatuntixf a = \<lparr>xf_high = word_of_nat (e + 16383), xf_low = ucast m\<rparr>"
    using False r by (simp only: floatuntixf_def clz_128 [OF False] if_False Let_def case_prod_conv)
  then show ?thesis
    using unsigned_to_xf [OF False r] by (simp only: rounded_def)
qed (simp only: floatuntixf_def refl if_True xf_decode_0 rounded_0 unsigned_0 semiring_1_class.of_nat_0)

text \<open>The one conversion that can leave the range of its target.\<close>

lemma floatuntisf_ok:
  "\<exists>v. nearest_even 24 (real (unat a)) v \<and> fp_decode 23 (floatuntisf a) = (if v < 2 ^ 128 then Finite v else Inf False)"
proof (cases "a = 0")
  case True
  then show ?thesis
    using nearest_zero [of 24] by (intro exI [of _ 0]) (simp add: floatuntisf_def fp_decode_0 [of 23 8])
next
  case False
  obtain m e where r: "round_digits drop_bit 24 a (LENGTH(128) - builtin_clz a) = (m, e)" "2 ^ 23 \<le> unat m" "unat m < 2 ^ 24"
    "e \<le> 128" "e = 128 \<longrightarrow> unat m = 2 ^ 23"
    "nearest_even 24 (real (unat a)) (real (unat m) * 2 powi (int e - int (24 - 1)))"
    using round_clz_ok [OF False, of 24 drop_bit] by auto
  then have f: "floatuntisf a = float_bits 0 e (ucast m)"
    using False by (simp add: floatuntisf_def clz_128)
  show ?thesis
  proof (cases "e = 128")
    case True
    then have "ucast m = (0x800000 :: u32)"
      using r(5) by (intro word_unat_eq_iff [THEN iffD2]) (simp add: unsigned_ucast_eq take_bit_eq_mod)
    then have "floatuntisf a = 0x7F800000"
      by (simp add: f True float_bits_def)
    then have "fp_decode 23 (floatuntisf a) = Inf False"
      by (simp add: fp_decode_def maxExponent_def exponentBits_def bit_unat_odd)
    moreover have "real (unat m) * 2 powi (int e - int (24 - 1)) = 2 ^ 128"
      using r(5) True by simp
    ultimately show ?thesis
      using r(6) by (intro exI [of _ "2 ^ 128"]) simp
  next
    case False
    then have e: "e < 128"
      using r(4) by simp
    have "fp_decode 23 (floatuntisf a) = Finite (real (unat m) * 2 powi (int e - 23))"
      using float_bits_ok [of m e False] r(2,3) e by (simp add: f fp_sign_def)
    moreover have "real (unat m) * 2 powi (int e - 23) < 2 ^ 128"
    proof -
      have "real (unat m) < 2 ^ 24"
        using r(3) by (simp only: of_nat_less_numeral_power_cancel_iff)
      moreover have "(2 :: real) powi (int e - 23) \<le> 2 powi 104"
        using e by (intro power_int_increasing) simp_all
      ultimately have "real (unat m) * 2 powi (int e - 23) < 2 ^ 24 * 2 powi 104"
        by (intro mult_less_le_imp_less of_nat_0_le_iff) simp_all
      then show ?thesis
        by simp
    qed
    ultimately show ?thesis
      using r(6) unfolding int_minus_numerals by auto
  qed
qed

lemma floatdixf_ok: "xf_decode (floatdixf a) = Finite (real_of_int (sint a))"
proof (cases "a = 0")
  case False
  define w where "w = (if sint a < 0 then - a else a)"
  have w: "w \<noteq> 0" "unat w = nat \<bar>sint a\<bar>"
    unfolding w_def by (rule magnitude_nonzero [OF False], rule unat_magnitude)
  have e: "63 - builtin_clz w < 16384" "64 \<le> LENGTH(64)" "32 \<le> LENGTH(64)"
    by simp_all
  have "floatdixf a = \<lparr>xf_high = (if sint a < 0 then 0x8000 else 0) OR word_of_nat (63 - builtin_clz w + 16383),
      xf_low = ucast (push_bit (builtin_clz w) w)\<rparr>"
    using False by (simp only: floatdixf_def split_sign_ok xf_sign_mask [OF e(3)] if_False Let_def case_prod_conv ucast_id flip: w_def)
  then have "xf_decode (floatdixf a) = Finite (fp_sign (sint a < 0) * real (unat w))"
    using xf_bits_ok [OF e(2) exact_to_xf(1,2) [OF w(1)] e(1)] by (simp only: exact_to_xf(3) [OF w(1)])
  moreover have "fp_sign (i < 0) * real (nat \<bar>i\<bar>) = real_of_int i" for i
    by (cases "i < 0") (simp_all add: fp_sign_def)
  ultimately show ?thesis
    unfolding w(2) by (simp only:)
qed (simp only: floatdixf_def refl if_True xf_decode_0 signed_0 of_int_0)

lemma floatundixf_ok: "xf_decode (floatundixf a) = Finite (real (unat a))"
proof (cases "a = 0")
  case False
  have e: "63 - builtin_clz a < 16384" "64 \<le> LENGTH(64)"
    by simp_all
  have "floatundixf a = \<lparr>xf_high = (if False then 0x8000 else 0) OR word_of_nat (63 - builtin_clz a + 16383),
      xf_low = ucast (push_bit (builtin_clz a) a)\<rparr>"
    using False by (simp only: floatundixf_def if_False Let_def ucast_id or.left_neutral)
  then show ?thesis
    using xf_bits_ok [OF e(2) exact_to_xf(1,2) [OF False] e(1), of False]
    by (simp only: exact_to_xf(3) [OF False] fp_sign_def if_False mult_1)
qed (simp only: floatundixf_def refl if_True xf_decode_0 unsigned_0 semiring_1_class.of_nat_0)

lemma drop_implicit_bit:
  fixes w :: "'a::len word"
  assumes "2 ^ sb \<le> unat w" and "unat w < 2 ^ Suc sb"
  shows "unat (w XOR implicitBit sb) = unat w - 2 ^ sb"
proof -
  have q: "unat w div 2 ^ sb = 1"
    using assms by (intro div_nat_eqI) simp_all
  have b: "bit w i \<longleftrightarrow> i = sb \<or> i < sb \<and> bit w i" for i
  proof (cases "i \<le> sb")
    case True
    then show ?thesis
      using q by (cases "i = sb") (auto simp: bit_unat_odd)
  next
    case False
    then have "(2 :: nat) ^ Suc sb \<le> 2 ^ i"
      by (intro power_increasing) simp_all
    then show ?thesis
      using assms(2) False by (simp add: bit_unat_odd)
  qed
  have sb: "sb < LENGTH('a)"
    using assms(1) unsigned_less [of w, where ?'a = nat] by (metis le_less_trans nat_power_less_imp_less zero_less_numeral)
  have "w XOR implicitBit sb = take_bit sb w"
    using sb b by (intro bit_word_eqI) (auto simp: implicitBit_def bit_simps)
  then have "unat (w XOR implicitBit sb) = unat w mod 2 ^ sb"
    by (simp only: unsigned_take_bit_eq) (simp only: take_bit_eq_mod)
  moreover have "unat w = unat w div 2 ^ sb * 2 ^ sb + unat w mod 2 ^ sb"
    by (simp only: div_mult_mod_eq)
  ultimately show ?thesis
    unfolding q by simp
qed

lemma insert_exponent_unat:
  fixes r :: "'a::len word"
  assumes "LENGTH('a) = sb + eb + 1" and "b = exponentBias LENGTH('a) sb" and "unat r \<le> 2 ^ sb" and "x + 1 + b < 2 ^ eb - 1"
  shows "unat (insert_exponent sb r x) = (x + b) * 2 ^ sb + unat r" and "(x + b) * 2 ^ sb + unat r < 2 ^ (sb + eb)"
proof -
  have "(x + b + 1) * 2 ^ sb < 2 ^ eb * 2 ^ sb"
    using assms(4) by (intro mult_strict_right_mono) simp_all
  then show lt: "(x + b) * 2 ^ sb + unat r < 2 ^ (sb + eb)"
    using assms(3) by (simp add: power_add mult.commute algebra_simps)
  have W: "(2 :: nat) ^ (sb + eb) < 2 ^ LENGTH('a)"
    unfolding assms(1) by (intro power_strict_increasing) simp_all
  have "(2 :: nat) ^ eb \<le> 2 ^ LENGTH('a)"
    unfolding assms(1) by (intro power_increasing) simp_all
  then have "x + b < 2 ^ LENGTH('a)"
    using assms(4) by linarith
  then have u: "unat (word_of_nat (x + b) :: 'a word) = x + b"
    by (rule unat_of_nat_small)
  then have p: "unat (push_bit sb (word_of_nat (x + b) :: 'a word)) = (x + b) * 2 ^ sb"
    using lt W unat_push_bit_nowrap [of "word_of_nat (x + b) :: 'a word" sb] unfolding u by linarith
  have "unat r + (x + b) * 2 ^ sb < 2 ^ LENGTH('a)"
    using lt W by linarith
  then show "unat (insert_exponent sb r x) = (x + b) * 2 ^ sb + unat r"
    unfolding insert_exponent_def assms(2) [symmetric] unat_word_ariths(1) p by (simp only: mod_less add.commute)
qed

lemma unat_signBit:
  assumes "LENGTH('a) = sb + eb + 1"
  shows "unat (signBit sb :: 'a::len word) = 2 ^ (sb + eb)"
proof -
  have "(2 :: nat) ^ (sb + eb) < 2 ^ LENGTH('a)"
    unfolding assms by (intro power_strict_increasing) simp_all
  then show ?thesis
    using unat_push_bit_nowrap [of "1 :: 'a word" "sb + eb"] assms by (simp add: signBit_def exponentBits_def)
qed

lemma fp_lib_decode:
  fixes r :: "'a::len word"
  assumes "LENGTH('a) = sb + eb + 1" and "b = exponentBias LENGTH('a) sb" and "0 < b" and "unat r \<le> 2 ^ sb" and "x + 1 + b < 2 ^ eb - 1"
  shows "fp_decode sb (insert_exponent sb r x OR (if s then signBit sb else 0)) =
    Finite (fp_sign s * (real (2 ^ sb + unat r) * 2 powi (int x - int sb)))"
proof -
  note i = insert_exponent_unat [OF assms(1,2,4,5)]
  let ?r = "insert_exponent sb r x OR (if s then signBit sb else 0)"
  have "unat (if s then signBit sb else 0 :: 'a word) = of_bool s * 2 ^ (sb + eb)"
    using unat_signBit [OF assms(1)] by simp
  then have u: "unat ?r = of_bool s * 2 ^ (sb + eb) + ((x + b) * 2 ^ sb + unat r)"
    using unat_or_fields [of "insert_exponent sb r x" "sb + eb" "if s then signBit sb else 0"] i by (simp add: or.commute)
  show ?thesis
  proof (cases "unat r < 2 ^ sb")
    case True
    then have "unat ?r = of_bool s * 2 ^ (sb + eb) + ((x + b) * 2 ^ sb + (2 ^ sb + unat r) mod 2 ^ sb)"
      unfolding u by simp
    moreover have "x + b < 2 ^ eb - 1"
      using assms(5) by linarith
    ultimately show ?thesis
      using True by (intro fp_decode_pattern [OF assms(1) _ _ _ assms(2,3)]) simp_all
  next
    case False
    then have r: "unat r = 2 ^ sb"
      using assms(4) by simp
    have "unat ?r = of_bool s * 2 ^ (sb + eb) + ((Suc x + b) * 2 ^ sb + 2 ^ sb mod 2 ^ sb)"
      unfolding u r by simp
    moreover have "Suc x + b < 2 ^ eb - 1"
      using assms(5) by linarith
    ultimately have "fp_decode sb ?r = Finite (fp_sign s * (real (2 ^ sb) * 2 powi (int (Suc x) - int sb)))"
      by (intro fp_decode_pattern [OF assms(1) _ _ _ assms(2,3)]) simp_all
    moreover have "2 powi (int (Suc x) - int sb) = 2 * (2 :: real) powi (int x - int sb)"
      using power_int_add_1 [of "2 :: real" "int x - int sb"] by (simp add: algebra_simps)
    ultimately show ?thesis
      unfolding r by simp
  qed
qed

lemma clz_exponent:
  fixes a :: "'a::len word"
  assumes "a \<noteq> 0"
  shows "2 ^ (LENGTH('a) - 1 - builtin_clz a) \<le> unat a" and "unat a < 2 ^ Suc (LENGTH('a) - 1 - builtin_clz a)"
proof -
  have "LENGTH('a) - 1 - builtin_clz a = LENGTH('a) - Suc (builtin_clz a)"
    "Suc (LENGTH('a) - 1 - builtin_clz a) = LENGTH('a) - builtin_clz a"
    using builtin_clz_bounds(1) [OF assms] by simp_all
  then show "2 ^ (LENGTH('a) - 1 - builtin_clz a) \<le> unat a" "unat a < 2 ^ Suc (LENGTH('a) - 1 - builtin_clz a)"
    using builtin_clz_bounds(2,3) [OF assms] by (simp_all only:)
qed

lemma fp_shift_exact_unat:
  fixes a :: "'a::len word"
  assumes "2 ^ x \<le> unat a" and "unat a < 2 ^ Suc x" and "x \<le> sb" and "Suc sb \<le> LENGTH('a)"
  shows "2 ^ sb + unat (fp_shift_exact sb a x) = unat a * 2 ^ (sb - x)" and "unat (fp_shift_exact sb a x) < 2 ^ sb"
proof -
  have p: "(2 :: nat) ^ x * 2 ^ (sb - x) = 2 ^ sb" "(2 :: nat) ^ Suc x * 2 ^ (sb - x) = 2 ^ Suc sb"
    using assms(3) by (simp_all flip: power_add)
  have lo: "2 ^ sb \<le> unat a * 2 ^ (sb - x)"
    using assms(1) unfolding p(1) [symmetric] by (intro mult_right_mono) simp_all
  have hi: "unat a * 2 ^ (sb - x) < 2 ^ Suc sb"
    using assms(2) unfolding p(2) [symmetric] by (intro mult_strict_right_mono) simp_all
  have "(2 :: nat) ^ Suc sb \<le> 2 ^ LENGTH('a)"
    using assms(4) by (intro power_increasing) simp_all
  then have "unat (push_bit (sb - x) a) = unat a * 2 ^ (sb - x)"
    using hi by (intro unat_push_bit_nowrap) linarith
  then have "unat (fp_shift_exact sb a x) = unat a * 2 ^ (sb - x) - 2 ^ sb"
    using drop_implicit_bit [of sb "push_bit (sb - x) a"] lo hi by (simp add: fp_shift_exact_def)
  then show "2 ^ sb + unat (fp_shift_exact sb a x) = unat a * 2 ^ (sb - x)" "unat (fp_shift_exact sb a x) < 2 ^ sb"
    using lo hi by simp_all
qed

lemma shift_back:
  assumes "x \<le> sb"
  shows "real (n * 2 ^ (sb - x)) * 2 powi (int x - int sb) = real n"
proof -
  have "(2 :: real) ^ (sb - x) * 2 powi (int x - int sb) = 2 powi (int (sb - x)) * 2 powi (int x - int sb)"
    by simp
  also have "\<dots> = 2 powi (int (sb - x) + (int x - int sb))"
    by (rule power_int_add [symmetric]) simp
  also have "\<dots> = 1"
    using assms by (simp add: of_nat_diff)
  finally show ?thesis
    by simp
qed

lemma fp_lib_exact:
  fixes a :: "'b::len word"
  assumes "a \<noteq> 0" and "LENGTH('a) = sb + eb + 1" and "b = exponentBias LENGTH('a) sb" and "0 < b"
    and "LENGTH('b) + b < 2 ^ eb - 1" and "LENGTH('b) \<le> sb"
  defines "x \<equiv> LENGTH('b) - 1 - builtin_clz a"
  shows "fp_decode sb (insert_exponent sb (fp_shift_exact sb (ucast a :: 'a::len word) x) x OR (if s then signBit sb else 0)) =
    Finite (fp_sign s * real (unat a))"
proof -
  have "(2 :: nat) ^ LENGTH('b) \<le> 2 ^ LENGTH('a)"
    using assms(6) unfolding assms(2) by (intro power_increasing) simp_all
  then have "unat a < 2 ^ LENGTH('a)"
    using unsigned_less [of a, where ?'a = nat] by linarith
  then have u: "unat (ucast a :: 'a word) = unat a"
    by (simp only: unsigned_ucast_eq take_bit_eq_mod) simp
  have "x + 1 \<le> LENGTH('b)"
    unfolding x_def using len_gt_0 [where ?'a = 'b] by linarith
  then have x: "x \<le> sb" "x + 1 + b < 2 ^ eb - 1" "Suc sb \<le> LENGTH('a)"
    using assms(2,5,6) by linarith+
  note e = fp_shift_exact_unat [of x "ucast a :: 'a word" sb, unfolded u, OF clz_exponent [OF assms(1), folded x_def] x(1,3)]
  show ?thesis
    unfolding fp_lib_decode [OF assms(2-4) less_imp_le [OF e(2)] x(2)] e(1) shift_back [OF x(1)] by (rule refl)
qed

lemma fp_sign_magnitude: "fp_sign (i < 0) * real (nat \<bar>i\<bar>) = real_of_int i"
  by (cases "i < 0") (simp_all add: fp_sign_def)

lemma double_parameters:
  "LENGTH(64) = 52 + 11 + 1" "1023 = exponentBias LENGTH(64) 52" "(0 :: nat) < 1023" "LENGTH(32) + 1023 < 2 ^ 11 - 1" "LENGTH(32) \<le> 52"
  by (simp_all add: exponentBias_def maxExponent_def exponentBits_def)

lemma quad_parameters:
  "LENGTH(128) = 112 + 15 + 1" "16383 = exponentBias LENGTH(128) 112" "(0 :: nat) < 16383"
  "LENGTH(32) + 16383 < 2 ^ 15 - 1" "LENGTH(32) \<le> 112" "LENGTH(64) + 16383 < 2 ^ 15 - 1" "LENGTH(64) \<le> 112"
  by (simp_all add: exponentBias_def maxExponent_def exponentBits_def)

lemma floatunsidf_ok: "fp_decode 52 (floatunsidf a) = Finite (real (unat a))"
proof (cases "a = 0")
  case False
  have f: "floatunsidf a = insert_exponent 52 (fp_shift_exact 52 (ucast a) (LENGTH(32) - 1 - builtin_clz a))
      (LENGTH(32) - 1 - builtin_clz a) OR (if False then signBit 52 else 0)"
    using False by (simp add: floatunsidf_def Let_def)
  show ?thesis
    unfolding f fp_lib_exact [OF False double_parameters] fp_sign_def by (simp only: if_False mult_1)
qed (simp add: floatunsidf_def fp_decode_0 [of 52 11])

lemma floatunsitf_ok: "fp_decode 112 (floatunsitf a) = Finite (real (unat a))"
proof (cases "a = 0")
  case False
  have f: "floatunsitf a = insert_exponent 112 (fp_shift_exact 112 (ucast a) (LENGTH(32) - 1 - builtin_clz a))
      (LENGTH(32) - 1 - builtin_clz a) OR (if False then signBit 112 else 0)"
    using False by (simp add: floatunsitf_def Let_def)
  show ?thesis
    unfolding f fp_lib_exact [OF False quad_parameters(1-5)] fp_sign_def by (simp only: if_False mult_1)
qed (simp add: floatunsitf_def fp_decode_0 [of 112 15])

lemma floatunditf_ok: "fp_decode 112 (floatunditf a) = Finite (real (unat a))"
proof (cases "a = 0")
  case False
  have f: "floatunditf a = insert_exponent 112 (fp_shift_exact 112 (ucast a) (LENGTH(64) - 1 - builtin_clz a))
      (LENGTH(64) - 1 - builtin_clz a) OR (if False then signBit 112 else 0)"
    using False by (simp add: floatunditf_def Let_def)
  show ?thesis
    unfolding f fp_lib_exact [OF False quad_parameters(1-3,6,7)] fp_sign_def by (simp only: if_False mult_1)
qed (simp add: floatunditf_def fp_decode_0 [of 112 15])

lemma floatsidf_ok: "fp_decode 52 (floatsidf a) = Finite (real_of_int (sint a))"
proof (cases "a = 0")
  case False
  define w where "w = (if sint a < 0 then - a else a)"
  have w: "w \<noteq> 0" "unat w = nat \<bar>sint a\<bar>"
    unfolding w_def by (rule magnitude_nonzero [OF False], rule unat_magnitude)
  have f: "floatsidf a = insert_exponent 52 (fp_shift_exact 52 (ucast w) (LENGTH(32) - 1 - builtin_clz w))
      (LENGTH(32) - 1 - builtin_clz w) OR (if sint a < 0 then signBit 52 else 0)"
    using False by (simp add: floatsidf_def w_def Let_def)
  show ?thesis
    unfolding f fp_lib_exact [OF w(1) double_parameters] w(2) fp_sign_magnitude by (rule refl)
qed (simp add: floatsidf_def fp_decode_0 [of 52 11])

lemma floatsitf_ok: "fp_decode 112 (floatsitf a) = Finite (real_of_int (sint a))"
proof (cases "a = 0")
  case False
  define w where "w = (if sint a < 0 then - a else a)"
  have w: "w \<noteq> 0" "unat w = nat \<bar>sint a\<bar>"
    unfolding w_def by (rule magnitude_nonzero [OF False], rule unat_magnitude)
  have f: "floatsitf a = insert_exponent 112 (fp_shift_exact 112 (ucast w) (LENGTH(32) - 1 - builtin_clz w))
      (LENGTH(32) - 1 - builtin_clz w) OR (if sint a < 0 then signBit 112 else 0)"
    using False by (simp add: floatsitf_def w_def Let_def minus_eq_not_plus_1)
  show ?thesis
    unfolding f fp_lib_exact [OF w(1) quad_parameters(1-5)] w(2) fp_sign_magnitude by (rule refl)
qed (simp add: floatsitf_def fp_decode_0 [of 112 15])

lemma floatditf_ok: "fp_decode 112 (floatditf a) = Finite (real_of_int (sint a))"
proof (cases "a = 0")
  case False
  define w where "w = (if sint a < 0 then - a else a)"
  have w: "w \<noteq> 0" "unat w = nat \<bar>sint a\<bar>"
    unfolding w_def by (rule magnitude_nonzero [OF False], rule unat_magnitude)
  have f: "floatditf a = insert_exponent 112 (fp_shift_exact 112 (ucast w) (LENGTH(64) - 1 - builtin_clz w))
      (LENGTH(64) - 1 - builtin_clz w) OR (if sint a < 0 then signBit 112 else 0)"
    using False by (simp add: floatditf_def w_def Let_def minus_eq_not_plus_1)
  show ?thesis
    unfolding f fp_lib_exact [OF w(1) quad_parameters(1-3,6,7)] w(2) fp_sign_magnitude by (rule refl)
qed (simp add: floatditf_def fp_decode_0 [of 112 15])

lemma xor_even:
  fixes w :: "'a::len word"
  assumes "0 < sb"
  shows "odd (unat (w XOR implicitBit sb)) \<longleftrightarrow> odd (unat w)"
proof -
  have "odd (unat v) \<longleftrightarrow> bit v 0" for v :: "'a word"
    by (simp add: bit_unat_odd)
  then show ?thesis
    using assms by (simp add: implicitBit_def bit_simps)
qed

lemma fp_shift_round_unat:
  fixes a :: "'a::len word"
  assumes "2 ^ x \<le> unat a" and "unat a < 2 ^ Suc x" and "sb < x" and "x < LENGTH('a)" and "0 < sb" and "LENGTH('a) = sb + eb + 1"
  shows "2 ^ sb + unat (fp_shift_round sb a x) = round_nat (x - sb) (unat a)"
proof -
  define k q r where "k = x - sb" and "q = unat a div 2 ^ k" and "r = unat a mod 2 ^ k"
  have k: "0 < k" "x = sb + k" "k < LENGTH('a)"
    using assms(3,4) by (simp_all add: k_def)
  define d where "d = drop_bit k a XOR implicitBit sb"
  have x: "(2 :: nat) ^ x = 2 ^ sb * 2 ^ k" "(2 :: nat) ^ Suc x = 2 ^ Suc sb * 2 ^ k" and "(0 :: nat) < 2 ^ k"
    unfolding k(2) by (simp_all add: power_add)
  then have q: "2 ^ sb \<le> q" "q < 2 ^ Suc sb"
    using assms(1,2) unfolding q_def x by (simp_all only: less_eq_div_iff_mult_less_eq div_less_iff_less_mult)
  have "unat (drop_bit k a) = q"
    by (simp only: unat_drop_bit_div q_def)
  then have d: "2 ^ sb + unat d = q" "odd (unat d) \<longleftrightarrow> odd q"
    using drop_implicit_bit [of sb "drop_bit k a"] xor_even [OF assms(5), of "drop_bit k a"] q by (simp_all add: d_def)
  have "(2 :: nat) ^ Suc sb < 2 ^ LENGTH('a)"
    using assms(3,4) by (intro power_strict_increasing) simp_all
  then have lt: "unat d + 1 < 2 ^ LENGTH('a)"
    using d(1) q(2) by simp
  have p: "(2 :: nat) ^ LENGTH('a) = 2 ^ k * 2 ^ (LENGTH('a) - k)" "(2 :: nat) ^ k = 2 * 2 ^ (k - 1)"
    "(2 :: nat) ^ (sb + eb) = 2 ^ (k - 1) * 2 ^ (LENGTH('a) - k)"
    using k assms(6) by (simp_all flip: power_add power_Suc)
  have rd: "unat (push_bit (LENGTH('a) - k) a) = r * 2 ^ (LENGTH('a) - k)"
    by (simp only: unsigned_push_bit_eq) (simp only: take_bit_eq_mod push_bit_eq_mult p(1) r_def mult_mod_left)
  have gt: "push_bit (LENGTH('a) - k) a > signBit sb \<longleftrightarrow> 2 ^ k < 2 * r"
    and eq: "push_bit (LENGTH('a) - k) a = signBit sb \<longleftrightarrow> 2 ^ k = 2 * r"
    unfolding word_less_nat_alt word_unat_eq_iff rd unat_signBit [OF assms(6)] p(2,3) by auto
  have s: "unat (d + 1) = unat d + 1"
    using lt by (simp only: unat_word_ariths(1) unsigned_1 mod_less)
  have b: "bit d 0 \<longleftrightarrow> odd q"
    using d(2) unfolding bit_unat_odd by simp
  have "d AND 1 = (if odd q then 1 else 0)"
    using b by (intro bit_word_eqI) (auto simp: bit_and_iff bit_1_iff intro: gr0I)
  then have o: "unat (d + (d AND 1)) = unat d + of_bool (odd q)"
    using s by simp
  have "fp_shift_round sb a x = (if 2 ^ k = 2 * r then (if 2 ^ k < 2 * r then d + 1 else d) + ((if 2 ^ k < 2 * r then d + 1 else d) AND 1)
      else if 2 ^ k < 2 * r then d + 1 else d)"
    unfolding fp_shift_round_def Let_def k_def [symmetric] d_def [symmetric] gt eq using assms(3) by (simp only: if_not_P not_le)
  then show ?thesis
    unfolding round_nat_def Let_def k_def [symmetric] q_def [symmetric] r_def [symmetric]
    using d(1) s o by (cases "2 ^ k < 2 * r"; cases "2 ^ k = 2 * r") simp_all
qed

lemma fp_shift_round_ok:
  fixes a :: "'a::len word"
  assumes "2 ^ x \<le> unat a" and "unat a < 2 ^ Suc x" and "x < LENGTH('a)" and "0 < sb" and "LENGTH('a) = sb + eb + 1"
  shows "unat (fp_shift_round sb a x) \<le> 2 ^ sb"
    and "nearest_even (Suc sb) (real (unat a)) (real (2 ^ sb + unat (fp_shift_round sb a x)) * 2 powi (int x - int sb))"
proof -
  have "unat (fp_shift_round sb a x) \<le> 2 ^ sb \<and>
    nearest_even (Suc sb) (real (unat a)) (real (2 ^ sb + unat (fp_shift_round sb a x)) * 2 powi (int x - int sb))"
  proof (cases "x \<le> sb")
    case True
    then have f: "fp_shift_round sb a x = fp_shift_exact sb a x"
      by (simp add: fp_shift_round_def fp_shift_exact_def)
    have "Suc sb \<le> LENGTH('a)"
      using assms(5) by simp
    note e = fp_shift_exact_unat [OF assms(1,2) True this]
    have "(2 :: nat) ^ Suc x \<le> 2 ^ Suc sb"
      using True by (intro power_increasing) simp_all
    then have "fp_repr (Suc sb) (real (unat a) * 2 powi 0)"
      using assms(2) by (intro fp_repr_nat) linarith
    then show ?thesis
      unfolding f e(1) shift_back [OF True] using e(2) nearest_even_exact by simp
  next
    case False
    define k where "k = x - sb"
    have x: "x = sb + k" "(2 :: nat) ^ x = 2 ^ sb * 2 ^ k" "(2 :: nat) ^ Suc x = 2 ^ Suc sb * 2 ^ k" "(0 :: nat) < 2 ^ k" "int x - int sb = int k"
      using False by (simp_all add: k_def flip: power_add)
    have q: "2 ^ sb \<le> unat a div 2 ^ k" "unat a div 2 ^ k < 2 ^ Suc sb"
      using assms(1,2) x(4) unfolding x(2,3) by (simp_all only: less_eq_div_iff_mult_less_eq div_less_iff_less_mult)
    have r: "2 ^ sb + unat (fp_shift_round sb a x) = round_nat k (unat a)"
      using fp_shift_round_unat [OF assms(1,2) _ assms(3-5)] False by (simp add: k_def)
    have "round_nat k (unat a) \<le> unat a div 2 ^ k + 1"
      by (simp add: round_nat_def Let_def)
    then have "unat (fp_shift_round sb a x) \<le> 2 ^ sb"
      using r q(2) by simp
    moreover have "nearest_even (Suc sb) (real (unat a)) (real (round_nat k (unat a)) * 2 ^ k)"
      using q by (intro round_nat_nearest) simp_all
    ultimately show ?thesis
      unfolding r x(5) by simp
  qed
  then show "unat (fp_shift_round sb a x) \<le> 2 ^ sb"
    "nearest_even (Suc sb) (real (unat a)) (real (2 ^ sb + unat (fp_shift_round sb a x)) * 2 powi (int x - int sb))"
    by blast+
qed

lemma fp_lib_rounded:
  fixes a :: u32
  assumes "a \<noteq> 0"
  defines "x \<equiv> 31 - builtin_clz a"
  shows "\<exists>v. fp_decode 23 (insert_exponent 23 (fp_shift_round 23 a x) x OR (if s then signBit 23 else 0)) = Finite (fp_sign s * v) \<and>
    nearest_even 24 (real (unat a)) v"
proof -
  have c: "LENGTH(32) = 23 + 8 + 1" "127 = exponentBias LENGTH(32) 23" "(0 :: nat) < 127" "(0 :: nat) < 23"
    by (simp_all add: exponentBias_def maxExponent_def exponentBits_def)
  have x: "x = LENGTH(32) - 1 - builtin_clz a" "x < LENGTH(32)" "x + 1 + 127 < 2 ^ 8 - 1"
    by (simp_all add: x_def)
  note r = fp_shift_round_ok [OF clz_exponent [OF assms(1), folded x(1)] x(2) c(4,1)]
  have "Suc 23 = 24"
    by simp
  then show ?thesis
    using fp_lib_decode [OF c(1-3) r(1) x(3)] r(2) by (simp only:) blast
qed

lemma floatunsisf_ok: "rounded 24 (real (unat a)) (fp_decode 23 (floatunsisf a))"
proof (cases "a = 0")
  case False
  have f: "floatunsisf a = insert_exponent 23 (fp_shift_round 23 a (31 - builtin_clz a)) (31 - builtin_clz a) OR (if False then signBit 23 else 0)"
    using False by (simp add: floatunsisf_def Let_def)
  show ?thesis
    using fp_lib_rounded [OF False, of False] unfolding f rounded_def by (simp only: fp_sign_def if_False mult_1)
qed (simp add: floatunsisf_def fp_decode_0 [of 23 8] rounded_0)

lemma floatsisf_ok: "rounded 24 (real_of_int (sint a)) (fp_decode 23 (floatsisf a))"
proof (cases "a = 0")
  case False
  define w where "w = (if sint a < 0 then - a else a)"
  have w: "w \<noteq> 0" "unat w = nat \<bar>sint a\<bar>"
    unfolding w_def by (rule magnitude_nonzero [OF False], rule unat_magnitude)
  have f: "floatsisf a = insert_exponent 23 (fp_shift_round 23 w (31 - builtin_clz w)) (31 - builtin_clz w) OR (if sint a < 0 then signBit 23 else 0)"
    using False by (simp add: floatsisf_def w_def Let_def)
  show ?thesis
    using fp_lib_rounded [OF w(1), of "sint a < 0"] nearest_signed unfolding f rounded_def w(2) by blast
qed (simp add: floatsisf_def fp_decode_0 [of 23 8] rounded_0)

section \<open>The conversions are correctly rounded\<close>

text \<open>C36: the conversions that may lose digits give the representable number nearest to the integer, ties to the
  even significand: signed and unsigned 32-bit integers to single precision, 64-bit ones to single and
  double precision, and 128-bit ones to single, double, extended and quadruple precision.  The one that can
  leave the range of its target, unsigned 128-bit integers to single precision, gives infinity exactly when
  the rounded value is \<open>2 ^ 128\<close>.
\<close>

theorem float_conversions_rounded:
  "rounded 24 (real_of_int (sint x)) (fp_decode 23 (floatsisf x)) \<and>
   rounded 24 (real (unat x)) (fp_decode 23 (floatunsisf x)) \<and>
   rounded 24 (real_of_int (sint a)) (fp_decode 23 (floatdisf a)) \<and>
   rounded 24 (real (unat a)) (fp_decode 23 (floatundisf a)) \<and>
   rounded 53 (real_of_int (sint a)) (fp_decode 52 (floatdidf a)) \<and>
   rounded 53 (real (unat a)) (fp_decode 52 (floatundidf a)) \<and>
   rounded 24 (real_of_int (sint b)) (fp_decode 23 (floattisf b)) \<and>
   rounded 53 (real_of_int (sint b)) (fp_decode 52 (floattidf b)) \<and>
   rounded 53 (real (unat b)) (fp_decode 52 (floatuntidf b)) \<and>
   rounded 64 (real_of_int (sint b)) (xf_decode (floattixf b)) \<and>
   rounded 64 (real (unat b)) (xf_decode (floatuntixf b)) \<and>
   rounded 113 (real_of_int (sint b)) (fp_decode 112 (floattitf b)) \<and>
   rounded 113 (real (unat b)) (fp_decode 112 (floatuntitf b)) \<and>
   (\<exists>v. nearest_even 24 (real (unat b)) v \<and> fp_decode 23 (floatuntisf b) = (if v < 2 ^ 128 then Finite v else Inf False))"
  by (intro conjI floatsisf_ok floatunsisf_ok floatdisf_ok floatundisf_ok floatdidf_ok floatundidf_ok floattisf_ok
      floattidf_ok floatuntidf_ok floattixf_ok floatuntixf_ok floattitf_ok floatuntitf_ok floatuntisf_ok)

text \<open>C37: the conversions whose target has at least as many significand bits as the integer has digits are exact:
  32-bit integers to double precision, 32- and 64-bit ones to quadruple and 64-bit ones to extended precision.
\<close>

theorem float_conversions_exact:
  "fp_decode 52 (floatsidf x) = Finite (real_of_int (sint x)) \<and>
   fp_decode 52 (floatunsidf x) = Finite (real (unat x)) \<and>
   fp_decode 112 (floatsitf x) = Finite (real_of_int (sint x)) \<and>
   fp_decode 112 (floatunsitf x) = Finite (real (unat x)) \<and>
   fp_decode 112 (floatditf a) = Finite (real_of_int (sint a)) \<and>
   fp_decode 112 (floatunditf a) = Finite (real (unat a)) \<and>
   xf_decode (floatdixf a) = Finite (real_of_int (sint a)) \<and>
   xf_decode (floatundixf a) = Finite (real (unat a))"
  by (intro conjI floatsidf_ok floatunsidf_ok floatsitf_ok floatunsitf_ok floatditf_ok floatunditf_ok floatdixf_ok floatundixf_ok)

end
