(* ===== verification/Spec2Isabelle.thy ===== *)
theory Spec2Isabelle
  imports Int_Shift Int_Mul Int_Overflow Int_Bits Deadlock_Detector1 Stack_Store Vector_Clock Float_Conv
begin

text \<open>
  Verification of parts of compiler-rt: the integer and integer-to-float routines of
  \<^verbatim>\<open>lib/builtins\<close>, and the data structures of the sanitizer runtimes.

  The parts and how they interact.

  The builtins are leaf functions that compiled code calls where the target has no instruction.
  The 64-bit and the 128-bit routines work on the halves of a double word (\<^verbatim>\<open>int_types.h\<close>);
  signed division calls unsigned division, 128-bit division calls the count of leading zeros, and
  the conversions to floating point count leading zeros and shift.

  The deadlock detector of the sanitizers is a stack of templates.  \<^verbatim>\<open>BasicBitVector\<close> is a set in one
  machine word, \<^verbatim>\<open>TwoLevelBitVector\<close> a set of 64 * 64 indices made of basic ones, \<^verbatim>\<open>BVGraph\<close> the
  lock-order graph with one bit vector per node, \<^verbatim>\<open>DeadlockDetector\<close> gives the nodes to
  mutexes and adds an edge from every held lock to the one being taken, and the handlers of
  \<^verbatim>\<open>sanitizer_deadlock_detector1.cpp\<close> are what the runtime calls around each mutex operation.  The
  instance is the one the handlers use, \<^verbatim>\<open>TwoLevelBitVector<>\<close> of 4096 nodes.

  The other parts are the C library of the sanitizers, the arithmetic helpers of
  \<^verbatim>\<open>sanitizer_common.h\<close>, the integer coders with the two stack trace stores built on them, and the
  vector clocks of ThreadSanitizer.

  Theories and what they show.

  \<^item> CRT_Prelude: the integer types as words, the CHECK macros, counted loops whose body may
    fail (foldM), and the lemmas on words and lists the others share.
  \<^item> Int_Types (\<^verbatim>\<open>int_types.h\<close>): a double word and its halves.
  \<^item> Int_Shift (\<^verbatim>\<open>ashldi3.c\<close>, \<^verbatim>\<open>ashrdi3.c\<close>, \<^verbatim>\<open>lshrdi3.c\<close> and the ti versions): each routine is the shift of
    the whole word.
  \<^item> Int_Mul (\<^verbatim>\<open>muldi3.c\<close>, \<^verbatim>\<open>multi3.c\<close>): the product on halves is the product.
  \<^item> Int_Count (\<^verbatim>\<open>clz*\<close>, \<^verbatim>\<open>ctz*\<close>, \<^verbatim>\<open>ffs*\<close>): each routine is the count it names.
  \<^item> Int_Div (\<^verbatim>\<open>int_div_impl.inc\<close>, \<^verbatim>\<open>udivmodsi4.c\<close>), Int_Div_DI (\<^verbatim>\<open>udivmoddi4.c\<close>), Int_Div_TI
    (\<^verbatim>\<open>udivmodti4.c\<close>): quotient and remainder on every branch, and termination of the correction loops of
    Algorithm D.  Int_SDiv (\<^verbatim>\<open>divsi3.c\<close>, \<^verbatim>\<open>modsi3.c\<close>, \<^verbatim>\<open>divmodsi4.c\<close> and the wider ones): truncating
    division, from the contract unsigned_divmod of the unsigned routine.
  \<^item> Int_Overflow (\<^verbatim>\<open>absv*\<close>, \<^verbatim>\<open>addv*\<close>, \<^verbatim>\<open>subv*\<close>, \<^verbatim>\<open>negv*\<close>, \<^verbatim>\<open>mulv*\<close>, \<^verbatim>\<open>mulo*\<close>, \<^verbatim>\<open>cmp*\<close>, \<^verbatim>\<open>ucmp*\<close>,
    \<^verbatim>\<open>neg*\<close>): overflow is reported exactly when there is one.
  \<^item> Int_Bits (\<^verbatim>\<open>bswap*\<close>, \<^verbatim>\<open>parity*\<close>, \<^verbatim>\<open>popcount*\<close>).
  \<^item> Float_Conv (\<^verbatim>\<open>floatsisf.c\<close> and the 21 others): the result decodes to the nearest representable real
    number, ties to even.
  \<^item> Bit_Vector, Two_Level_BV (\<^verbatim>\<open>sanitizer_bitvector.h\<close>): every method is the set operation it
    names, an iterator lists the set in ascending order.  BV_Graph (\<^verbatim>\<open>sanitizer_bvgraph.h\<close>): edges,
    reachability, paths and shortest paths.
  \<^item> Deadlock_Detector (\<^verbatim>\<open>sanitizer_deadlock_detector.h\<close>): the locks held by a thread are a multiset, a
    new node has no edges, the slow and the fast path agree, \<^verbatim>\<open>onLock\<close> reports cycles.
    Deadlock_Detector1 (\<^verbatim>\<open>sanitizer_deadlock_detector1.cpp\<close>): the handlers and the reports.
  \<^item> San_Math (\<^verbatim>\<open>sanitizer_common.h\<close>), San_Libc (\<^verbatim>\<open>sanitizer_libc.cpp\<close>): rounding and powers of two;
    copying, filling, searching and comparing strings, reading numbers.
  \<^item> Var_Int (\<^verbatim>\<open>stack_trace_compressor.cpp\<close>, \<^verbatim>\<open>sanitizer_leb128.h\<close>, and the delta coder of
    \<^verbatim>\<open>sanitizer_stack_store.cpp\<close>): the round trips of the coders.  Stack_Store (class \<^verbatim>\<open>BlockInfo\<close> of
    \<^verbatim>\<open>sanitizer_stack_store.cpp\<close>): packing a block loses nothing.
  \<^item> Vector_Clock (\<^verbatim>\<open>tsan_vector_clock.cpp\<close>): join, copy and exchange of clocks; the vectorised version
    agrees with the plain one.

  Interfaces.  The templates are definitions over the record of methods of their argument.  What a
  client relies on is a locale: bit_vector, bv_iterator, bv_clear_iterator for the bit vectors, two_level and
  two_level_iterator for a bit vector that can be a level of another, bv_graph for the graph,
  detector for the detector, unsigned_division and unsigned_divmod for division.  Each is
  interpreted on the definitions of the code, and the properties rest on those interpretations.

  Conventions.  Code that can fail returns an option: None is a failed CHECK, an abort,
  an access outside an array, an operation C leaves undefined where the code does not rule it out, or a loop that
  does not end.  A theorem that an operation returns Some result therefore includes that it returns.
  Memory is an array of bytes with indices for pointers where buffers may overlap
  (San_Libc, Var_Int), and a map from addresses to mutexes in Deadlock_Detector1.

  Loops and bounds.  There is no fuel.  A counted loop is a fold over its indices or recursion on
  the number of rounds or bytes left.  A loop with no evident bound is a partial_function, whose
  termination is part of what is shown: the correction loops of Algorithm D, \<^verbatim>\<open>isReachable\<close>,
  the scans for a zero byte.  The sizes 64 and 4096 of the bit vectors, the number of slots of a
  vector clock and the number of frames of a block are those of the code.

  Parameters, with what is assumed of them stated in the theorems: the callbacks \<^verbatim>\<open>Unwind\<close> and
  \<^verbatim>\<open>UniqueTid\<close> of the deadlock detector, the page size and the LZW coder of the stack store, and the
  prior contents of memory that an allocator returns.

  Where the model chooses.
  \<^item> Words wrap.  The C code has a signed operation that overflows, undefined in C, in \<^verbatim>\<open>__mulo*\<close> (the
    product a * b), in \<^verbatim>\<open>__divmod*4\<close> and in \<^verbatim>\<open>__floatsisf\<close>, \<^verbatim>\<open>__floatsidf\<close> (negation of the least
    integer); these are taken to wrap, as the targets do.
  \<^item> \<^verbatim>\<open>RoundUpToPowerOfTwo\<close> shifts by 64 for sizes above 2 ^ 63; that shift is 0 in the model, and the CHECK
    after it then fails.  The statement for these sizes is about that reading.
  \<^item> Of a pair of preprocessor branches one is modelled: in \<^verbatim>\<open>udivmodti4.c\<close> the portable one and not
    the x86-64 \<^verbatim>\<open>divq\<close>; in \<^verbatim>\<open>floatdidf.c\<close> and \<^verbatim>\<open>floatundidf.c\<close> the soft one and not hardware
    double arithmetic; in \<^verbatim>\<open>sanitizer_common.h\<close> the one without \<^verbatim>\<open>__builtin_align_up\<close>;
    in \<^verbatim>\<open>sanitizer_libc.cpp\<close> the one that is not for pure-capability builds.  In
    \<^verbatim>\<open>tsan_vector_clock.cpp\<close> both.
  \<^item> \<^verbatim>\<open>uptr\<close> and \<^verbatim>\<open>uintptr_t\<close> have 64 bits, a plain \<^verbatim>\<open>char\<close> is signed, as on x86-64.
  \<^item> \<^verbatim>\<open>MutexBeforeLock\<close> has a parameter \<^verbatim>\<open>wlock\<close> it does not use; the model has not.
  \<^item> Handlers and block operations run one at a time, as their locks arrange.

  Not modelled: the soft-float arithmetic and the conversions from floating point, the complex
  routines (hardware floating point), the atomics, the LZW coder, \<^verbatim>\<open>Store\<close>, \<^verbatim>\<open>Load\<close> and \<^verbatim>\<open>Alloc\<close> of the stack
  store (lock-free allocation of frames), printing, and the runtimes proper (AddressSanitizer,
  MemorySanitizer, ThreadSanitizer, Scudo, GWP-ASan, XRay, ORC, the profile runtime and the rest), which consist of
  interceptors, memory mappings, signal handlers and other uses of the operating system.
\<close>

end
